(* ===== verification/Prelude.thy ===== *)
theory Prelude
  imports Main "HOL-Library.Word" "HOL-Library.Mapping" "HOL-Library.AList_Mapping"
begin

text \<open>
  Shared ground of the development: names for the machine integers of the Rust sources, the
  saturating and checked integer operations of the Rust standard library that the sources call,
  little-endian byte strings (\<open>to_le_bytes\<close> / \<open>from_le_bytes\<close>), the \<open>?\<close> operator on
  \<open>Result\<close> values, and the generic list and word lemmas the components share.

  Unsigned integers are words read with \<open>unat\<close>; \<open>i64\<close> is the same 64-bit word read with
  \<open>sint\<close>. Plain \<open>+\<close> on a word wraps, as the release profile of the workspace does (it does
  not turn overflow checks on) and as \<open>fetch_add\<close> and \<open>wrapping_add\<close> do in every profile.
\<close>

section \<open>Collections of facts\<close>

named_theorems codec_simps \<open>rewrite rules that run an encoder against its decoder\<close>
named_theorems book_simps \<open>rewrite rules for the queues of the order book\<close>
named_theorems inv_intros \<open>preservation of the invariants of the components\<close>

section \<open>Machine integers\<close>

type_synonym u8 = "8 word"
type_synonym u32 = "32 word"
type_synonym u64 = "64 word"
type_synonym i64 = "64 word"
type_synonym bytes = "u8 list"

definition u64_saturating_add :: "u64 \<Rightarrow> u64 \<Rightarrow> u64" where
  "u64_saturating_add a b = (if unat a + unat b < 2 ^ 64 then a + b else - 1)"

definition u64_saturating_sub :: "u64 \<Rightarrow> u64 \<Rightarrow> u64" where
  "u64_saturating_sub a b = (if b \<le> a then a - b else 0)"

definition i64_min :: i64 where
  "i64_min = 2 ^ 63"

definition i64_max :: i64 where
  "i64_max = 2 ^ 63 - 1"

definition i64_saturate :: "int \<Rightarrow> i64" where
  "i64_saturate n = (if n < - (2 ^ 63) then i64_min else if n \<ge> 2 ^ 63 then i64_max else word_of_int n)"

definition i64_saturating_add :: "i64 \<Rightarrow> i64 \<Rightarrow> i64" where
  "i64_saturating_add a b = i64_saturate (sint a + sint b)"

definition i64_saturating_sub :: "i64 \<Rightarrow> i64 \<Rightarrow> i64" where
  "i64_saturating_sub a b = i64_saturate (sint a - sint b)"

definition i64_checked_mul :: "i64 \<Rightarrow> i64 \<Rightarrow> i64 option" where
  "i64_checked_mul a b =
     (let p = sint a * sint b
      in if - (2 ^ 63) \<le> p \<and> p < 2 ^ 63 then Some (word_of_int p) else None)"

section \<open>Little-endian byte strings\<close>

primrec to_le_bytes :: "nat \<Rightarrow> 'a::len word \<Rightarrow> bytes" where
  "to_le_bytes 0 w = []"
| "to_le_bytes (Suc n) w = ucast w # to_le_bytes n (drop_bit 8 w)"

primrec from_le_bytes :: "bytes \<Rightarrow> 'a::len word" where
  "from_le_bytes [] = 0"
| "from_le_bytes (b # bs) = or (ucast b) (push_bit 8 (from_le_bytes bs))"

abbreviation u64_le :: "u64 \<Rightarrow> bytes" where
  "u64_le \<equiv> to_le_bytes 8"

abbreviation u32_le :: "u32 \<Rightarrow> bytes" where
  "u32_le \<equiv> to_le_bytes 4"

section \<open>Results and the question-mark operator\<close>

text \<open>\<open>Result<T, E>\<close> is \<open>'e + 'a\<close>, with \<open>Inl\<close> for \<open>Err\<close>; \<open>r?\<close> is \<open>try_bind r\<close>.\<close>

definition try_bind :: "'e + 'a \<Rightarrow> ('a \<Rightarrow> 'e + 'b) \<Rightarrow> 'e + 'b" where
  "try_bind r f = (case r of Inl e \<Rightarrow> Inl e | Inr x \<Rightarrow> f x)"

lemma try_bind_simps [simp]:
  "try_bind (Inl e) f = Inl e"
  "try_bind (Inr x) f = f x"
  by (simp_all add: try_bind_def)

lemma try_bind_Inr_iff: "try_bind r f = Inr y \<longleftrightarrow> (\<exists>x. r = Inr x \<and> f x = Inr y)"
  by (cases r) simp_all

section \<open>Lemmas on association lists\<close>

text \<open>An association list with distinct keys is its key list and its lookup function.\<close>

lemma alist_eqI:
  "map fst xs = map fst ys \<Longrightarrow> distinct (map fst xs) \<Longrightarrow> map_of xs = map_of ys \<Longrightarrow> xs = ys"
proof (induction xs arbitrary: ys)
  case Nil
  then show ?case by simp
next
  case (Cons x xs)
  then obtain y ys' where ys: "ys = y # ys'" "fst y = fst x" "map fst xs = map fst ys'"
    by (cases ys) auto
  have fresh: "map_of xs (fst x) = None" "map_of ys' (fst x) = None"
    using Cons.prems(2) ys(3) by (simp_all add: map_of_eq_None_iff flip: set_map)
  have "snd x = snd y"
    using fun_cong [OF Cons.prems(3), of "fst x"] ys by simp
  moreover have "map_of xs k = map_of ys' k" for k
    using fun_cong [OF Cons.prems(3), of k] ys fresh by (cases "k = fst x") simp_all
  ultimately show ?case
    using Cons ys by (simp add: prod_eq_iff fun_eq_iff)
qed

text \<open>The values of an association list, flattened.\<close>

definition flatten :: "('k \<times> 'v list) list \<Rightarrow> ('k \<times> 'v) list" where
  "flatten m = concat (map (\<lambda>(k, l). map (Pair k) l) m)"

lemma flatten_simps [simp]:
  "flatten [] = []"
  "flatten ((k, l) # m) = map (Pair k) l @ flatten m"
  "flatten (m @ m') = flatten m @ flatten m'"
  by (simp_all add: flatten_def)

lemma set_flatten: "(k, x) \<in> set (flatten m) \<longleftrightarrow> (\<exists>l. (k, l) \<in> set m \<and> x \<in> set l)"
  by (auto simp: flatten_def)

lemma filter_flatten:
  "distinct (map fst m) \<Longrightarrow> filter (\<lambda>e. fst e = k) (flatten m) =
     (case map_of m k of None \<Rightarrow> [] | Some l \<Rightarrow> map (Pair k) l)"
proof (induction m)
  case Nil
  then show ?case by simp
next
  case (Cons e m)
  obtain k' l where e: "e = (k', l)" by (cases e)
  have "map_of m k' = None"
    using Cons.prems e by (simp add: map_of_eq_None_iff)
  with Cons e show ?case
    by (cases "k' = k") (auto simp: filter_map comp_def)
qed

lemma distinct_flatten:
  assumes "distinct (map fst m)" "\<And>k l. (k, l) \<in> set m \<Longrightarrow> distinct (map f l)"
    and "\<And>k l k' l' x y. (k, l) \<in> set m \<Longrightarrow> (k', l') \<in> set m \<Longrightarrow> x \<in> set l \<Longrightarrow> y \<in> set l' \<Longrightarrow>
      f x = f y \<Longrightarrow> k = k'"
  shows "distinct (map (f \<circ> snd) (flatten m))"
  using assms
proof (induction m)
  case Nil
  then show ?case by simp
next
  case (Cons e m)
  obtain k l where e: "e = (k, l)" by (cases e)
  have "distinct (map (f \<circ> snd) (flatten m))"
  proof (rule Cons.IH)
    show "distinct (map fst m)" "\<And>k l. (k, l) \<in> set m \<Longrightarrow> distinct (map f l)"
      using Cons.prems(1,2) by auto
    fix k l k' l' x y
    assume "(k, l) \<in> set m" "(k', l') \<in> set m" "x \<in> set l" "y \<in> set l'" "f x = f y"
    then show "k = k'"
      using Cons.prems(3) [of k l k' l' x y] by simp
  qed
  moreover have "distinct (map f l)"
    using Cons.prems(2) [of k l] e by simp
  moreover have "f x \<noteq> f y" if mem: "x \<in> set l" "(k', y) \<in> set (flatten m)" for x k' y
  proof
    assume "f x = f y"
    moreover obtain l' where "(k', l') \<in> set m" "y \<in> set l'"
      using mem(2) by (auto simp: set_flatten)
    ultimately have "k = k'" and "k' \<in> fst ` set m"
      using Cons.prems(3) [of k l k' l' x y] mem(1) e by force+
    with Cons.prems(1) e show False by simp
  qed
  ultimately show ?case
    using e by (fastforce simp: comp_def)
qed

section \<open>Lemmas on integers\<close>

lemma unat_max_u64: "unat (- 1 :: u64) = 2 ^ 64 - 1"
  by (simp add: unsigned_minus_1_eq_mask mask_eq_exp_minus_1)

text \<open>For evaluation without numbers of the size of a word.\<close>

lemma u64_saturating_add_code [code]: "u64_saturating_add a b = (if a \<le> - 1 - b then a + b else - 1)"
proof -
  have "unat (- 1 - b) = 2 ^ 64 - 1 - unat b"
    using unat_sub [of b "- 1"] unat_max_u64 by simp
  moreover have unat_bound: "unat b < 2 ^ 64" using unsigned_less [of b] by simp
  ultimately have "a \<le> - 1 - b \<longleftrightarrow> unat a + unat b < 2 ^ 64"
    unfolding word_le_nat_alt using unat_bound by auto
  then show ?thesis by (simp add: u64_saturating_add_def)
qed

lemma unat_saturating_add: "unat (u64_saturating_add a b) = min (unat a + unat b) (2 ^ 64 - 1)"
  using unat_max_u64 by (auto simp: u64_saturating_add_def unat_word_ariths min_def)

lemma unat_saturating_sub: "unat (u64_saturating_sub a b) = unat a - unat b"
  by (auto simp: u64_saturating_sub_def unat_sub word_le_nat_alt)

lemma u64_saturating_sub_self [simp]: "u64_saturating_sub a a = 0"
  by (simp add: u64_saturating_sub_def)

lemma u64_saturating_sub_0 [simp]: "u64_saturating_sub a 0 = a"
  by (simp add: u64_saturating_sub_def)

lemma u64_saturating_sub_eq_0_iff: "u64_saturating_sub a b = 0 \<longleftrightarrow> a \<le> b"
  by (metis unat_saturating_sub diff_is_0_eq unat_0 unat_eq_zero word_le_nat_alt)

lemma sint_i64_range: "- (2 ^ 63) \<le> sint (a :: i64)" "sint (a :: i64) < 2 ^ 63"
  using sint_ge [of a] sint_lt [of a] by simp_all

lemma sint_i64_of_int: "- (2 ^ 63) \<le> n \<Longrightarrow> n < 2 ^ 63 \<Longrightarrow> sint (word_of_int n :: i64) = n"
  by (simp add: sint_sbintrunc' signed_take_bit_int_eq_self)

lemma sint_i64_saturate: "sint (i64_saturate n) = max (- (2 ^ 63)) (min n (2 ^ 63 - 1))"
  using sint_i64_of_int [of n] by (auto simp: i64_saturate_def i64_min_def i64_max_def)

section \<open>Lemmas on byte strings\<close>

lemma length_to_le_bytes [simp]: "length (to_le_bytes n w) = n"
  by (induction n arbitrary: w) simp_all

lemma to_le_bytes_inj_length: "to_le_bytes n w @ xs = to_le_bytes n v @ ys \<longleftrightarrow>
    to_le_bytes n w = to_le_bytes n v \<and> xs = ys"
  by simp

lemma from_to_le_bytes_take: "from_le_bytes (to_le_bytes n w) = take_bit (8 * n) w"
proof (induction n arbitrary: w)
  case 0
  then show ?case by simp
next
  case (Suc n)
  have "or (ucast (ucast w :: u8)) (push_bit 8 (take_bit (8 * n) (drop_bit 8 w))) =
      take_bit (8 * Suc n) w"
    by (rule bit_word_eqI)
      (auto simp: bit_simps not_less less_diff_conv2)
  with Suc show ?case by simp
qed

lemma from_to_le_bytes_u64 [simp, codec_simps]: "from_le_bytes (to_le_bytes 8 (w :: u64)) = w"
  by (simp add: from_to_le_bytes_take take_bit_word_eq_self)

lemma from_to_le_bytes_u32 [simp, codec_simps]: "from_le_bytes (to_le_bytes 4 (w :: u32)) = w"
  by (simp add: from_to_le_bytes_take take_bit_word_eq_self)

lemma to_le_bytes_cong_take:
  "take_bit (8 * n) w = take_bit (8 * n) v \<Longrightarrow> to_le_bytes n w = to_le_bytes n v"
proof (induction n arbitrary: w v)
  case 0
  then show ?case by simp
next
  case (Suc n)
  have bits: "bit w k = bit v k" if "k < 8 * Suc n" for k
    using Suc.prems that by (metis bit_take_bit_iff)
  have "(ucast w :: u8) = ucast v"
  proof (rule bit_word_eqI)
    fix k
    assume "k < LENGTH(8)"
    then show "bit (ucast w :: u8) k = bit (ucast v :: u8) k"
      using bits [of k] by (simp add: bit_simps)
  qed
  moreover have "take_bit (8 * n) (drop_bit 8 w) = take_bit (8 * n) (drop_bit 8 v)"
  proof (rule bit_word_eqI)
    fix k
    have "bit w (8 + k) = bit v (8 + k)" if "k < 8 * n"
      using that by (intro bits) simp
    then show "bit (take_bit (8 * n) (drop_bit 8 w)) k = bit (take_bit (8 * n) (drop_bit 8 v)) k"
      by (simp only: bit_take_bit_iff bit_drop_bit_eq comp_def) blast
  qed
  ultimately show ?case using Suc.IH [of "drop_bit 8 w" "drop_bit 8 v"] by simp
qed

lemma to_from_le_bytes:
  "8 * length bs \<le> LENGTH('a) \<Longrightarrow>
     to_le_bytes (length bs) (from_le_bytes bs :: 'a::len word) = bs"
proof (induction bs)
  case Nil
  then show ?case by simp
next
  case (Cons b bs)
  let ?w = "from_le_bytes bs :: 'a word"
  have hd: "(ucast (or (ucast b) (push_bit 8 ?w)) :: u8) = b"
    using Cons.prems by (intro bit_word_eqI) (auto simp: bit_simps)
  have "to_le_bytes (length bs) (drop_bit 8 (or (ucast b) (push_bit 8 ?w))) =
      to_le_bytes (length bs) ?w"
    using Cons.prems by (intro to_le_bytes_cong_take bit_word_eqI)
      (auto simp: bit_simps dest: bit_imp_le_length)
  with hd Cons show ?case by simp
qed

end
