(* ===== verification/Types.thy ===== *)
theory Types
  imports Prelude
begin

text \<open>
  The domain types of \<^verbatim>\<open>bourse-core/src/types\<close>. \<open>OrderId\<close>, \<open>Qty\<close>, \<open>Sequence\<close> and
  \<open>Timestamp\<close> are transparent wrappers of a 64-bit integer and stay type synonyms; \<open>Price\<close>
  is a type of its own because its derived order is the signed one. The operations are the
  methods of the wrappers, in the order of the sources.
\<close>

section \<open>Identifiers, quantities, timestamps\<close>

type_synonym order_id = u64
type_synonym qty = u64
type_synonym timestamp = i64

definition qty_saturating_add :: "qty \<Rightarrow> qty \<Rightarrow> qty" where
  "qty_saturating_add a b = u64_saturating_add a b"

definition qty_saturating_sub :: "qty \<Rightarrow> qty \<Rightarrow> qty" where
  "qty_saturating_sub a b = u64_saturating_sub a b"

section \<open>Prices\<close>

datatype price = Price (price_raw: i64)

instantiation price :: linorder
begin

definition less_eq_price :: "price \<Rightarrow> price \<Rightarrow> bool" where
  "less_eq_price p q \<longleftrightarrow> sint (price_raw p) \<le> sint (price_raw q)"

definition less_price :: "price \<Rightarrow> price \<Rightarrow> bool" where
  "less_price p q \<longleftrightarrow> sint (price_raw p) < sint (price_raw q)"

instance
proof
  fix p q :: price
  assume "p \<le> q" "q \<le> p"
  then have "sint (price_raw p) = sint (price_raw q)"
    by (simp add: less_eq_price_def)
  then have "price_raw p = price_raw q" by (rule signed_word_eqI)
  then show "p = q" by (rule price.expand)
qed (auto simp: less_eq_price_def less_price_def)

end

definition PRICE_SCALE_DIGITS :: nat where
  "PRICE_SCALE_DIGITS = 8"

definition PRICE_SCALE :: i64 where
  "PRICE_SCALE = 100000000"

datatype price_error = OutOfRange

definition price_min :: price where
  "price_min = Price i64_min"

definition price_max :: price where
  "price_max = Price i64_max"

definition price_zero :: price where
  "price_zero = Price 0"

definition price_from_units :: "i64 \<Rightarrow> price_error + price" where
  "price_from_units units =
     (case i64_checked_mul units PRICE_SCALE of
        Some raw \<Rightarrow> Inr (Price raw)
      | None \<Rightarrow> Inl OutOfRange)"

definition price_saturating_add :: "price \<Rightarrow> price \<Rightarrow> price" where
  "price_saturating_add p q = Price (i64_saturating_add (price_raw p) (price_raw q))"

definition price_saturating_sub :: "price \<Rightarrow> price \<Rightarrow> price" where
  "price_saturating_sub p q = Price (i64_saturating_sub (price_raw p) (price_raw q))"

text \<open>Decimal formatting, as \<open>write!\<close> prints an unsigned integer, plain and zero-padded.\<close>

definition digit_char :: "nat \<Rightarrow> char" where
  "digit_char d = char_of (48 + d)"

fun dec_string :: "nat \<Rightarrow> string" where
  "dec_string n = (if n < 10 then [digit_char n] else dec_string (n div 10) @ [digit_char (n mod 10)])"

declare dec_string.simps [simp del]

definition dec_padded :: "nat \<Rightarrow> nat \<Rightarrow> string" where
  "dec_padded width n = replicate (width - length (dec_string n)) (CHR ''0'') @ dec_string n"

definition i64_unsigned_abs :: "i64 \<Rightarrow> nat" where
  "i64_unsigned_abs a = nat \<bar>sint a\<bar>"

definition price_fmt :: "price \<Rightarrow> string" where
  "price_fmt p =
     (let abs = i64_unsigned_abs (price_raw p);
          scale = unat PRICE_SCALE;
          whole = abs div scale;
          frac = abs mod scale;
          sign = (if sint (price_raw p) < 0 then ''-'' else '''')
      in sign @ dec_string whole @ ''.'' @ dec_padded PRICE_SCALE_DIGITS frac)"

section \<open>Sequence numbers\<close>

type_synonym sequence = u64

text \<open>\<open>SequenceGenerator\<close>: the field is an \<open>AtomicU64\<close> with the matcher as its one writer.\<close>

record sequence_generator =
  gen_next :: u64

definition sequence_generator_new :: sequence_generator where
  "sequence_generator_new = \<lparr>gen_next = 1\<rparr>"

definition starting_at :: "sequence \<Rightarrow> sequence_generator" where
  "starting_at start = \<lparr>gen_next = (if start = 0 then 1 else start)\<rparr>"

definition seq_next :: "sequence_generator \<Rightarrow> sequence \<times> sequence_generator" where
  "seq_next g = (gen_next g, g\<lparr>gen_next := gen_next g + 1\<rparr>)"

definition seq_peek :: "sequence_generator \<Rightarrow> sequence" where
  "seq_peek g = gen_next g"

section \<open>Sides\<close>

datatype side = Buy | Sell

fun opposite :: "side \<Rightarrow> side" where
  "opposite Buy = Sell"
| "opposite Sell = Buy"

text \<open>\<open>side as u8\<close>: the declared discriminants.\<close>

fun side_discr :: "side \<Rightarrow> u8" where
  "side_discr Buy = 1"
| "side_discr Sell = 2"

section \<open>Lemmas\<close>

lemma opposite_opposite [simp]: "opposite (opposite s) = s"
  by (cases s) simp_all

lemma opposite_neq [simp]: "opposite s \<noteq> s" "s \<noteq> opposite s"
  by (cases s; simp)+

lemma seq_peek_predicts_next: "fst (seq_next g) = seq_peek g"
  by (simp add: seq_next_def seq_peek_def)

lemma price_le_raw: "Price a \<le> Price b \<longleftrightarrow> sint a \<le> sint b"
  by (simp add: less_eq_price_def)

lemma price_less_raw: "Price a < Price b \<longleftrightarrow> sint a < sint b"
  by (simp add: less_price_def)

text \<open>Reading a decimal string back: the inverse used to state that formatting loses nothing.\<close>

definition dec_value :: "string \<Rightarrow> nat" where
  "dec_value s = foldl (\<lambda>acc c. 10 * acc + (of_char c - 48)) 0 s"

lemma dec_value_snoc [simp]: "dec_value (s @ [c]) = 10 * dec_value s + (of_char c - 48)"
  by (simp add: dec_value_def)

lemma of_digit_char [simp]: "d < 10 \<Longrightarrow> of_char (digit_char d) = (48 + d :: nat)"
  by (simp add: digit_char_def of_char_of)

lemma dec_value_dec_string [simp]: "dec_value (dec_string n) = n"
proof (induction n rule: dec_string.induct)
  case (1 n)
  show ?case
  proof (cases "n < 10")
    case True
    then show ?thesis
      by (subst dec_string.simps) (simp add: dec_value_def)
  next
    case False
    with 1 show ?thesis
      by (subst dec_string.simps) simp
  qed
qed

lemma dec_value_replicate_zero: "dec_value (replicate k (CHR ''0'') @ s) = dec_value s"
proof -
  have "foldl (\<lambda>acc c. 10 * acc + (of_char c - 48)) (0::nat) (replicate k (CHR ''0'')) = 0"
    by (induction k) simp_all
  then show ?thesis by (simp add: dec_value_def)
qed

lemma dec_value_dec_padded [simp]: "dec_value (dec_padded w n) = n"
  by (simp add: dec_padded_def dec_value_replicate_zero)

lemma length_dec_string: "0 < k \<Longrightarrow> n < 10 ^ k \<Longrightarrow> length (dec_string n) \<le> k"
proof (induction n arbitrary: k rule: dec_string.induct)
  case (1 n)
  show ?case
  proof (cases "n < 10")
    case True
    with 1(2) show ?thesis by (subst dec_string.simps) simp
  next
    case False
    with 1(3) have "k \<noteq> 1" by auto
    with 1(2) obtain j where j: "k = Suc j" "0 < j" by (cases k) auto
    with 1(3) have "n div 10 < 10 ^ j" by auto
    with 1(1) False j have "length (dec_string (n div 10)) \<le> j" by blast
    with False j show ?thesis by (subst dec_string.simps) simp
  qed
qed

lemma length_dec_padded: "0 < w \<Longrightarrow> n < 10 ^ w \<Longrightarrow> length (dec_padded w n) = w"
  using length_dec_string [of w n] by (simp add: dec_padded_def)

end
