(* ===== verification/Btree_Map.thy ===== *)
theory Btree_Map
  imports Prelude
begin

text \<open>
  The part of \<open>std::collections::BTreeMap\<close> the order book uses, as a list of entries in key
  order: \<open>get\<close> is \<open>map_of\<close>, \<open>bt_insert\<close> the insertion behind \<open>entry(k).or_default()\<close>,
  \<open>bt_write\<close> the store through the reference that \<open>get_mut\<close> returns, \<open>bt_remove\<close> the
  removal of a key. Iteration is the list itself. The locale \<open>ordered_map\<close> is what the book
  relies on, and its interpretation discharges it for these operations.
\<close>

section \<open>Operations\<close>

type_synonym ('k, 'v) btree = "('k \<times> 'v) list"

fun bt_insert :: "('k::linorder, 'v) btree \<Rightarrow> 'k \<Rightarrow> 'v \<Rightarrow> ('k, 'v) btree" where
  "bt_insert [] k v = [(k, v)]"
| "bt_insert (e # m) k v =
     (if fst e < k then e # bt_insert m k v
      else if k < fst e then (k, v) # e # m
      else (k, v) # m)"

fun bt_write :: "('k, 'v) btree \<Rightarrow> 'k \<Rightarrow> 'v \<Rightarrow> ('k, 'v) btree" where
  "bt_write [] k v = []"
| "bt_write (e # m) k v = (if fst e = k then (k, v) # m else e # bt_write m k v)"

fun bt_remove :: "('k, 'v) btree \<Rightarrow> 'k \<Rightarrow> ('k, 'v) btree" where
  "bt_remove [] k = []"
| "bt_remove (e # m) k = (if fst e = k then m else e # bt_remove m k)"

definition bt_first_key_value :: "('k, 'v) btree \<Rightarrow> ('k \<times> 'v) option" where
  "bt_first_key_value m = (case m of [] \<Rightarrow> None | e # _ \<Rightarrow> Some e)"

definition bt_last_key_value :: "('k, 'v) btree \<Rightarrow> ('k \<times> 'v) option" where
  "bt_last_key_value m = (case rev m of [] \<Rightarrow> None | e # _ \<Rightarrow> Some e)"

text \<open>The representation invariant: keys strictly ascending.\<close>

definition bt_inv :: "('k::linorder, 'v) btree \<Rightarrow> bool" where
  "bt_inv m \<longleftrightarrow> sorted_wrt (<) (map fst m)"

section \<open>The interface\<close>

locale ordered_map =
  fixes empty :: 'm
    and get :: "'m \<Rightarrow> 'k::linorder \<Rightarrow> 'v option"
    and insert :: "'m \<Rightarrow> 'k \<Rightarrow> 'v \<Rightarrow> 'm"
    and store :: "'m \<Rightarrow> 'k \<Rightarrow> 'v \<Rightarrow> 'm"
    and remove :: "'m \<Rightarrow> 'k \<Rightarrow> 'm"
    and iter :: "'m \<Rightarrow> ('k \<times> 'v) list"
    and inv :: "'m \<Rightarrow> bool"
  assumes iter_empty: "iter empty = []"
    and inv_empty: "inv empty"
    and iter_sorted: "inv m \<Longrightarrow> sorted_wrt (<) (map fst (iter m))"
    and get_iter: "get m = map_of (iter m)"
    and iter_inj: "iter m = iter m' \<Longrightarrow> m = m'"
    and get_insert: "get (insert m k v) = (get m)(k \<mapsto> v)"
    and inv_insert: "inv m \<Longrightarrow> inv (insert m k v)"
    and get_store: "get m k \<noteq> None \<Longrightarrow> get (store m k v) = (get m)(k \<mapsto> v)"
    and inv_store: "inv m \<Longrightarrow> inv (store m k v)"
    and get_remove: "inv m \<Longrightarrow> get (remove m k) = (get m)(k := None)"
    and inv_remove: "inv m \<Longrightarrow> inv (remove m k)"
begin

lemma get_empty: "get empty = Map.empty"
  by (simp add: get_iter iter_empty)

lemma iter_keys_distinct: "inv m \<Longrightarrow> distinct (map fst (iter m))"
  using iter_sorted by (simp add: strict_sorted_iff)

lemma get_Some_iff: "inv m \<Longrightarrow> get m k = Some v \<longleftrightarrow> (k, v) \<in> set (iter m)"
  by (simp add: get_iter iter_keys_distinct)

lemma get_None_iff: "get m k = None \<longleftrightarrow> k \<notin> fst ` set (iter m)"
  by (simp add: get_iter map_of_eq_None_iff)

text \<open>Maps that answer every lookup alike are the same map, iteration order included.\<close>

lemma map_ext:
  assumes "inv m" "inv m'" "get m = get m'"
  shows "m = m'"
proof (rule iter_inj)
  have keys: "map fst (iter m) = map fst (iter m')"
  proof (rule strict_sorted_equal [symmetric])
    show "sorted_wrt (<) (map fst (iter m))" "sorted_wrt (<) (map fst (iter m'))"
      using assms(1,2) by (simp_all add: iter_sorted)
    show "list.set (map fst (iter m')) = list.set (map fst (iter m))"
      using assms(3) by (simp add: get_iter flip: dom_map_of_conv_image_fst)
  qed
  show "iter m = iter m'"
    using keys assms by (intro alist_eqI) (simp_all add: iter_keys_distinct flip: get_iter)
qed

lemma remove_insert_fresh: "inv m \<Longrightarrow> get m k = None \<Longrightarrow> remove (insert m k v) k = m"
  by (rule map_ext) (auto simp: inv_insert inv_remove get_insert get_remove)

lemma store_eq_insert: "inv m \<Longrightarrow> get m k \<noteq> None \<Longrightarrow> store m k v = insert m k v"
  by (rule map_ext) (auto simp: inv_insert inv_store get_insert get_store)

lemma insert_commute:
  "inv m \<Longrightarrow> k \<noteq> k' \<Longrightarrow> insert (insert m k v) k' v' = insert (insert m k' v') k v"
  by (rule map_ext) (auto simp: inv_insert get_insert)

text \<open>The first and the last entry of the iteration carry the least and the greatest key.\<close>

lemma iter_head_least:
  assumes "inv m" "iter m = (k, v) # rest"
  shows "get m k = Some v" "get m k' \<noteq> None \<Longrightarrow> k \<le> k'"
  using assms iter_sorted [OF assms(1)]
  by (auto simp: get_iter less_imp_le split: if_splits dest!: map_of_SomeD bspec)

lemma iter_last_greatest:
  assumes "inv m" "rev (iter m) = (k, v) # rest"
  shows "get m k = Some v" "get m k' \<noteq> None \<Longrightarrow> k' \<le> k"
proof -
  have it: "iter m = rev rest @ [(k, v)]"
    using assms(2) by (metis rev.simps(2) rev_rev_ident)
  show "get m k = Some v"
    using assms(1) it by (simp add: get_Some_iff)
  show "k' \<le> k" if "get m k' \<noteq> None"
    using that iter_sorted [OF assms(1)]
    by (auto simp: get_None_iff it sorted_wrt_append)
qed

end

section \<open>The list of entries provides it\<close>

lemma map_of_bt_insert: "map_of (bt_insert m k v) = (map_of m)(k \<mapsto> v)"
  by (induction m) (auto simp: fun_eq_iff)

lemma fst_set_bt_insert: "fst ` set (bt_insert m k v) = insert k (fst ` set m)"
  using map_of_bt_insert [of m k v] by (metis dom_fun_upd dom_map_of_conv_image_fst option.discI)

lemma bt_inv_insert: "bt_inv m \<Longrightarrow> bt_inv (bt_insert m k v)"
  unfolding bt_inv_def
proof (induction m)
  case Nil
  then show ?case by simp
next
  case (Cons e m)
  have keys: "set (map fst (bt_insert m k v)) = insert k (set (map fst m))"
    using fst_set_bt_insert [of m k v] by simp
  from Cons show ?case
    by (auto simp: keys simp del: set_map)
qed

lemma map_fst_bt_write [simp]: "map fst (bt_write m k v) = map fst m"
  by (induction m) auto

lemma map_of_bt_write: "map_of m k \<noteq> None \<Longrightarrow> map_of (bt_write m k v) = (map_of m)(k \<mapsto> v)"
  by (induction m) (auto simp: fun_eq_iff)

lemma set_bt_remove: "bt_inv m \<Longrightarrow> set (bt_remove m k) = {e \<in> set m. fst e \<noteq> k}"
  by (induction m) (auto simp: bt_inv_def)

lemma bt_inv_remove: "bt_inv m \<Longrightarrow> bt_inv (bt_remove m k)"
proof (induction m)
  case Nil
  then show ?case by (simp add: bt_inv_def)
next
  case (Cons e m)
  then have "bt_inv m" by (simp add: bt_inv_def)
  with Cons set_bt_remove [of m k] show ?case
    by (auto simp: bt_inv_def)
qed

lemma map_of_bt_remove: "bt_inv m \<Longrightarrow> map_of (bt_remove m k) = (map_of m)(k := None)"
proof (induction m)
  case Nil
  then show ?case by simp
next
  case (Cons e m)
  then have "fst e \<notin> fst ` set m" by (auto simp: bt_inv_def)
  then have "map_of m (fst e) = None" by (simp add: map_of_eq_None_iff)
  with Cons show ?case by (auto simp: bt_inv_def fun_eq_iff)
qed

interpretation bt: ordered_map "[]" map_of bt_insert bt_write bt_remove "\<lambda>m. m" bt_inv
  by unfold_locales
    (simp_all add: bt_inv_insert bt_inv_remove map_of_bt_insert map_of_bt_write map_of_bt_remove,
     simp_all add: bt_inv_def)

end
