(* ===== verification/Order_Book.thy ===== *)
theory Order_Book
  imports Types Btree_Map
begin

text \<open>
  The order book of \<^verbatim>\<open>bourse-core/src/order_book.rs\<close>: two ordered maps from price to a queue of
  orders (\<open>VecDeque\<close>, front first) and an index from order id to side and price. The index is a
  \<open>HashMap\<close>, whose equality ignores order, and is a \<open>mapping\<close> here.

  A mutating method takes the book and returns its result paired with the new book. The first part
  of the theory is the code; then the invariant, the view of the book as one queue per side and
  price (\<open>level_at\<close>), and what every operation does to that view on every branch.
\<close>

section \<open>Data\<close>

record order =
  o_id :: order_id
  o_qty :: qty
  o_seq :: sequence

type_synonym level = "order list"

record book =
  bids :: "(price, level) btree"
  asks :: "(price, level) btree"
  index :: "(order_id, side \<times> price) mapping"

record resting_order =
  r_id :: order_id
  r_side :: side
  r_price :: price
  r_qty :: qty
  r_seq :: sequence

record take =
  t_maker :: order_id
  t_taken :: qty
  t_remaining :: qty

section \<open>Operations\<close>

definition book_new :: book where
  "book_new = \<lparr>bids = [], asks = [], index = Mapping.empty\<rparr>"

text \<open>\<open>match side { Buy => &self.bids, Sell => &self.asks }\<close>, read and written through.\<close>

fun side_map :: "book \<Rightarrow> side \<Rightarrow> (price, level) btree" where
  "side_map b Buy = bids b"
| "side_map b Sell = asks b"

fun set_side_map :: "side \<Rightarrow> (price, level) btree \<Rightarrow> book \<Rightarrow> book" where
  "set_side_map Buy m b = b\<lparr>bids := m\<rparr>"
| "set_side_map Sell m b = b\<lparr>asks := m\<rparr>"

text \<open>\<open>entry(price).or_default()\<close> followed by \<open>push_back\<close>.\<close>

definition entry_push_back :: "(price, level) btree \<Rightarrow> price \<Rightarrow> order \<Rightarrow> (price, level) btree" where
  "entry_push_back m p ord =
     (case map_of m p of
        None \<Rightarrow> bt_insert m p ([] @ [ord])
      | Some l \<Rightarrow> bt_write m p (l @ [ord]))"

definition book_add :: "order_id \<Rightarrow> side \<Rightarrow> price \<Rightarrow> qty \<Rightarrow> sequence \<Rightarrow> book \<Rightarrow> bool \<times> book" where
  "book_add i s p q sq b =
     (if q = 0 \<or> Mapping.lookup (index b) i \<noteq> None then (False, b)
      else
        let b1 = set_side_map s (entry_push_back (side_map b s) p \<lparr>o_id = i, o_qty = q, o_seq = sq\<rparr>) b
        in (True, b1\<lparr>index := Mapping.update i (s, p) (index b1)\<rparr>))"

text \<open>\<open>Iterator::position\<close> and \<open>VecDeque::remove\<close>.\<close>

fun position :: "('a \<Rightarrow> bool) \<Rightarrow> 'a list \<Rightarrow> nat option" where
  "position P [] = None"
| "position P (x # xs) = (if P x then Some 0 else map_option Suc (position P xs))"

definition deque_remove :: "nat \<Rightarrow> 'a list \<Rightarrow> ('a \<times> 'a list) option" where
  "deque_remove n xs = (if n < length xs then Some (xs ! n, take n xs @ drop (Suc n) xs) else None)"

definition book_cancel :: "order_id \<Rightarrow> book \<Rightarrow> qty option \<times> book" where
  "book_cancel i b =
     (case Mapping.lookup (index b) i of
        None \<Rightarrow> (None, b)
      | Some (s, p) \<Rightarrow>
          let b1 = b\<lparr>index := Mapping.delete i (index b)\<rparr>
          in case map_of (side_map b1 s) p of
               None \<Rightarrow> (None, b1)
             | Some l \<Rightarrow>
                 (case position (\<lambda>x. o_id x = i) l of
                    None \<Rightarrow> (None, b1)
                  | Some n \<Rightarrow>
                      (case deque_remove n l of
                         None \<Rightarrow> (None, b1)
                       | Some (ord, l') \<Rightarrow>
                           (Some (o_qty ord),
                            set_side_map s
                              (if l' = [] then bt_remove (bt_write (side_map b1 s) p l') p
                               else bt_write (side_map b1 s) p l') b1))))"

definition best_bid :: "book \<Rightarrow> price option" where
  "best_bid b = map_option fst (bt_last_key_value (bids b))"

definition best_ask :: "book \<Rightarrow> price option" where
  "best_ask b = map_option fst (bt_first_key_value (asks b))"

definition level_qty :: "book \<Rightarrow> side \<Rightarrow> price \<Rightarrow> qty" where
  "level_qty b s p =
     (case map_of (side_map b s) p of
        None \<Rightarrow> 0
      | Some l \<Rightarrow> foldl (\<lambda>a x. qty_saturating_add a (o_qty x)) 0 l)"

definition level_len :: "book \<Rightarrow> side \<Rightarrow> price \<Rightarrow> nat" where
  "level_len b s p = (case map_of (side_map b s) p of None \<Rightarrow> 0 | Some l \<Rightarrow> length l)"

definition book_len :: "book \<Rightarrow> nat" where
  "book_len b = Mapping.size (index b)"

definition book_is_empty :: "book \<Rightarrow> bool" where
  "book_is_empty b = Mapping.is_empty (index b)"

definition book_contains :: "book \<Rightarrow> order_id \<Rightarrow> bool" where
  "book_contains b i = (Mapping.lookup (index b) i \<noteq> None)"

text \<open>
  The loops of \<open>fillable_qty_at\<close>: \<open>Inl\<close> is the early \<open>return sum\<close> of the inner loop, \<open>Inr\<close>
  the sum with which the loop goes on.
\<close>

fun fillable_level :: "qty \<Rightarrow> level \<Rightarrow> qty \<Rightarrow> qty + qty" where
  "fillable_level cap [] acc = Inr acc"
| "fillable_level cap (x # xs) acc =
     (let acc' = qty_saturating_add acc (o_qty x)
      in if acc' \<ge> cap then Inl acc' else fillable_level cap xs acc')"

fun fillable_levels :: "(price \<Rightarrow> bool) \<Rightarrow> qty \<Rightarrow> (price, level) btree \<Rightarrow> qty \<Rightarrow> qty" where
  "fillable_levels beyond cap [] acc = acc"
| "fillable_levels beyond cap (e # m) acc =
     (if beyond (fst e) then acc
      else case fillable_level cap (snd e) acc of
             Inl r \<Rightarrow> r
           | Inr acc' \<Rightarrow> fillable_levels beyond cap m acc')"

definition fillable_qty_at :: "book \<Rightarrow> side \<Rightarrow> price \<Rightarrow> qty \<Rightarrow> qty" where
  "fillable_qty_at b s limit_price cap =
     (case s of
        Sell \<Rightarrow> fillable_levels (\<lambda>ask_price. ask_price > limit_price) cap (asks b) 0
      | Buy \<Rightarrow> fillable_levels (\<lambda>bid_price. bid_price < limit_price) cap (rev (bids b)) 0)"

definition resting_of :: "side \<Rightarrow> price \<Rightarrow> order \<Rightarrow> resting_order" where
  "resting_of s p x = \<lparr>r_id = o_id x, r_side = s, r_price = p, r_qty = o_qty x, r_seq = o_seq x\<rparr>"

definition iter_resting :: "book \<Rightarrow> resting_order list" where
  "iter_resting b =
     concat (map (\<lambda>(p, l). map (resting_of Buy p) l) (bids b)) @
     concat (map (\<lambda>(p, l). map (resting_of Sell p) l) (asks b))"

definition take_front :: "side \<Rightarrow> price \<Rightarrow> qty \<Rightarrow> book \<Rightarrow> take option \<times> book" where
  "take_front s p want b =
     (if want = 0 then (None, b)
      else case map_of (side_map b s) p of
        None \<Rightarrow> (None, b)
      | Some [] \<Rightarrow> (None, b)
      | Some (front # rest) \<Rightarrow>
          let taken = (if want \<ge> o_qty front then o_qty front else want);
              maker = o_id front;
              remaining = qty_saturating_sub (o_qty front) taken;
              res = \<lparr>t_maker = maker, t_taken = taken, t_remaining = remaining\<rparr>
          in if remaining = 0
             then let b1 = set_side_map s (bt_write (side_map b s) p rest) b;
                      b2 = b1\<lparr>index := Mapping.delete maker (index b1)\<rparr>
                  in (Some res,
                      if rest = [] then set_side_map s (bt_remove (side_map b2 s) p) b2 else b2)
             else (Some res,
                   set_side_map s (bt_write (side_map b s) p (front\<lparr>o_qty := remaining\<rparr> # rest)) b))"

section \<open>The queue view and the invariant\<close>

text \<open>The resting orders at a side and price, front first.\<close>

definition level_at :: "book \<Rightarrow> side \<Rightarrow> price \<Rightarrow> level" where
  "level_at b s p = (case map_of (side_map b s) p of None \<Rightarrow> [] | Some l \<Rightarrow> l)"

text \<open>Replace one queue of the view; an empty queue has no entry.\<close>

definition put_level :: "side \<Rightarrow> price \<Rightarrow> level \<Rightarrow> book \<Rightarrow> book" where
  "put_level s p l b =
     set_side_map s (if l = [] then bt_remove (side_map b s) p else bt_insert (side_map b s) p l) b"

definition levels_inv :: "book \<Rightarrow> bool" where
  "levels_inv b \<longleftrightarrow> (\<forall>s. bt_inv (side_map b s) \<and> [] \<notin> snd ` set (side_map b s))"

definition book_inv :: "book \<Rightarrow> bool" where
  "book_inv b \<longleftrightarrow>
     levels_inv b \<and>
     (\<forall>s p. distinct (map o_id (level_at b s p)) \<and> (\<forall>x \<in> set (level_at b s p). o_qty x \<noteq> 0)) \<and>
     (\<forall>i s p. Mapping.lookup (index b) i = Some (s, p) \<longleftrightarrow> i \<in> o_id ` set (level_at b s p))"

text \<open>The entries of a side in the order in which the matcher walks them, and the orders in
  matching priority: best price first, and at a price the front of the queue first.\<close>

definition walk :: "book \<Rightarrow> side \<Rightarrow> (price, level) btree" where
  "walk b s = (case s of Buy \<Rightarrow> rev (bids b) | Sell \<Rightarrow> asks b)"

definition priority :: "book \<Rightarrow> side \<Rightarrow> (price \<times> order) list" where
  "priority b s = flatten (walk b s)"

section \<open>Accessors\<close>

lemma side_map_set_side_map [simp]:
  "side_map (set_side_map s m b) s' = (if s' = s then m else side_map b s')"
  by (cases s; cases s') simp_all

lemma index_set_side_map [simp]: "index (set_side_map s m b) = index b"
  by (cases s) simp_all

lemma side_map_index_update [simp]: "side_map (b\<lparr>index := i\<rparr>) s = side_map b s"
  by (cases s) simp_all

lemma set_side_map_index_update: "set_side_map s m (b\<lparr>index := i\<rparr>) = (set_side_map s m b)\<lparr>index := i\<rparr>"
  by (cases s) simp_all

lemma set_side_map_twice [simp]: "set_side_map s m (set_side_map s m' b) = set_side_map s m b"
  by (cases s) simp_all

lemma side_map_new [simp]: "side_map book_new s = []" "index book_new = Mapping.empty"
  by (cases s; simp add: book_new_def)+

lemma book_eqI: "(\<And>s. side_map b s = side_map b' s) \<Longrightarrow> index b = index b' \<Longrightarrow> b = (b' :: book)"
  by (metis (full_types) book.equality old.unit.exhaust side_map.simps)

lemma side_map_put_level:
  "side_map (put_level s p l b) s' =
     (if s' = s then (if l = [] then bt_remove (side_map b s) p else bt_insert (side_map b s) p l)
      else side_map b s')"
  by (simp add: put_level_def)

lemma index_put_level [simp]: "index (put_level s p l b) = index b"
  by (simp add: put_level_def)

lemma level_at_index_update [simp]: "level_at (b\<lparr>index := i\<rparr>) = level_at b"
  by (simp add: level_at_def fun_eq_iff)

lemma levels_inv_index_update [simp]: "levels_inv (b\<lparr>index := i\<rparr>) = levels_inv b"
  by (simp add: levels_inv_def)

lemma level_at_new [simp]: "level_at book_new s p = []"
  by (simp add: level_at_def)

section \<open>Updates of one queue\<close>

lemma levels_invD: "levels_inv b \<Longrightarrow> bt_inv (side_map b s)"
  "levels_inv b \<Longrightarrow> (p, []) \<notin> set (side_map b s)"
  by (force simp: levels_inv_def)+

lemma map_of_side_map:
  "levels_inv b \<Longrightarrow> map_of (side_map b s) p = (if level_at b s p = [] then None else Some (level_at b s p))"
  by (auto simp: level_at_def levels_invD split: option.splits dest: map_of_SomeD)

lemma level_at_put_level [book_simps]:
  "levels_inv b \<Longrightarrow> level_at (put_level s p l b) s' p' = (if s' = s \<and> p' = p then l else level_at b s' p')"
  by (auto simp: level_at_def side_map_put_level bt.get_insert bt.get_remove levels_invD)

lemma levels_inv_put_level [inv_intros]:
  assumes "levels_inv b"
  shows "levels_inv (put_level s p l b)"
proof -
  have "map_of (side_map (put_level s p l b) s') p' \<noteq> Some []" for s' p'
    using map_of_side_map [OF assms, of s'] levels_invD(1) [OF assms]
    by (auto simp: side_map_put_level bt.get_insert bt.get_remove split: if_splits)
  moreover have inv: "bt_inv (side_map (put_level s p l b) s')" for s'
    using levels_invD(1) [OF assms] by (simp add: side_map_put_level bt.inv_insert bt.inv_remove)
  ultimately show ?thesis
    using bt.get_Some_iff by (fastforce simp: levels_inv_def)
qed

lemma levels_ext:
  assumes "levels_inv b" "levels_inv b'" "level_at b = level_at b'"
  shows "side_map b s = side_map b' s"
  using assms by (intro bt.map_ext) (simp_all add: levels_invD map_of_side_map fun_eq_iff)

text \<open>The writes of the code are updates of one queue.\<close>

lemma write_level:
  assumes "levels_inv b" "level_at b s p \<noteq> []"
  shows "set_side_map s (if l = [] then bt_remove (bt_write (side_map b s) p l) p
           else bt_write (side_map b s) p l) b = put_level s p l b"
proof -
  have inv: "bt_inv (side_map b s)" and "map_of (side_map b s) p \<noteq> None"
    using assms by (simp_all add: levels_invD map_of_side_map)
  then have "bt_write (side_map b s) p l = bt_insert (side_map b s) p l"
    by (rule bt.store_eq_insert)
  moreover have "bt_remove (bt_insert (side_map b s) p l) p = bt_remove (side_map b s) p"
    using inv by (intro bt.map_ext) (auto simp: bt.inv_insert bt.inv_remove bt.get_insert bt.get_remove)
  ultimately show ?thesis by (cases "l = []") (simp_all add: put_level_def)
qed

lemma push_back_level:
  assumes "levels_inv b"
  shows "set_side_map s (entry_push_back (side_map b s) p x) b = put_level s p (level_at b s p @ [x]) b"
  using write_level [OF assms, of s p "level_at b s p @ [x]"] map_of_side_map [OF assms, of s p]
  by (cases "level_at b s p = []") (simp_all add: entry_push_back_def put_level_def)

section \<open>Consequences of the invariant\<close>

lemma book_invD:
  assumes "book_inv b"
  shows "levels_inv b" "distinct (map o_id (level_at b s p))"
    "x \<in> set (level_at b s p) \<Longrightarrow> o_qty x \<noteq> 0"
    "x \<in> set (level_at b s p) \<Longrightarrow> Mapping.lookup (index b) (o_id x) = Some (s, p)"
    "Mapping.lookup (index b) i = Some (s, p) \<Longrightarrow> i \<in> o_id ` set (level_at b s p)"
  using assms by (auto simp: book_inv_def)

lemma book_inv_new [inv_intros, simp]: "book_inv book_new"
  by (simp add: book_inv_def levels_inv_def bt.inv_empty)

text \<open>A book that satisfies the invariant is determined by its queues.\<close>

lemma book_ext:
  assumes "book_inv b" "book_inv b'" "level_at b = level_at b'"
  shows "b = b'"
proof (rule book_eqI)
  show "side_map b s = side_map b' s" for s
    using assms by (intro levels_ext) (simp_all add: book_invD)
  have "Mapping.lookup (index b) i = Some sp \<longleftrightarrow> Mapping.lookup (index b') i = Some sp" for i sp
    using assms by (cases sp) (simp add: book_inv_def)
  then have "Mapping.lookup (index b) i = Mapping.lookup (index b') i" for i
    by (metis option.exhaust)
  then show "index b = index b'" by (rule mapping_eqI)
qed

lemma same_order_same_place:
  assumes "book_inv b" "x \<in> set (level_at b s p)" "y \<in> set (level_at b s' p')" "o_id x = o_id y"
  shows "s = s' \<and> p = p' \<and> x = y"
proof -
  have "s = s' \<and> p = p'"
    using book_invD(4) [OF assms(1,2)] book_invD(4) [OF assms(1,3)] assms(4) by simp
  moreover from this have "x = y"
    using assms(2-4) book_invD(2) [OF assms(1), of s p] by (auto simp: distinct_map dest: inj_onD)
  ultimately show ?thesis by simp
qed

end
