(* ===== verification/Book_Correct.thy ===== *)
theory Book_Correct
  imports Order_Book
begin

text \<open>
  What the operations of the order book do. Under the invariant each mutation is an update of one
  queue of the view together with the matching change of the index; from this follow the
  preservation of the invariant, the behaviour of every branch, the exactness of the best prices,
  of the size and of the fill-or-kill scan, and the round trips add/cancel and iterate/re-add.
\<close>

section \<open>Queues\<close>

lemma position_None: "position P xs = None \<longleftrightarrow> (\<forall>x \<in> set xs. \<not> P x)"
  by (induction xs) auto

lemma position_Some: "position P xs = Some n \<Longrightarrow> n < length xs \<and> P (xs ! n)"
  by (induction xs arbitrary: n) (auto split: if_splits)

lemma position_removes_key:
  "distinct (map f xs) \<Longrightarrow> position (\<lambda>x. f x = i) xs = Some n \<Longrightarrow>
     List.take n xs @ drop (Suc n) xs = filter (\<lambda>x. f x \<noteq> i) xs"
proof (induction xs arbitrary: n)
  case Nil
  then show ?case by simp
next
  case (Cons x xs)
  show ?case
  proof (cases "f x = i")
    case True
    then have "filter (\<lambda>x. f x \<noteq> i) xs = xs"
      using Cons.prems(1) by (simp add: filter_id_conv image_iff) metis
    with True Cons.prems show ?thesis by simp
  next
    case False
    with Cons show ?thesis by auto
  qed
qed

lemma deque_remove_by_key:
  assumes "distinct (map f xs)" "i \<in> f ` set xs"
  obtains n x where "position (\<lambda>x. f x = i) xs = Some n" "x \<in> set xs" "f x = i"
    "deque_remove n xs = Some (x, filter (\<lambda>x. f x \<noteq> i) xs)"
proof -
  obtain n where n: "position (\<lambda>x. f x = i) xs = Some n"
    using assms(2) position_None [of "\<lambda>x. f x = i" xs] by (cases "position (\<lambda>x. f x = i) xs") auto
  show thesis
    using that [OF n, of "xs ! n"] position_Some [OF n] position_removes_key [OF assms(1) n]
    by (simp add: deque_remove_def)
qed

section \<open>The mutations as updates of one queue\<close>

lemma not_contains_iff: "\<not> book_contains b i \<longleftrightarrow> Mapping.lookup (index b) i = None"
  by (simp only: book_contains_def not_not)

lemma book_index_self: "(b :: book)\<lparr>index := index b\<rparr> = b"
  by simp

lemma lookup_delete_if: "Mapping.lookup (Mapping.delete i m) j = (if i = j then None else Mapping.lookup m j)"
  by (simp add: lookup_delete lookup_delete_neq)

lemma book_inv_put:
  assumes inv: "book_inv b"
    and l: "distinct (map o_id l)" "\<And>x. x \<in> set l \<Longrightarrow> o_qty x \<noteq> 0"
    and fresh: "\<And>i. i \<in> o_id ` set l \<Longrightarrow> i \<in> o_id ` set (level_at b s p) \<or> Mapping.lookup (index b) i = None"
    and idx: "\<And>i. Mapping.lookup ix i =
        (if i \<in> o_id ` set l then Some (s, p)
         else if i \<in> o_id ` set (level_at b s p) then None else Mapping.lookup (index b) i)"
  shows "book_inv ((put_level s p l b)\<lparr>index := ix\<rparr>)"
proof -
  note lv = book_invD(1) [OF inv]
  have "Mapping.lookup ix i = Some (s', p') \<longleftrightarrow> i \<in> o_id ` set (level_at (put_level s p l b) s' p')"
    for i s' p'
  proof (cases "s' = s \<and> p' = p")
    case True
    have "Mapping.lookup ix i = Some (s, p) \<longleftrightarrow> i \<in> o_id ` set l"
      using idx [of i] book_invD(5) [OF inv, of i s p] by auto
    with True lv show ?thesis by (simp add: level_at_put_level)
  next
    case False
    have "Mapping.lookup ix i = Some (s', p') \<longleftrightarrow> Mapping.lookup (index b) i = Some (s', p')"
    proof (cases "i \<in> o_id ` set l \<or> i \<in> o_id ` set (level_at b s p)")
      case True
      then have "Mapping.lookup (index b) i = Some (s, p) \<or> Mapping.lookup (index b) i = None"
        using fresh [of i] book_invD(4) [OF inv, of _ s p] by auto
      with True False idx [of i] show ?thesis by auto
    next
      case False
      with idx [of i] show ?thesis by simp
    qed
    also have "\<dots> \<longleftrightarrow> i \<in> o_id ` set (level_at b s' p')"
      using inv by (simp add: book_inv_def)
    finally show ?thesis using False lv by (auto simp: level_at_put_level)
  qed
  moreover have "distinct (map o_id (level_at (put_level s p l b) s' p'))"
    "\<forall>x \<in> set (level_at (put_level s p l b) s' p'). o_qty x \<noteq> 0" for s' p'
    using l lv inv by (auto simp: level_at_put_level book_invD)
  ultimately show ?thesis
    using levels_inv_put_level [OF lv] by (simp add: book_inv_def)
qed

lemma book_add_reject: "q = 0 \<or> book_contains b i \<Longrightarrow> book_add i s p q sq b = (False, b)"
  by (auto simp: book_add_def book_contains_def)

lemma book_add_spec:
  assumes "book_inv b" "q \<noteq> 0" "\<not> book_contains b i"
  shows "book_add i s p q sq b =
    (True, (put_level s p (level_at b s p @ [\<lparr>o_id = i, o_qty = q, o_seq = sq\<rparr>]) b)
       \<lparr>index := Mapping.update i (s, p) (index b)\<rparr>)"
  using assms by (simp add: book_add_def not_contains_iff push_back_level book_invD)

lemma book_cancel_unknown: "\<not> book_contains b i \<Longrightarrow> book_cancel i b = (None, b)"
  by (simp add: book_cancel_def not_contains_iff)

lemma book_cancel_spec:
  assumes "book_inv b" "Mapping.lookup (index b) i = Some (s, p)"
  obtains x where "x \<in> set (level_at b s p)" "o_id x = i"
    "book_cancel i b = (Some (o_qty x),
       (put_level s p (filter (\<lambda>y. o_id y \<noteq> i) (level_at b s p)) b)
         \<lparr>index := Mapping.delete i (index b)\<rparr>)"
proof -
  have lv: "levels_inv b" and mem: "i \<in> o_id ` set (level_at b s p)"
    using assms by (simp_all add: book_invD)
  then have ne: "level_at b s p \<noteq> []" by auto
  obtain n x where x: "position (\<lambda>x. o_id x = i) (level_at b s p) = Some n"
      "x \<in> set (level_at b s p)" "o_id x = i"
      "deque_remove n (level_at b s p) = Some (x, filter (\<lambda>x. o_id x \<noteq> i) (level_at b s p))"
    using deque_remove_by_key [OF book_invD(2) [OF assms(1)] mem] .
  let ?l = "filter (\<lambda>x. o_id x \<noteq> i) (level_at b s p)"
  have "book_cancel i b = (Some (o_qty x),
      (set_side_map s (if ?l = [] then bt_remove (bt_write (side_map b s) p ?l) p
         else bt_write (side_map b s) p ?l) b)\<lparr>index := Mapping.delete i (index b)\<rparr>)"
    using assms ne x lv
    by (simp add: book_cancel_def map_of_side_map Let_def set_side_map_index_update)
  with write_level [OF lv ne, of ?l] have "book_cancel i b = (Some (o_qty x),
      (put_level s p ?l b)\<lparr>index := Mapping.delete i (index b)\<rparr>)"
    by simp
  with x show thesis by (intro that)
qed

lemma take_front_None: "want = 0 \<or> level_at b s p = [] \<Longrightarrow> take_front s p want b = (None, b)"
  by (auto simp: take_front_def level_at_def split: option.splits)

lemma take_front_whole:
  assumes "book_inv b" "level_at b s p = f # rest" "want \<noteq> 0" "o_qty f \<le> want"
  shows "take_front s p want b =
    (Some \<lparr>t_maker = o_id f, t_taken = o_qty f, t_remaining = 0\<rparr>,
     (put_level s p rest b)\<lparr>index := Mapping.delete (o_id f) (index b)\<rparr>)"
proof -
  have lv: "levels_inv b" by (rule book_invD(1) [OF assms(1)])
  have w: "set_side_map s (if rest = [] then bt_remove (bt_write (side_map b s) p rest) p
      else bt_write (side_map b s) p rest) b = put_level s p rest b"
    using lv assms(2) by (intro write_level) simp_all
  have "map_of (side_map b s) p = Some (f # rest)"
    using lv assms(2) by (simp add: map_of_side_map)
  then show ?thesis
    using assms(3,4) w by (auto simp: take_front_def qty_saturating_sub_def Let_def
        set_side_map_index_update split: if_splits)
qed

lemma take_front_part:
  assumes "book_inv b" "level_at b s p = f # rest" "want \<noteq> 0" "want < o_qty f"
  shows "take_front s p want b =
    (Some \<lparr>t_maker = o_id f, t_taken = want, t_remaining = o_qty f - want\<rparr>,
     put_level s p (f\<lparr>o_qty := o_qty f - want\<rparr> # rest) b)"
proof -
  have lv: "levels_inv b" by (rule book_invD(1) [OF assms(1)])
  have "map_of (side_map b s) p = Some (f # rest)"
    using lv assms(2) by (simp add: map_of_side_map)
  moreover have "qty_saturating_sub (o_qty f) want = o_qty f - want" "o_qty f - want \<noteq> 0"
    using assms(4) by (auto simp: qty_saturating_sub_def u64_saturating_sub_def)
  moreover have "set_side_map s (bt_write (side_map b s) p (f\<lparr>o_qty := o_qty f - want\<rparr> # rest)) b =
      put_level s p (f\<lparr>o_qty := o_qty f - want\<rparr> # rest) b"
    using write_level [OF lv, of s p "f\<lparr>o_qty := o_qty f - want\<rparr> # rest"] assms(2) by simp
  ultimately show ?thesis
    using assms(3,4) by (simp add: take_front_def Let_def leD)
qed

section \<open>Preservation of the invariant\<close>

lemma book_inv_add [inv_intros]:
  assumes "book_inv b"
  shows "book_inv (snd (book_add i s p q sq b))"
proof (cases "q = 0 \<or> book_contains b i")
  case True
  with assms show ?thesis by (simp add: book_add_reject)
next
  case False
  then have none: "Mapping.lookup (index b) i = None" by (simp add: not_contains_iff)
  then have new: "i \<notin> o_id ` set (level_at b s p)"
    using book_invD(4) [OF assms] by fastforce
  have "book_inv ((put_level s p (level_at b s p @ [\<lparr>o_id = i, o_qty = q, o_seq = sq\<rparr>]) b)
       \<lparr>index := Mapping.update i (s, p) (index b)\<rparr>)"
  proof (rule book_inv_put [OF assms])
    fix j
    show "Mapping.lookup (Mapping.update i (s, p) (index b)) j =
      (if j \<in> o_id ` set (level_at b s p @ [\<lparr>o_id = i, o_qty = q, o_seq = sq\<rparr>]) then Some (s, p)
       else if j \<in> o_id ` set (level_at b s p) then None else Mapping.lookup (index b) j)"
      using book_invD(4) [OF assms, of _ s p] by (auto simp: lookup_update')
  qed (use assms False none new in \<open>auto simp: book_invD\<close>)
  with assms False show ?thesis by (simp add: book_add_spec)
qed

lemma book_inv_delete:
  assumes "book_inv b" "Mapping.lookup (index b) i = Some (s, p)"
    and l: "distinct (map o_id l)" "set l \<subseteq> set (level_at b s p)"
      "o_id ` set l = o_id ` set (level_at b s p) - {i}"
  shows "book_inv ((put_level s p l b)\<lparr>index := Mapping.delete i (index b)\<rparr>)"
proof (rule book_inv_put [OF assms(1) l(1)])
  fix j
  show "Mapping.lookup (Mapping.delete i (index b)) j =
    (if j \<in> o_id ` set l then Some (s, p)
     else if j \<in> o_id ` set (level_at b s p) then None else Mapping.lookup (index b) j)"
    using assms book_invD(4) [OF assms(1), of _ s p] book_invD(5) [OF assms(1,2)]
    by (auto simp: lookup_delete_if)
qed (use assms l in \<open>auto simp: book_invD\<close>)

lemma book_inv_cancel [inv_intros]:
  assumes "book_inv b"
  shows "book_inv (snd (book_cancel i b))"
proof (cases "Mapping.lookup (index b) i")
  case None
  with assms show ?thesis by (simp add: book_cancel_unknown not_contains_iff)
next
  case (Some sp)
  obtain s p where sp: "Mapping.lookup (index b) i = Some (s, p)"
    using Some by (cases sp) simp
  obtain x where "x \<in> set (level_at b s p)" "o_id x = i" and "book_cancel i b = (Some (o_qty x),
       (put_level s p (filter (\<lambda>y. o_id y \<noteq> i) (level_at b s p)) b)
         \<lparr>index := Mapping.delete i (index b)\<rparr>)"
    by (rule book_cancel_spec [OF assms sp])
  moreover have "book_inv ((put_level s p (filter (\<lambda>y. o_id y \<noteq> i) (level_at b s p)) b)
         \<lparr>index := Mapping.delete i (index b)\<rparr>)"
    using book_invD(2) [OF assms, of s p]
    by (intro book_inv_delete [OF assms sp]) (auto simp: distinct_map inj_on_def)
  ultimately show ?thesis by simp
qed

lemma book_inv_take_front [inv_intros]:
  assumes "book_inv b"
  shows "book_inv (snd (take_front s p want b))"
proof (cases "want = 0 \<or> level_at b s p = []")
  case True
  with assms show ?thesis by (simp add: take_front_None)
next
  case False
  then obtain f rest where l: "level_at b s p = f # rest" by (cases "level_at b s p") auto
  have ids: "distinct (map o_id (f # rest))"
    using book_invD(2) [OF assms, of s p] l by simp
  show ?thesis
  proof (cases "o_qty f \<le> want")
    case True
    have "book_inv ((put_level s p rest b)\<lparr>index := Mapping.delete (o_id f) (index b)\<rparr>)"
      using ids l book_invD(4) [OF assms, of f s p] by (intro book_inv_delete [OF assms]) auto
    with True False assms l show ?thesis by (simp add: take_front_whole)
  next
    case part: False
    let ?f = "f\<lparr>o_qty := o_qty f - want\<rparr>"
    have "book_inv ((put_level s p (?f # rest) b)\<lparr>index := index (put_level s p (?f # rest) b)\<rparr>)"
    proof (rule book_inv_put [OF assms])
      fix j
      show "Mapping.lookup (index (put_level s p (?f # rest) b)) j =
        (if j \<in> o_id ` set (?f # rest) then Some (s, p)
         else if j \<in> o_id ` set (level_at b s p) then None else Mapping.lookup (index b) j)"
        using book_invD(4) [OF assms, of _ s p] l by auto
    next
      fix x
      assume "x \<in> set (?f # rest)"
      then show "o_qty x \<noteq> 0"
        using part book_invD(3) [OF assms, of _ s p] l by auto
    qed (use ids l in auto)
    then have "book_inv (put_level s p (?f # rest) b)"
      by (simp only: book_index_self)
    with part False assms l show ?thesis by (simp add: take_front_part not_le)
  qed
qed

section \<open>Matching priority and the best prices\<close>

text \<open>Which of two prices a taker on the other side prefers.\<close>

definition better :: "side \<Rightarrow> price \<Rightarrow> price \<Rightarrow> bool" where
  "better s p q = (case s of Buy \<Rightarrow> q < p | Sell \<Rightarrow> p < q)"

lemma better_eqs: "better Sell = (<)" "better Buy = (>)"
  by (simp_all add: better_def fun_eq_iff)

lemma walk_set [simp]: "set (walk b s) = set (side_map b s)"
  by (cases s) (simp_all add: walk_def)

lemma walk_keys_distinct: "levels_inv b \<Longrightarrow> distinct (map fst (walk b s))"
  using bt.iter_keys_distinct [OF levels_invD(1), of b s]
  by (cases s) (simp_all add: walk_def rev_map [symmetric])

lemma walk_sorted: "levels_inv b \<Longrightarrow> sorted_wrt (better s) (map fst (walk b s))"
  using bt.iter_sorted [OF levels_invD(1), of b s]
  by (cases s) (simp_all add: walk_def better_eqs sorted_wrt_rev flip: rev_map)

lemma map_of_walk: "levels_inv b \<Longrightarrow> map_of (walk b s) = map_of (side_map b s)"
  using walk_keys_distinct [of b s] bt.iter_keys_distinct [OF levels_invD(1), of b s]
  by (simp add: map_of_inject_set)

lemma best_bid_walk: "best_bid b = map_option fst (bt_first_key_value (walk b Buy))"
  by (simp add: best_bid_def bt_last_key_value_def bt_first_key_value_def walk_def)

lemma best_ask_walk: "best_ask b = map_option fst (bt_first_key_value (walk b Sell))"
  by (simp add: best_ask_def walk_def)

lemma walk_head:
  assumes "levels_inv b" "walk b s = (p, l) # w"
  shows "level_at b s p = l" "l \<noteq> []"
proof -
  have "(p, l) \<in> set (side_map b s)"
    using assms(2) by (metis list.set_intros(1) walk_set)
  then show "level_at b s p = l" "l \<noteq> []"
    using bt.get_Some_iff [OF levels_invD(1) [OF assms(1)], of s p l] levels_invD(2) [OF assms(1)]
    by (auto simp: level_at_def)
qed

lemma bt_insert_snoc: "\<forall>e \<in> set m. fst e < k \<Longrightarrow> bt_insert (m @ [(k, v)]) k v' = m @ [(k, v')]"
  by (induction m) auto

lemma bt_remove_snoc: "\<forall>e \<in> set m. fst e < (k :: 'k::linorder) \<Longrightarrow> bt_remove (m @ [(k, v)]) k = m"
  by (induction m) auto

lemma walk_put_head:
  assumes "levels_inv b" "walk b s = (p, l) # w"
  shows "walk (put_level s p l' b) s = (if l' = [] then w else (p, l') # w)"
proof (cases s)
  case Buy
  then have bids: "bids b = rev w @ [(p, l)]"
    using assms(2) by (simp add: walk_def rev_eq_Cons_iff)
  have "\<forall>e \<in> set (rev w). fst e < p"
    using bt.iter_sorted [OF levels_invD(1) [OF assms(1)], of Buy] bids by (auto simp: sorted_wrt_append)
  then show ?thesis
    using Buy bids by (simp add: put_level_def walk_def bt_insert_snoc bt_remove_snoc)
next
  case Sell
  with assms(2) show ?thesis by (simp add: put_level_def walk_def)
qed

lemma walk_put_other: "s' \<noteq> s \<Longrightarrow> walk (put_level s p l b) s' = walk b s'"
  by (cases s; cases s') (simp_all add: walk_def put_level_def)

lemma walk_index_update [simp]: "walk (b\<lparr>index := i\<rparr>) s = walk b s"
  by (cases s) (simp_all add: walk_def)

lemma priority_index_update [simp]: "priority (b\<lparr>index := i\<rparr>) s = priority b s"
  by (simp add: priority_def)

lemma priority_put_other [simp]: "s' \<noteq> s \<Longrightarrow> priority (put_level s p l b) s' = priority b s'"
  by (simp add: priority_def walk_put_other)

lemma priority_Nil_iff: "levels_inv b \<Longrightarrow> priority b s = [] \<longleftrightarrow> walk b s = []"
  using walk_head [of b s] by (cases "walk b s") (auto simp: priority_def)

lemma priority_ConsE:
  assumes "levels_inv b" "priority b s = (p, x) # ps"
  obtains rest w where "walk b s = (p, x # rest) # w" "level_at b s p = x # rest"
    "ps = map (Pair p) rest @ flatten w"
proof -
  obtain q l w where w: "walk b s = (q, l) # w"
    using assms priority_Nil_iff [OF assms(1), of s] by (cases "walk b s") auto
  with walk_head [OF assms(1) w] assms(2) show thesis
    by (cases l) (auto simp: priority_def intro!: that)
qed

lemma set_priority: "levels_inv b \<Longrightarrow> (p, x) \<in> set (priority b s) \<longleftrightarrow> x \<in> set (level_at b s p)"
  by (simp add: priority_def set_flatten level_at_def flip: bt.get_Some_iff [OF levels_invD(1)])
    (cases "map_of (side_map b s) p"; simp)

lemma priority_level: "levels_inv b \<Longrightarrow> map snd (filter (\<lambda>e. fst e = p) (priority b s)) = level_at b s p"
  by (simp add: priority_def filter_flatten walk_keys_distinct map_of_walk level_at_def comp_def
      split: option.splits)

text \<open>Taking from the front of the best level takes from the front of the priority list.\<close>

lemma take_front_priority:
  assumes "book_inv b" "priority b s = (p, x) # ps" "want \<noteq> 0"
  shows "o_qty x \<le> want \<Longrightarrow>
      \<exists>b'. take_front s p want b = (Some \<lparr>t_maker = o_id x, t_taken = o_qty x, t_remaining = 0\<rparr>, b') \<and>
        priority b' s = ps \<and> priority b' (opposite s) = priority b (opposite s)"
    and "want < o_qty x \<Longrightarrow>
      \<exists>b'. take_front s p want b =
          (Some \<lparr>t_maker = o_id x, t_taken = want, t_remaining = o_qty x - want\<rparr>, b') \<and>
        priority b' s = (p, x\<lparr>o_qty := o_qty x - want\<rparr>) # ps \<and>
        priority b' (opposite s) = priority b (opposite s)"
proof -
  note lv = book_invD(1) [OF assms(1)]
  obtain rest w where w: "walk b s = (p, x # rest) # w" "level_at b s p = x # rest"
      "ps = map (Pair p) rest @ flatten w"
    by (rule priority_ConsE [OF lv assms(2)])
  show "\<exists>b'. take_front s p want b = (Some \<lparr>t_maker = o_id x, t_taken = o_qty x, t_remaining = 0\<rparr>, b') \<and>
        priority b' s = ps \<and> priority b' (opposite s) = priority b (opposite s)" if "o_qty x \<le> want"
    using take_front_whole [OF assms(1) w(2) assms(3) that] walk_put_head [OF lv w(1), of rest] w(3)
    by (cases "rest = []") (simp_all add: priority_def walk_put_other)
  show "\<exists>b'. take_front s p want b =
          (Some \<lparr>t_maker = o_id x, t_taken = want, t_remaining = o_qty x - want\<rparr>, b') \<and>
        priority b' s = (p, x\<lparr>o_qty := o_qty x - want\<rparr>) # ps \<and>
        priority b' (opposite s) = priority b (opposite s)" if "want < o_qty x"
    using take_front_part [OF assms(1) w(2) assms(3) that]
      walk_put_head [OF lv w(1), of "x\<lparr>o_qty := o_qty x - want\<rparr> # rest"] w(3)
    by (simp add: priority_def walk_put_other)
qed

lemma level_nonempty_walk: "levels_inv b \<Longrightarrow> level_at b s p \<noteq> [] \<longleftrightarrow> p \<in> fst ` set (walk b s)"
  using map_of_side_map [of b s p] bt.get_None_iff [of "side_map b s" p] by (auto split: if_splits)

lemma walk_first_best:
  assumes "levels_inv b"
  shows "map_option fst (bt_first_key_value (walk b s)) = Some p \<longleftrightarrow>
    level_at b s p \<noteq> [] \<and> (\<forall>q. level_at b s q \<noteq> [] \<longrightarrow> q = p \<or> better s p q)"
proof (cases "walk b s")
  case Nil
  then show ?thesis
    using assms by (simp add: level_nonempty_walk bt_first_key_value_def)
next
  case (Cons e w)
  have keys: "level_at b s q \<noteq> [] \<longleftrightarrow> q = fst e \<or> q \<in> fst ` set w" for q
    using assms Cons by (simp add: level_nonempty_walk)
  have "\<forall>q \<in> fst ` set w. better s (fst e) q"
    using walk_sorted [OF assms, of s] Cons by simp
  moreover have "\<not> (better s p q \<and> better s q p)" for q
    by (cases s) (auto simp: better_def)
  ultimately show ?thesis
    using Cons by (auto simp: bt_first_key_value_def keys)
qed

lemma best_bid_iff:
  "levels_inv b \<Longrightarrow> best_bid b = Some p \<longleftrightarrow>
     level_at b Buy p \<noteq> [] \<and> (\<forall>q. level_at b Buy q \<noteq> [] \<longrightarrow> q \<le> p)"
  unfolding best_bid_walk walk_first_best by (auto simp: better_def le_less)

lemma best_ask_iff:
  "levels_inv b \<Longrightarrow> best_ask b = Some p \<longleftrightarrow>
     level_at b Sell p \<noteq> [] \<and> (\<forall>q. level_at b Sell q \<noteq> [] \<longrightarrow> p \<le> q)"
  unfolding best_ask_walk walk_first_best by (auto simp: better_def le_less)

section \<open>Iteration over the resting orders\<close>

definition order_of :: "resting_order \<Rightarrow> order" where
  "order_of r = \<lparr>o_id = r_id r, o_qty = r_qty r, o_seq = r_seq r\<rparr>"

lemma resting_of_simps [simp]:
  "r_id (resting_of s p x) = o_id x" "r_side (resting_of s p x) = s"
  "r_price (resting_of s p x) = p" "r_qty (resting_of s p x) = o_qty x"
  "r_seq (resting_of s p x) = o_seq x" "order_of (resting_of s p x) = x"
  by (simp_all add: resting_of_def order_of_def)

lemma iter_resting_flatten:
  "iter_resting b =
     map (\<lambda>e. resting_of Buy (fst e) (snd e)) (flatten (bids b)) @
     map (\<lambda>e. resting_of Sell (fst e) (snd e)) (flatten (asks b))"
proof -
  have "concat (map (\<lambda>(p, l). map (resting_of s p) l) m) =
      map (\<lambda>e. resting_of s (fst e) (snd e)) (flatten m)" for s and m :: "(price, level) btree"
    by (induction m) auto
  then show ?thesis by (simp add: iter_resting_def)
qed

lemma iter_resting_level:
  assumes "levels_inv b"
  shows "filter (\<lambda>r. r_side r = s \<and> r_price r = p) (iter_resting b) =
    map (resting_of s p) (level_at b s p)"
proof -
  have *: "map (\<lambda>e. resting_of s (fst e) (snd e)) (filter (\<lambda>e. fst e = p) (flatten (side_map b s))) =
      map (resting_of s p) (level_at b s p)"
    using bt.iter_keys_distinct [OF levels_invD(1) [OF assms], of s]
    by (simp add: filter_flatten level_at_def comp_def split: option.splits)
  show ?thesis
    using * by (cases s) (simp_all add: iter_resting_flatten filter_map comp_def)
qed

lemma set_iter_resting:
  assumes "levels_inv b"
  shows "r \<in> set (iter_resting b) \<longleftrightarrow>
    (\<exists>s p x. x \<in> set (level_at b s p) \<and> r = resting_of s p x)"
proof -
  have "r \<in> set (iter_resting b) \<longleftrightarrow>
      r \<in> set (filter (\<lambda>r'. r_side r' = r_side r \<and> r_price r' = r_price r) (iter_resting b))"
    by simp
  also have "\<dots> \<longleftrightarrow> r \<in> resting_of (r_side r) (r_price r) ` set (level_at b (r_side r) (r_price r))"
    by (simp add: iter_resting_level [OF assms])
  finally show ?thesis by auto
qed

lemma iter_resting_ids_distinct:
  assumes "book_inv b"
  shows "distinct (map r_id (iter_resting b))"
proof -
  note lv = book_invD(1) [OF assms]
  have mem: "x \<in> set (level_at b s p)" if "(p, x) \<in> set (flatten (side_map b s))" for s p x
    using that set_priority [OF lv, of p x s] by (simp add: priority_def set_flatten)
  have one: "distinct (map (o_id \<circ> snd) (flatten (side_map b s)))" for s
  proof (rule distinct_flatten)
    show "distinct (map fst (side_map b s))"
      by (rule bt.iter_keys_distinct [OF levels_invD(1) [OF lv]])
    have lev: "level_at b s p = l" if "(p, l) \<in> set (side_map b s)" for p l
      using that bt.get_Some_iff [OF levels_invD(1) [OF lv], of s p l] by (simp add: level_at_def)
    show "distinct (map o_id l)" if "(p, l) \<in> set (side_map b s)" for p l
      using book_invD(2) [OF assms, of s p] lev [OF that] by simp
    show "p = p'" if "(p, l) \<in> set (side_map b s)" "(p', l') \<in> set (side_map b s)"
        "x \<in> set l" "y \<in> set l'" "o_id x = o_id y" for p l p' l' x y
      using same_order_same_place [OF assms, of x s p y s p'] lev that by auto
  qed
  have "o_id x \<noteq> o_id y"
    if "(p, x) \<in> set (flatten (bids b))" "(q, y) \<in> set (flatten (asks b))" for p x q y
    using same_order_same_place [OF assms, of x Buy p y Sell q] mem [of p x Buy] mem [of q y Sell] that
    by auto
  then show ?thesis
    using one [of Buy] one [of Sell] by (fastforce simp: iter_resting_flatten comp_def)
qed

lemma keys_index: "book_inv b \<Longrightarrow> Mapping.keys (index b) = r_id ` set (iter_resting b)"
proof (rule set_eqI)
  fix i
  assume inv: "book_inv b"
  have "i \<in> Mapping.keys (index b) \<longleftrightarrow> (\<exists>s p. Mapping.lookup (index b) i = Some (s, p))"
    by (auto simp: keys_dom_lookup)
  also have "\<dots> \<longleftrightarrow> (\<exists>s p x. x \<in> set (level_at b s p) \<and> o_id x = i)"
    using inv by (auto simp: book_inv_def)
  also have "\<dots> \<longleftrightarrow> i \<in> r_id ` set (iter_resting b)"
    unfolding image_iff Bex_def set_iter_resting [OF book_invD(1) [OF inv]]
    by (metis resting_of_simps(1))
  finally show "i \<in> Mapping.keys (index b) \<longleftrightarrow> i \<in> r_id ` set (iter_resting b)" .
qed

lemma book_len_iter_resting: "book_inv b \<Longrightarrow> book_len b = length (iter_resting b)"
  using distinct_card [OF iter_resting_ids_distinct, of b] keys_index [of b]
  by (simp add: book_len_def Mapping.size_def)

text \<open>Adding a list of orders one by one, giving up at the first one the book refuses.\<close>

fun readd :: "resting_order list \<Rightarrow> book \<Rightarrow> book option" where
  "readd [] b = Some b"
| "readd (r # rs) b =
     (case book_add (r_id r) (r_side r) (r_price r) (r_qty r) (r_seq r) b of
        (ok, b') \<Rightarrow> if ok then readd rs b' else None)"

lemma readd_fresh:
  assumes "book_inv b" "distinct (map r_id rs)"
    "\<forall>r \<in> set rs. r_qty r \<noteq> 0 \<and> \<not> book_contains b (r_id r)"
  obtains b' where "readd rs b = Some b'" "book_inv b'"
    "\<And>s p. level_at b' s p = level_at b s p @ map order_of (filter (\<lambda>r. r_side r = s \<and> r_price r = p) rs)"
  using assms
proof (induction rs arbitrary: b thesis)
  case Nil
  then show ?case by simp
next
  case (Cons r rs)
  let ?b = "snd (book_add (r_id r) (r_side r) (r_price r) (r_qty r) (r_seq r) b)"
  have r: "r_qty r \<noteq> 0" "\<not> book_contains b (r_id r)" using Cons.prems(4) by auto
  note add = book_add_spec [OF Cons.prems(2) r, of "r_side r" "r_price r" "r_seq r"]
  have inv: "book_inv ?b" by (rule book_inv_add [OF Cons.prems(2)])
  have "\<not> book_contains ?b (r_id r')" if "r' \<in> set rs" for r'
    using that Cons.prems(3,4) by (auto simp: add not_contains_iff lookup_update' image_iff)
  then obtain b' where b': "readd rs ?b = Some b'" "book_inv b'"
    "\<And>s p. level_at b' s p = level_at ?b s p @ map order_of (filter (\<lambda>r. r_side r = s \<and> r_price r = p) rs)"
    using Cons.IH [OF _ inv] Cons.prems(3,4) by auto
  show ?case
  proof (rule Cons.prems(1))
    show "readd (r # rs) b = Some b'" using b'(1) by (simp add: add)
    show "level_at b' s p = level_at b s p @
        map order_of (filter (\<lambda>r. r_side r = s \<and> r_price r = p) (r # rs))" for s p
      using b'(3) [of s p] book_invD(1) [OF Cons.prems(2)]
      by (auto simp: add level_at_put_level order_of_def)
  qed (rule b'(2))
qed

lemma readd_iter_resting:
  assumes "book_inv b"
  shows "readd (iter_resting b) book_new = Some b"
proof -
  have "\<forall>r \<in> set (iter_resting b). r_qty r \<noteq> 0 \<and> \<not> book_contains book_new (r_id r)"
    using assms by (auto simp: set_iter_resting book_invD not_contains_iff)
  then obtain b' where b': "readd (iter_resting b) book_new = Some b'" "book_inv b'"
    "\<And>s p. level_at b' s p = level_at book_new s p @
       map order_of (filter (\<lambda>r. r_side r = s \<and> r_price r = p) (iter_resting b))"
    using readd_fresh [OF book_inv_new iter_resting_ids_distinct [OF assms]] by blast
  have "level_at b' s p = level_at b s p" for s p
    using b'(3) [of s p] by (simp add: iter_resting_level [OF book_invD(1) [OF assms]] comp_def)
  then have "b' = b"
    using b'(2) assms by (intro book_ext) (simp_all add: fun_eq_iff)
  with b'(1) show ?thesis by simp
qed

section \<open>The fill-or-kill scan\<close>

text \<open>Total quantity of the orders a walk reaches before the first unacceptable price.\<close>

definition eligible_qty :: "(price \<Rightarrow> bool) \<Rightarrow> (price \<times> order) list \<Rightarrow> nat" where
  "eligible_qty ok ps = (\<Sum>e\<leftarrow>takeWhile (\<lambda>e. ok (fst e)) ps. unat (o_qty (snd e)))"

lemma saturating_step:
  assumes "acc < cap"
  shows "cap \<le> qty_saturating_add acc q \<longleftrightarrow> unat cap \<le> unat acc + unat q"
    and "\<not> cap \<le> qty_saturating_add acc q \<Longrightarrow> unat (qty_saturating_add acc q) = unat acc + unat q"
  using unsigned_less [of cap, where 'a = nat]
  by (auto simp: qty_saturating_add_def word_le_nat_alt unat_saturating_add)

lemma fillable_level_spec:
  "acc < cap \<Longrightarrow>
     (case fillable_level cap l acc of
        Inl r \<Rightarrow> cap \<le> r \<and> unat cap \<le> unat acc + (\<Sum>x\<leftarrow>l. unat (o_qty x))
      | Inr r \<Rightarrow> r < cap \<and> unat r = unat acc + (\<Sum>x\<leftarrow>l. unat (o_qty x)))"
proof (induction l arbitrary: acc)
  case Nil
  then show ?case by simp
next
  case (Cons x l)
  let ?acc = "qty_saturating_add acc (o_qty x)"
  show ?case
  proof (cases "cap \<le> ?acc")
    case True
    with saturating_step(1) [OF Cons.prems, of "o_qty x"] show ?thesis by simp
  next
    case False
    then have "?acc < cap" by (rule not_le_imp_less)
    note IH = Cons.IH [OF this] and exact = saturating_step(2) [OF Cons.prems False]
    show ?thesis
      using IH False
      by (cases "fillable_level cap l ?acc") (auto simp: Let_def exact add.assoc)
  qed
qed

lemma eligible_level_append:
  "eligible_qty ok (map (Pair p) l @ ps) =
     (if ok p then (\<Sum>x\<leftarrow>l. unat (o_qty x)) + eligible_qty ok ps
      else if l = [] then eligible_qty ok ps else 0)"
  by (cases l) (auto simp: eligible_qty_def takeWhile_append takeWhile_map comp_def)

lemma fillable_levels_spec:
  assumes "\<forall>e \<in> set m. snd e \<noteq> []" "acc < cap"
  shows "if unat acc + eligible_qty (\<lambda>p. \<not> beyond p) (flatten m) < unat cap
     then unat (fillable_levels beyond cap m acc) = unat acc + eligible_qty (\<lambda>p. \<not> beyond p) (flatten m)
     else cap \<le> fillable_levels beyond cap m acc"
  using assms
proof (induction m arbitrary: acc)
  case Nil
  then show ?case by (simp add: eligible_qty_def word_less_nat_alt)
next
  case (Cons e m)
  obtain p l where e: "e = (p, l)" "l \<noteq> []" using Cons.prems(1) by (cases e) auto
  show ?case
  proof (cases "beyond p")
    case True
    with e Cons.prems(2) show ?thesis by (simp add: eligible_level_append word_less_nat_alt)
  next
    case False
    then show ?thesis
      using fillable_level_spec [OF Cons.prems(2), of l] Cons.IH [of "projr (fillable_level cap l acc)"]
        Cons.prems(1) e
      by (auto simp: eligible_level_append add.assoc split: sum.splits)
  qed
qed

definition acceptable :: "side \<Rightarrow> price \<Rightarrow> price \<Rightarrow> bool" where
  "acceptable s limit_price p = (case s of Sell \<Rightarrow> p \<le> limit_price | Buy \<Rightarrow> limit_price \<le> p)"

lemma fillable_qty_at_spec:
  assumes "levels_inv b"
  shows "if eligible_qty (acceptable s limit_price) (priority b s) < unat cap
     then unat (fillable_qty_at b s limit_price cap) = eligible_qty (acceptable s limit_price) (priority b s)
     else cap \<le> fillable_qty_at b s limit_price cap"
proof (cases "cap = 0")
  case True
  then show ?thesis by simp
next
  case False
  then have pos: "0 < cap" by (simp add: word_neq_0_conv)
  have "\<forall>e \<in> set (walk b s). snd e \<noteq> []"
    using levels_invD(2) [OF assms, of _ s] by fastforce
  moreover have "fillable_qty_at b s limit_price cap =
      fillable_levels (\<lambda>p. \<not> acceptable s limit_price p) cap (walk b s) 0"
    by (cases s) (simp_all add: fillable_qty_at_def acceptable_def walk_def not_le)
  ultimately show ?thesis
    using fillable_levels_spec [OF _ pos, of "walk b s" "\<lambda>p. \<not> acceptable s limit_price p"]
    by (simp add: priority_def)
qed

end
