(* ===== verification/Book_Guarantees.thy ===== *)
theory Book_Guarantees
  imports Book_Correct
begin

text \<open>
  The guarantees of the value types and of the order book, over the code's functions. The queries of
  the book are stated against \<open>iter_resting\<close>, the iteration over every resting order, so that they
  say what a caller sees and not how the maps are laid out.
\<close>

section \<open>Reading a printed price\<close>

definition parse_price :: "string \<Rightarrow> int" where
  "parse_price s =
     (let neg = (s \<noteq> [] \<and> hd s = CHR ''-'');
          body = (if neg then tl s else s);
          whole = takeWhile (\<lambda>c. c \<noteq> CHR ''.'') body;
          frac = drop (length whole + 1) body;
          n = int (dec_value whole * 10 ^ 8 + dec_value frac)
      in if neg then - n else n)"

lemma digit_char_plain: "d < 10 \<Longrightarrow> digit_char d \<noteq> CHR ''.'' \<and> digit_char d \<noteq> CHR ''-''"
proof -
  assume d: "d < 10"
  have "of_char (digit_char d) \<noteq> (of_char (CHR ''.'') :: nat)" "of_char (digit_char d) \<noteq> (of_char (CHR ''-'') :: nat)"
    using d by simp_all
  then show ?thesis by metis
qed

lemma dec_string_chars: "set (dec_string n) \<inter> {CHR ''.'', CHR ''-''} = {}"
proof (induction n rule: dec_string.induct)
  case (1 n)
  then show ?case
    using digit_char_plain [of n] digit_char_plain [of "n mod 10"]
    by (subst dec_string.simps) auto
qed

lemma dec_string_not_Nil [simp]: "dec_string n \<noteq> []"
  by (subst dec_string.simps) simp

lemma hd_dec_string: "hd (dec_string n) \<noteq> CHR ''-''"
  using dec_string_chars [of n] hd_in_set [OF dec_string_not_Nil [of n]] by fastforce

lemma takeWhile_dot: "takeWhile (\<lambda>c. c \<noteq> CHR ''.'') (dec_string n @ CHR ''.'' # s) = dec_string n"
  using dec_string_chars [of n] by (subst takeWhile_append2) auto

text \<open>Printing a price loses nothing: the decimal text of any price, read back (sign, digits
  before the point, eight digits after it), is the raw value of the price, from the smallest to the
  largest.\<close>

theorem price_fmt_lossless: "parse_price (price_fmt p) = sint (price_raw p)"
proof -
  let ?a = "i64_unsigned_abs (price_raw p)"
  let ?body = "dec_string (?a div 10 ^ 8) @ CHR ''.'' # dec_padded 8 (?a mod 10 ^ 8)"
  have scale: "unat PRICE_SCALE = 10 ^ 8" by (simp add: PRICE_SCALE_def)
  have fmt: "price_fmt p = (if sint (price_raw p) < 0 then ''-'' else '''') @ ?body"
    by (simp add: price_fmt_def scale Let_def PRICE_SCALE_DIGITS_def)
  have "int (dec_value (dec_string (?a div 10 ^ 8)) * 10 ^ 8 + dec_value (dec_padded 8 (?a mod 10 ^ 8))) =
      \<bar>sint (price_raw p)\<bar>"
    unfolding dec_value_dec_string dec_value_dec_padded div_mult_mod_eq by (simp add: i64_unsigned_abs_def)
  moreover have "?body \<noteq> [] \<and> hd ?body \<noteq> CHR ''-''"
    by (simp add: hd_dec_string)
  ultimately show ?thesis
    unfolding parse_price_def fmt
    by (auto simp: Let_def takeWhile_dot simp del: of_nat_add of_nat_mult dec_value_dec_string dec_value_dec_padded)
qed

text \<open>Price arithmetic never wraps: building a price from whole units succeeds exactly when the
  scaled value fits in 64 bits and is then exact, and adding or subtracting prices gives the exact
  result clamped to the range of the type.\<close>

theorem price_arithmetic_exact:
  "(case price_from_units u of
      Inr p \<Rightarrow> sint (price_raw p) = sint u * 10 ^ 8
    | Inl e \<Rightarrow> sint u * 10 ^ 8 < - (2 ^ 63) \<or> 2 ^ 63 \<le> sint u * 10 ^ 8) \<and>
   sint (price_raw (price_saturating_add p q)) =
     max (- (2 ^ 63)) (min (2 ^ 63 - 1) (sint (price_raw p) + sint (price_raw q))) \<and>
   sint (price_raw (price_saturating_sub p q)) =
     max (- (2 ^ 63)) (min (2 ^ 63 - 1) (sint (price_raw p) - sint (price_raw q)))"
proof (intro conjI)
  define n where "n = sint u * 10 ^ 8"
  have "sint PRICE_SCALE = 10 ^ 8" by (simp add: PRICE_SCALE_def)
  then have "price_from_units u =
      (if - (2 ^ 63) \<le> n \<and> n < 2 ^ 63 then Inr (Price (word_of_int n)) else Inl OutOfRange)"
    by (simp only: price_from_units_def i64_checked_mul_def n_def Let_def) simp
  then show "case price_from_units u of
      Inr p \<Rightarrow> sint (price_raw p) = sint u * 10 ^ 8
    | Inl e \<Rightarrow> sint u * 10 ^ 8 < - (2 ^ 63) \<or> 2 ^ 63 \<le> sint u * 10 ^ 8"
    unfolding n_def [symmetric] using sint_i64_of_int [of n] by auto
qed (simp_all add: min.commute price_saturating_add_def price_saturating_sub_def i64_saturating_add_def
    i64_saturating_sub_def sint_i64_saturate)

section \<open>The order book\<close>

text \<open>C17. The invariant of the book (both maps sorted with no empty level, no zero quantity, every id
  once, and the index holding exactly the place of every resting order) holds of the empty book and
  is kept by every operation that changes it, with any arguments.\<close>

theorem book_operations_keep_invariant:
  "book_inv book_new \<and>
   (book_inv b \<longrightarrow>
      book_inv (snd (book_add i s p q sq b)) \<and> book_inv (snd (book_cancel i b)) \<and>
      book_inv (snd (take_front s p q b)))"
  by (intro conjI impI inv_intros)

theorem book_operations_keep_invariant_witness:
  "book_inv (snd (take_front Sell (Price 5) 2 (snd (book_add 1 Sell (Price 5) 3 1 book_new))))"
  using book_operations_keep_invariant [of book_new 1 Sell "Price 5" 3 1]
    book_operations_keep_invariant [of "snd (book_add 1 Sell (Price 5) 3 1 book_new)" 1 Sell "Price 5" 2 1]
  by blast

text \<open>Adding an order and cancelling it restores the book: the cancel returns the quantity that
  was added and leaves the maps and the index exactly as they were.\<close>

theorem cancel_undoes_add:
  assumes "book_inv b" "q \<noteq> 0" "\<not> book_contains b i"
  shows "book_cancel i (snd (book_add i s p q sq b)) = (Some q, b)"
proof -
  let ?x = "\<lparr>o_id = i, o_qty = q, o_seq = sq\<rparr>"
  let ?b = "snd (book_add i s p q sq b)"
  note add = book_add_spec [OF assms, of s p sq] and lv = book_invD(1) [OF assms(1)]
  have inv: "book_inv ?b" by (rule book_inv_add [OF assms(1)])
  have old: "o_id y \<noteq> i" if "y \<in> set (level_at b s' p')" for y s' p'
    using book_invD(4) [OF assms(1) that] assms(3) by (auto simp: not_contains_iff)
  have idx: "Mapping.lookup (index ?b) i = Some (s, p)" by (simp add: add)
  have lvl: "level_at ?b s p = level_at b s p @ [?x]" using lv by (simp add: add level_at_put_level)
  obtain x where x: "x \<in> set (level_at ?b s p)" "o_id x = i"
    and c: "book_cancel i ?b = (Some (o_qty x), (put_level s p (filter (\<lambda>y. o_id y \<noteq> i) (level_at ?b s p)) ?b)
         \<lparr>index := Mapping.delete i (index ?b)\<rparr>)"
    by (rule book_cancel_spec [OF inv idx])
  have "x = ?x" using x old lvl by auto
  have "snd (book_cancel i ?b) = b"
  proof (rule book_ext)
    show "book_inv (snd (book_cancel i ?b))" by (rule book_inv_cancel [OF inv])
    have "filter (\<lambda>y. o_id y \<noteq> i) (level_at b s p) = level_at b s p"
      using old by (simp add: filter_id_conv)
    then show "level_at (snd (book_cancel i ?b)) = level_at b"
      using book_invD(1) [OF inv] lv unfolding c by (auto simp: add level_at_put_level fun_eq_iff levels_inv_put_level)
  qed (rule assms(1))
  with c \<open>x = ?x\<close> show ?thesis by simp
qed

theorem cancel_undoes_add_witness:
  "book_cancel 7 (snd (book_add 7 Buy (Price 3) 9 1 book_new)) = (Some 9, book_new)"
  using cancel_undoes_add [of book_new 9 7 Buy "Price 3" 1] by (simp add: book_contains_def)

text \<open>The queries agree with the resting orders: the best bid is the highest price at which a
  buy rests and the best ask the lowest at which a sell rests, \<open>len\<close> counts the resting orders,
  whose ids are all different, and \<open>contains\<close> holds of exactly those ids.\<close>

theorem queries_agree_with_iteration:
  assumes "book_inv b"
  shows "(best_bid b = Some p \<longleftrightarrow>
      p \<in> r_price ` {r \<in> set (iter_resting b). r_side r = Buy} \<and>
      {r \<in> set (iter_resting b). r_side r = Buy \<and> p < r_price r} = {}) \<and>
    (best_ask b = Some p \<longleftrightarrow>
      p \<in> r_price ` {r \<in> set (iter_resting b). r_side r = Sell} \<and>
      {r \<in> set (iter_resting b). r_side r = Sell \<and> r_price r < p} = {}) \<and>
    book_len b = length (iter_resting b) \<and> distinct (map r_id (iter_resting b)) \<and>
    (book_contains b i \<longleftrightarrow> i \<in> r_id ` set (iter_resting b))"
proof (intro conjI)
  note lv = book_invD(1) [OF assms]
  have side: "level_at b s q \<noteq> [] \<longleftrightarrow> q \<in> r_price ` {r \<in> set (iter_resting b). r_side r = s}" for s q
  proof -
    have "level_at b s q \<noteq> [] \<longleftrightarrow> filter (\<lambda>r. r_side r = s \<and> r_price r = q) (iter_resting b) \<noteq> []"
      by (simp add: iter_resting_level [OF lv])
    then show ?thesis by (auto simp: filter_empty_conv)
  qed
  show "best_bid b = Some p \<longleftrightarrow>
      p \<in> r_price ` {r \<in> set (iter_resting b). r_side r = Buy} \<and>
      {r \<in> set (iter_resting b). r_side r = Buy \<and> p < r_price r} = {}"
    unfolding best_bid_iff [OF lv] side by (force simp: not_less)
  show "best_ask b = Some p \<longleftrightarrow>
      p \<in> r_price ` {r \<in> set (iter_resting b). r_side r = Sell} \<and>
      {r \<in> set (iter_resting b). r_side r = Sell \<and> r_price r < p} = {}"
    unfolding best_ask_iff [OF lv] side by (force simp: not_less)
  show "book_contains b i \<longleftrightarrow> i \<in> r_id ` set (iter_resting b)"
    unfolding book_contains_def keys_index [OF assms, symmetric] keys_dom_lookup by blast
qed (use assms in \<open>simp_all add: book_len_iter_resting iter_resting_ids_distinct\<close>)

theorem queries_agree_with_iteration_witness:
  "best_bid (snd (book_add 1 Buy (Price 5) 3 1 book_new)) = Some (Price 5) \<and>
   book_len (snd (book_add 1 Buy (Price 5) 3 1 book_new)) = 1"
proof -
  let ?b = "snd (book_add 1 Buy (Price 5) 3 1 book_new)"
  have "book_inv ?b" by (simp add: book_inv_add)
  moreover have "iter_resting ?b = [\<lparr>r_id = 1, r_side = Buy, r_price = Price 5, r_qty = 3, r_seq = 1\<rparr>]" by code_simp
  ultimately show ?thesis
    using queries_agree_with_iteration [of ?b "Price 5"] by auto
qed

text \<open>C18. The totals of a level: its length is the number of orders resting at that side and price,
  and its quantity is their exact sum capped at the largest 64-bit value.\<close>

theorem level_totals_exact:
  assumes "book_inv b"
  shows "level_len b s p = length (filter (\<lambda>r. r_side r = s \<and> r_price r = p) (iter_resting b)) \<and>
    unat (level_qty b s p) =
      min (2 ^ 64 - 1) (\<Sum>r\<leftarrow>filter (\<lambda>r. r_side r = s \<and> r_price r = p) (iter_resting b). unat (r_qty r))"
proof -
  note lv = book_invD(1) [OF assms]
  have sum: "unat (foldl (\<lambda>a x. qty_saturating_add a (o_qty x)) acc l) =
      min (2 ^ 64 - 1) (unat acc + (\<Sum>x\<leftarrow>l. unat (o_qty x)))" for acc l
  proof (induction l arbitrary: acc)
    case Nil
    then show ?case using unsigned_less [of acc, where 'a = nat] by simp
  next
    case (Cons x l)
    then show ?case by (simp add: qty_saturating_add_def unat_saturating_add)
  qed
  have "level_len b s p = length (level_at b s p)"
    "unat (level_qty b s p) = min (2 ^ 64 - 1) (\<Sum>x\<leftarrow>level_at b s p. unat (o_qty x))"
    using sum [of 0] by (auto simp: level_len_def level_qty_def level_at_def split: option.split)
  then show ?thesis by (simp add: iter_resting_level [OF lv] comp_def)
qed

theorem level_totals_exact_witness:
  "unat (level_qty (snd (book_add 2 Buy (Price 5) (- 1) 2 (snd (book_add 1 Buy (Price 5) 3 1 book_new)))) Buy (Price 5)) =
     2 ^ 64 - 1"
proof -
  let ?b = "snd (book_add 2 Buy (Price 5) (- 1) 2 (snd (book_add 1 Buy (Price 5) 3 1 book_new)))"
  have "book_inv ?b" by (simp add: book_inv_add)
  moreover have "iter_resting ?b = [\<lparr>r_id = 1, r_side = Buy, r_price = Price 5, r_qty = 3, r_seq = 1\<rparr>,
      \<lparr>r_id = 2, r_side = Buy, r_price = Price 5, r_qty = - 1, r_seq = 2\<rparr>]" by code_simp
  ultimately show ?thesis using level_totals_exact [of ?b Buy "Price 5"] by (simp add: unsigned_minus_1_eq_mask mask_eq_exp_minus_1)
qed

text \<open>C19. The fill-or-kill scan is exact although it stops early: its result reaches the cap if and
  only if the orders at acceptable prices add up to the cap, and below the cap it is their sum; the
  saturating additions on the way never falsify it.\<close>

theorem fillable_scan_exact:
  assumes "book_inv b"
  shows "let available = eligible_qty (acceptable s limit_price) (priority b s)
    in (cap \<le> fillable_qty_at b s limit_price cap \<longleftrightarrow> unat cap \<le> available) \<and>
       (fillable_qty_at b s limit_price cap < cap \<longrightarrow>
          unat (fillable_qty_at b s limit_price cap) = available)"
  using fillable_qty_at_spec [OF book_invD(1) [OF assms], of s limit_price cap]
  by (auto simp: Let_def word_le_nat_alt word_less_nat_alt split: if_splits)

theorem fillable_scan_exact_witness:
  "fillable_qty_at (snd (book_add 1 Sell (Price 5) 3 1 book_new)) Sell (Price 5) 4 = 3"
proof -
  let ?b = "snd (book_add 1 Sell (Price 5) 3 1 book_new)"
  have "book_inv ?b" by (simp add: book_inv_add)
  moreover have "eligible_qty (acceptable Sell (Price 5)) (priority ?b Sell) = 3" by code_simp
  ultimately have "unat (fillable_qty_at ?b Sell (Price 5) 4) = 3"
    using fillable_scan_exact [of ?b Sell "Price 5" 4] by (auto simp: Let_def not_le)
  then show ?thesis by (simp add: word_unat_eq_iff)
qed

end
