(* ===== verification/Matcher.thy ===== *)
theory Matcher
  imports Book_Correct
begin

text \<open>
  The matching engine of \<^verbatim>\<open>bourse-core/src/matcher.rs\<close>. The matcher owns a book and a sequence
  generator; its methods append events to a caller's vector, so they run on a pair of the matcher
  and the events emitted so far. The \<open>while\<close> loop of \<open>accept\<close> is \<open>match_loop\<close>: a total
  function, whose termination proof needs no invariant of the book, because a take that leaves
  the taker unfilled has removed an order.
\<close>

section \<open>Data\<close>

datatype order_kind =
    Limit price
  | Market
  | Ioc price
  | PostOnly price
  | Fok price

record new_order =
  no_id :: order_id
  no_side :: side
  no_qty :: qty
  no_kind :: order_kind
  no_timestamp :: timestamp

datatype done_reason = Filled | Cancelled | Expired | NoLiquidity | Rejected

datatype event =
    Accepted order_id qty sequence
  | Trade order_id order_id price qty sequence
  | Done order_id qty done_reason sequence

record matcher =
  m_book :: book
  m_seq :: sequence_generator

section \<open>Construction and access\<close>

definition matcher_new :: matcher where
  "matcher_new = \<lparr>m_book = book_new, m_seq = sequence_generator_new\<rparr>"

definition with_book :: "book \<Rightarrow> sequence \<Rightarrow> matcher" where
  "with_book b next_seq = \<lparr>m_book = b, m_seq = starting_at next_seq\<rparr>"

definition peek_seq :: "matcher \<Rightarrow> sequence" where
  "peek_seq m = seq_peek (m_seq m)"

section \<open>Accepting an order\<close>

text \<open>\<open>out.push(Event \<dots> seq: self.seq.next())\<close>.\<close>

definition emit :: "(sequence \<Rightarrow> event) \<Rightarrow> matcher \<times> event list \<Rightarrow> matcher \<times> event list" where
  "emit ev st =
     (let (sq, g) = seq_next (m_seq (fst st))
      in ((fst st)\<lparr>m_seq := g\<rparr>, snd st @ [ev sq]))"

text \<open>The kind-specific gates: whether a post-only would cross or a fill-or-kill cannot fill.\<close>

definition gate_rejects :: "book \<Rightarrow> new_order \<Rightarrow> bool" where
  "gate_rejects b ord =
     (let opp = opposite (no_side ord)
      in case no_kind ord of
           PostOnly p \<Rightarrow>
             (case opp of
                Sell \<Rightarrow> (case best_ask b of None \<Rightarrow> False | Some a \<Rightarrow> a \<le> p)
              | Buy \<Rightarrow> (case best_bid b of None \<Rightarrow> False | Some bb \<Rightarrow> bb \<ge> p))
         | Fok p \<Rightarrow> fillable_qty_at b opp p (no_qty ord) < no_qty ord
         | _ \<Rightarrow> False)"

definition best_of :: "book \<Rightarrow> side \<Rightarrow> price option" where
  "best_of b s = (case s of Buy \<Rightarrow> best_bid b | Sell \<Rightarrow> best_ask b)"

definition price_crosses :: "side \<Rightarrow> price \<Rightarrow> price \<Rightarrow> bool" where
  "price_crosses s p best_price = (case s of Buy \<Rightarrow> p \<ge> best_price | Sell \<Rightarrow> p \<le> best_price)"

fun crosses :: "order_kind \<Rightarrow> side \<Rightarrow> price \<Rightarrow> bool" where
  "crosses Market s best_price = True"
| "crosses (Limit p) s best_price = price_crosses s p best_price"
| "crosses (Ioc p) s best_price = price_crosses s p best_price"
| "crosses (PostOnly p) s best_price = price_crosses s p best_price"
| "crosses (Fok p) s best_price = price_crosses s p best_price"

text \<open>What one take appends: the trade, and the maker's \<open>Done\<close> when the maker is exhausted.\<close>

definition emit_take :: "new_order \<Rightarrow> price \<Rightarrow> take \<Rightarrow> matcher \<times> event list \<Rightarrow> matcher \<times> event list" where
  "emit_take ord best_price t st =
     (let st1 = emit (Trade (no_id ord) (t_maker t) best_price (t_taken t)) st
      in if t_remaining t = 0 then emit (Done (t_maker t) 0 Filled) st1 else st1)"

text \<open>Progress of one take, on any book: the taker is done or the side has lost an order.\<close>

lemma length_flatten_bt_write:
  "map_of m p = Some l \<Longrightarrow> length (flatten (bt_write m p l')) + length l = length (flatten m) + length l'"
  by (induction m) (auto split: if_splits)

lemma length_flatten_bt_remove:
  "map_of m p = Some l \<Longrightarrow> length (flatten (bt_remove m p)) + length l = length (flatten m)"
  by (induction m) (auto split: if_splits)

lemma take_front_progress:
  assumes "take_front s p want b = (Some t, b')"
  shows "qty_saturating_sub want (t_taken t) = 0 \<or>
    length (flatten (side_map b' s)) < length (flatten (side_map b s))"
proof -
  obtain f rest where lvl: "map_of (side_map b s) p = Some (f # rest)" and "want \<noteq> 0"
    using assms by (auto simp: take_front_def split: if_splits option.splits list.splits)
  have w: "map_of (bt_write (side_map b s) p rest) p = Some rest"
    using lvl by (simp add: map_of_bt_write)
  show ?thesis
    using assms lvl \<open>want \<noteq> 0\<close> length_flatten_bt_write [OF lvl, of rest] length_flatten_bt_remove [OF w]
    by (auto simp: take_front_def qty_saturating_sub_def Let_def split: if_splits)
qed

lemma m_book_emit [simp]: "m_book (fst (emit ev st)) = m_book (fst st)"
  by (simp add: emit_def seq_next_def)

lemma m_book_emit_take [simp]: "m_book (fst (emit_take ord p t st)) = m_book (fst st)"
  by (simp add: emit_take_def Let_def)

function match_loop :: "new_order \<Rightarrow> qty \<Rightarrow> matcher \<times> event list \<Rightarrow> qty \<times> matcher \<times> event list" where
  "match_loop ord remaining st =
     (if \<not> remaining > 0 then (remaining, st)
      else case best_of (m_book (fst st)) (opposite (no_side ord)) of
        None \<Rightarrow> (remaining, st)
      | Some best_price \<Rightarrow>
          if \<not> crosses (no_kind ord) (no_side ord) best_price then (remaining, st)
          else case take_front (opposite (no_side ord)) best_price remaining (m_book (fst st)) of
            (None, b') \<Rightarrow> (remaining, (fst st)\<lparr>m_book := b'\<rparr>, snd st)
          | (Some t, b') \<Rightarrow>
              match_loop ord (qty_saturating_sub remaining (t_taken t))
                (emit_take ord best_price t ((fst st)\<lparr>m_book := b'\<rparr>, snd st)))"
  by pat_completeness auto
termination
  by (relation "measure (\<lambda>(ord, remaining, st). if remaining = 0 then 0
      else Suc (length (flatten (side_map (m_book (fst st)) (opposite (no_side ord))))))")
    (auto dest!: sym [of "(_, _)" "take_front _ _ _ _"] take_front_progress)

declare match_loop.simps [simp del]

definition accept :: "new_order \<Rightarrow> matcher \<times> event list \<Rightarrow> matcher \<times> event list" where
  "accept ord st =
     (if no_qty ord = 0 \<or> book_contains (m_book (fst st)) (no_id ord)
      then emit (Done (no_id ord) (no_qty ord) Rejected) st
      else if gate_rejects (m_book (fst st)) ord
      then emit (Done (no_id ord) (no_qty ord) Rejected) st
      else
        let (receive_seq, g) = seq_next (m_seq (fst st));
            st1 = ((fst st)\<lparr>m_seq := g\<rparr>, snd st @ [Accepted (no_id ord) (no_qty ord) receive_seq]);
            (remaining, st2) = match_loop ord (no_qty ord) st1
        in if remaining = 0 then emit (Done (no_id ord) 0 Filled) st2
           else case no_kind ord of
             Limit p \<Rightarrow>
               ((fst st2)\<lparr>m_book := snd (book_add (no_id ord) (no_side ord) p remaining receive_seq (m_book (fst st2)))\<rparr>,
                snd st2)
           | PostOnly p \<Rightarrow>
               ((fst st2)\<lparr>m_book := snd (book_add (no_id ord) (no_side ord) p remaining receive_seq (m_book (fst st2)))\<rparr>,
                snd st2)
           | Market \<Rightarrow> emit (Done (no_id ord) remaining NoLiquidity) st2
           | Ioc _ \<Rightarrow> emit (Done (no_id ord) remaining Expired) st2
           | Fok _ \<Rightarrow> emit (Done (no_id ord) remaining Expired) st2)"

definition matcher_cancel :: "order_id \<Rightarrow> matcher \<times> event list \<Rightarrow> matcher \<times> event list" where
  "matcher_cancel i st =
     (case book_cancel i (m_book (fst st)) of
        (Some leaves, b') \<Rightarrow> emit (Done i leaves Cancelled) ((fst st)\<lparr>m_book := b'\<rparr>, snd st)
      | (None, b') \<Rightarrow> ((fst st)\<lparr>m_book := b'\<rparr>, snd st))"

section \<open>Commands\<close>

text \<open>What the queues and the log feed the matcher with, and the dispatch on it.\<close>

datatype command = New new_order | Cancel order_id

fun apply_command :: "command \<Rightarrow> matcher \<times> event list \<Rightarrow> matcher \<times> event list" where
  "apply_command (New ord) st = accept ord st"
| "apply_command (Cancel i) st = matcher_cancel i st"

definition run_commands :: "command list \<Rightarrow> matcher \<times> event list \<Rightarrow> matcher \<times> event list" where
  "run_commands cs st = fold apply_command cs st"

end
