(* ===== verification/Matcher_Correct.thy ===== *)
theory Matcher_Correct
  imports Matcher
begin

text \<open>
  What the matcher does, from the events it emits to the book it leaves. First the numbering of
  events, which holds on any book; then the matching loop against its reference, \<open>sweep\<close>, which
  consumes a list of orders in priority order and knows nothing of maps, indexes or events; then
  the whole of \<open>accept\<close> in terms of \<open>sweep\<close>.
\<close>

section \<open>Induction over the loop\<close>

text \<open>
  One rule per way the body of the loop can go: it stops (nothing left, no opposite order, or the
  best price does not cross), it finds the level empty, or it takes and goes on.
\<close>

definition loop_takes :: "new_order \<Rightarrow> qty \<Rightarrow> book \<Rightarrow> price \<Rightarrow> bool" where
  "loop_takes ord r b p \<longleftrightarrow> r \<noteq> 0 \<and> best_of b (opposite (no_side ord)) = Some p \<and>
     crosses (no_kind ord) (no_side ord) p"

lemma match_loop_stop: "\<nexists>p. loop_takes ord r (m_book (fst st)) p \<Longrightarrow> match_loop ord r st = (r, st)"
  by (subst match_loop.simps) (auto simp: loop_takes_def word_neq_0_conv split: option.splits)

lemma match_loop_stuck:
  "loop_takes ord r (m_book (fst st)) p \<Longrightarrow>
   take_front (opposite (no_side ord)) p r (m_book (fst st)) = (None, b') \<Longrightarrow>
   match_loop ord r st = (r, (fst st)\<lparr>m_book := b'\<rparr>, snd st)"
  by (subst match_loop.simps) (simp add: loop_takes_def word_neq_0_conv)

lemma match_loop_take:
  "loop_takes ord r (m_book (fst st)) p \<Longrightarrow>
   take_front (opposite (no_side ord)) p r (m_book (fst st)) = (Some t, b') \<Longrightarrow>
   match_loop ord r st = match_loop ord (qty_saturating_sub r (t_taken t))
     (emit_take ord p t ((fst st)\<lparr>m_book := b'\<rparr>, snd st))"
  by (subst match_loop.simps) (simp add: loop_takes_def word_neq_0_conv)

lemma match_loop_induct [case_names Stop Stuck Take]:
  assumes stop: "\<And>r st. \<nexists>p. loop_takes ord r (m_book (fst st)) p \<Longrightarrow> P r st"
    and stuck: "\<And>r st p b'. loop_takes ord r (m_book (fst st)) p \<Longrightarrow>
      take_front (opposite (no_side ord)) p r (m_book (fst st)) = (None, b') \<Longrightarrow> P r st"
    and take: "\<And>r st p t b'. loop_takes ord r (m_book (fst st)) p \<Longrightarrow>
      take_front (opposite (no_side ord)) p r (m_book (fst st)) = (Some t, b') \<Longrightarrow>
      P (qty_saturating_sub r (t_taken t)) (emit_take ord p t ((fst st)\<lparr>m_book := b'\<rparr>, snd st)) \<Longrightarrow>
      P r st"
  shows "P r st"
proof -
  have "ord' = ord \<longrightarrow> P r st" for ord'
  proof (induction ord' r st rule: match_loop.induct)
    case (1 ord' r st)
    show ?case
    proof
      assume ord: "ord' = ord"
      consider "\<nexists>p. loop_takes ord r (m_book (fst st)) p"
        | p b' where "loop_takes ord r (m_book (fst st)) p"
            "take_front (opposite (no_side ord)) p r (m_book (fst st)) = (None, b')"
        | p t b' where "loop_takes ord r (m_book (fst st)) p"
            "take_front (opposite (no_side ord)) p r (m_book (fst st)) = (Some t, b')"
        by (metis option.exhaust surj_pair)
      then show "P r st"
      proof cases
        case (3 p t b')
        then have "P (qty_saturating_sub r (t_taken t)) (emit_take ord p t ((fst st)\<lparr>m_book := b'\<rparr>, snd st))"
          using 1 [of p "Some t" b' t] ord by (simp add: loop_takes_def word_neq_0_conv)
        with 3 show ?thesis by (rule take)
      qed (auto intro: stop stuck)
    qed
  qed
  then show ?thesis by simp
qed

section \<open>Event numbering\<close>

fun event_seq :: "event \<Rightarrow> sequence" where
  "event_seq (Accepted i q sq) = sq"
| "event_seq (Trade t m p q sq) = sq"
| "event_seq (Done i q r sq) = sq"

text \<open>Consecutive sequence numbers from a given one on.\<close>

fun numbered :: "sequence \<Rightarrow> event list \<Rightarrow> bool" where
  "numbered n [] = True"
| "numbered n (e # es) = (event_seq e = n \<and> numbered (n + 1) es)"

lemma numbered_append [simp]:
  "numbered n (es @ es') \<longleftrightarrow> numbered n es \<and> numbered (n + of_nat (length es)) es'"
  by (induction es arbitrary: n) (auto simp: algebra_simps)

lemma numbered_nth: "numbered n es \<Longrightarrow> k < length es \<Longrightarrow> event_seq (es ! k) = n + of_nat k"
  by (induction es arbitrary: n k) (auto simp: nth_Cons algebra_simps split: nat.splits)

text \<open>A step appends consecutively numbered events and leaves the generator at the next number.\<close>

definition emits :: "matcher \<times> event list \<Rightarrow> matcher \<times> event list \<Rightarrow> bool" where
  "emits st st' \<longleftrightarrow>
     (\<exists>evs. snd st' = snd st @ evs \<and> numbered (peek_seq (fst st)) evs \<and>
        peek_seq (fst st') = peek_seq (fst st) + of_nat (length evs))"

lemma emits_refl: "peek_seq (fst st') = peek_seq (fst st) \<Longrightarrow> snd st' = snd st \<Longrightarrow> emits st st'"
  by (simp add: emits_def)

lemma emits_trans [trans]: "emits st st' \<Longrightarrow> emits st' st'' \<Longrightarrow> emits st st''"
  by (force simp: emits_def algebra_simps)

lemma peek_seq_m_book [simp]: "peek_seq (m\<lparr>m_book := b\<rparr>) = peek_seq m"
  by (simp add: peek_seq_def seq_peek_def)

lemma peek_seq_emit [simp]: "peek_seq (fst (emit ev st)) = peek_seq (fst st) + 1"
  by (simp add: emit_def seq_next_def peek_seq_def seq_peek_def)

lemma snd_emit: "snd (emit ev st) = snd st @ [ev (peek_seq (fst st))]"
  by (simp add: emit_def seq_next_def peek_seq_def seq_peek_def)

lemma emits_emit: "(\<And>sq. event_seq (ev sq) = sq) \<Longrightarrow> emits st (emit ev st)"
  by (simp add: emits_def snd_emit)

lemma emits_emit_take: "emits st (emit_take ord p t st)"
proof -
  let ?st = "emit (Trade (no_id ord) (t_maker t) p (t_taken t)) st"
  have "emits st ?st" by (rule emits_emit) simp
  moreover have "emits ?st (emit (Done (t_maker t) 0 Filled) ?st)" by (rule emits_emit) simp
  ultimately show ?thesis by (auto simp: emit_take_def Let_def intro: emits_trans)
qed

lemma emits_match_loop: "emits st (snd (match_loop ord r st))"
proof (induction r st rule: match_loop_induct [of ord])
  case (Take r st p t b')
  have "emits st ((fst st)\<lparr>m_book := b'\<rparr>, snd st)" by (rule emits_refl) simp_all
  also note emits_emit_take [of _ ord p t]
  also note Take(3)
  finally show ?case using Take(1,2) by (simp add: match_loop_take)
qed (auto simp: match_loop_stop match_loop_stuck intro!: emits_refl)

lemma emits_accept: "emits st (accept ord st)"
proof -
  let ?st1 = "((fst st)\<lparr>m_seq := snd (seq_next (m_seq (fst st)))\<rparr>,
      snd st @ [Accepted (no_id ord) (no_qty ord) (fst (seq_next (m_seq (fst st))))])"
  obtain r st2 where loop: "match_loop ord (no_qty ord) ?st1 = (r, st2)"
    by (cases "match_loop ord (no_qty ord) ?st1")
  have "emits st ?st1"
    by (simp add: emits_def peek_seq_def seq_peek_def seq_next_def)
  also have "emits ?st1 st2"
    using emits_match_loop [of ?st1 ord "no_qty ord"] loop by simp
  finally have st2: "emits st st2" .
  have rest: "emits st ((fst st2)\<lparr>m_book := b\<rparr>, snd st2)" for b
    using st2 by (simp add: emits_def)
  have last: "emits st (emit ev st2)" if "\<And>sq. event_seq (ev sq) = sq" for ev
    using st2 emits_emit [OF that] by (rule emits_trans)
  show ?thesis
    using loop rest last
    by (auto simp: accept_def Let_def split_beta intro!: emits_emit split: order_kind.splits)
qed

lemma emits_cancel: "emits st (matcher_cancel i st)"
proof (cases "book_cancel i (m_book (fst st))")
  case (Pair q b)
  have same: "emits st ((fst st)\<lparr>m_book := b\<rparr>, snd st)" by (rule emits_refl) simp_all
  show ?thesis
  proof (cases q)
    case None
    with Pair same show ?thesis by (simp add: matcher_cancel_def)
  next
    case (Some leaves)
    with Pair have "matcher_cancel i st = emit (Done i leaves Cancelled) ((fst st)\<lparr>m_book := b\<rparr>, snd st)"
      by (simp add: matcher_cancel_def)
    with emits_trans [OF same emits_emit] show ?thesis by simp
  qed
qed

lemma emits_apply_command: "emits st (apply_command c st)"
  by (cases c) (simp_all add: emits_accept emits_cancel)

lemma run_commands_simps [simp]:
  "run_commands [] st = st"
  "run_commands (c # cs) st = run_commands cs (apply_command c st)"
  "run_commands (cs @ cs') st = run_commands cs' (run_commands cs st)"
  by (simp_all add: run_commands_def)

lemma emits_run_commands: "emits st (run_commands cs st)"
proof (induction cs arbitrary: st)
  case Nil
  then show ?case by (simp add: emits_refl)
next
  case (Cons c cs)
  have "emits st (apply_command c st)" by (rule emits_apply_command)
  also have "emits \<dots> (run_commands cs (apply_command c st))" by (rule Cons.IH)
  finally show ?case by simp
qed

section \<open>Independence of the events already emitted\<close>

definition after :: "event list \<Rightarrow> matcher \<times> event list \<Rightarrow> matcher \<times> event list" where
  "after out st = (fst st, out @ snd st)"

lemma after_simps [simp]: "fst (after out st) = fst st" "snd (after out st) = out @ snd st"
  by (simp_all add: after_def)

lemma after_emit: "emit ev (after out st) = after out (emit ev st)"
  by (simp add: emit_def after_def split_beta)

lemma after_emit_take: "emit_take ord p t (after out st) = after out (emit_take ord p t st)"
  by (simp add: emit_take_def after_emit Let_def)

lemma after_match_loop: "match_loop ord r (after out st) = apsnd (after out) (match_loop ord r st)"
proof (induction r st rule: match_loop_induct [of ord])
  case (Stop r st)
  then show ?case by (simp add: match_loop_stop)
next
  case (Stuck r st p b')
  then show ?case by (simp add: match_loop_stuck after_def)
next
  case (Take r st p t b')
  have "(fst st\<lparr>m_book := b'\<rparr>, out @ snd st) = after out (fst st\<lparr>m_book := b'\<rparr>, snd st)"
    by (simp add: after_def)
  with Take show ?case by (simp add: match_loop_take after_emit_take)
qed

lemma after_accept: "accept ord (after out st) = after out (accept ord st)"
proof -
  have "(m\<lparr>m_seq := g\<rparr>, out @ snd st @ [e]) = after out (m\<lparr>m_seq := g\<rparr>, snd st @ [e])" for m g e
    by (simp add: after_def)
  moreover have "(m, out @ es) = after out (m, es)" for m es
    by (simp add: after_def)
  ultimately show ?thesis
    by (simp add: accept_def Let_def split_beta after_match_loop after_emit split: order_kind.split)
qed

lemma after_cancel: "matcher_cancel i (after out st) = after out (matcher_cancel i st)"
proof -
  have "(m, out @ es) = after out (m, es)" for m es
    by (simp add: after_def)
  then show ?thesis
    by (simp add: matcher_cancel_def after_emit split: prod.split option.split)
qed

lemma after_apply_command: "apply_command c (after out st) = after out (apply_command c st)"
  by (cases c) (simp_all add: after_accept after_cancel)

lemma after_run_commands: "run_commands cs (after out st) = after out (run_commands cs st)"
  by (induction cs arbitrary: st) (simp_all add: after_apply_command)

end
