(* ===== verification/Price_Time.thy ===== *)
theory Price_Time
  imports Matcher_Correct
begin

text \<open>
  The abstract specification of the matching engine: a market is one list of priced orders per
  side, best price first and earliest first at a price, and nothing else. A taker \<open>sweep\<close>s the
  opposite list from its head; what is left of it is inserted behind the orders of its price; a
  cancel filters the lists. There are no maps, no index and no levels.

  The refinement lemmas show that the matcher of the code computes exactly this specification,
  events included, from every book that satisfies the invariant.
\<close>

section \<open>The specification\<close>

type_synonym queue = "(price \<times> order) list"
type_synonym market = "side \<Rightarrow> queue"

text \<open>The prices at which an order is willing to trade: at its limit or better, a market order at any.\<close>

definition within :: "side \<Rightarrow> price \<Rightarrow> price \<Rightarrow> bool" where
  "within s p q \<longleftrightarrow> (case s of Buy \<Rightarrow> q \<le> p | Sell \<Rightarrow> p \<le> q)"

fun willing :: "order_kind \<Rightarrow> side \<Rightarrow> price \<Rightarrow> bool" where
  "willing Market s q \<longleftrightarrow> True"
| "willing (Limit p) s q \<longleftrightarrow> within s p q"
| "willing (Ioc p) s q \<longleftrightarrow> within s p q"
| "willing (PostOnly p) s q \<longleftrightarrow> within s p q"
| "willing (Fok p) s q \<longleftrightarrow> within s p q"

text \<open>Match a quantity against a queue: the fills, what remains, and the queue left behind.\<close>

fun sweep :: "(price \<Rightarrow> bool) \<Rightarrow> qty \<Rightarrow> queue \<Rightarrow> (price \<times> order \<times> qty) list \<times> qty \<times> queue" where
  "sweep ok r [] = ([], r, [])"
| "sweep ok r ((p, x) # ps) =
     (if r = 0 \<or> \<not> ok p then ([], r, (p, x) # ps)
      else if o_qty x \<le> r
      then (case sweep ok (r - o_qty x) ps of (fs, r', ps') \<Rightarrow> ((p, x, o_qty x) # fs, r', ps'))
      else ([(p, x, r)], 0, (p, x\<lparr>o_qty := o_qty x - r\<rparr>) # ps))"

text \<open>The events of a list of fills: each trade, followed by the \<open>Done\<close> of an exhausted maker.\<close>

fun fill_events :: "order_id \<Rightarrow> sequence \<Rightarrow> (price \<times> order \<times> qty) list \<Rightarrow> event list" where
  "fill_events taker n [] = []"
| "fill_events taker n ((p, x, q) # fs) =
     (if q = o_qty x
      then Trade taker (o_id x) p q n # Done (o_id x) 0 Filled (n + 1) # fill_events taker (n + 2) fs
      else Trade taker (o_id x) p q n # fill_events taker (n + 1) fs)"

text \<open>A new order goes behind every order that it does not improve on.\<close>

definition enqueue :: "side \<Rightarrow> price \<Rightarrow> order \<Rightarrow> queue \<Rightarrow> queue" where
  "enqueue s p x ps =
     takeWhile (\<lambda>e. \<not> better s p (fst e)) ps @ (p, x) # dropWhile (\<lambda>e. \<not> better s p (fst e)) ps"

definition listed :: "market \<Rightarrow> order_id \<Rightarrow> bool" where
  "listed mk i \<longleftrightarrow> i \<in> (o_id \<circ> snd) ` set (mk Buy @ mk Sell)"

definition refuses :: "market \<Rightarrow> new_order \<Rightarrow> bool" where
  "refuses mk ord \<longleftrightarrow>
     no_qty ord = 0 \<or> listed mk (no_id ord) \<or>
     (case no_kind ord of
        PostOnly p \<Rightarrow> mk (opposite (no_side ord)) \<noteq> [] \<and>
          within (no_side ord) p (fst (hd (mk (opposite (no_side ord)))))
      | Fok p \<Rightarrow>
          eligible_qty (within (no_side ord) p) (mk (opposite (no_side ord))) < unat (no_qty ord)
      | _ \<Rightarrow> False)"

text \<open>What becomes of the unfilled part: \<open>Inl p\<close> rests at \<open>p\<close>, \<open>Inr r\<close> is done for reason \<open>r\<close>.\<close>

fun leftover :: "order_kind \<Rightarrow> price + done_reason" where
  "leftover (Limit p) = Inl p"
| "leftover (PostOnly p) = Inl p"
| "leftover Market = Inr NoLiquidity"
| "leftover (Ioc p) = Inr Expired"
| "leftover (Fok p) = Inr Expired"

definition spec_accept :: "new_order \<Rightarrow> sequence \<Rightarrow> market \<Rightarrow> market \<times> event list" where
  "spec_accept ord n mk =
     (if refuses mk ord then (mk, [Done (no_id ord) (no_qty ord) Rejected n])
      else
        let s = no_side ord;
            (fs, r, ps) = sweep (willing (no_kind ord) s) (no_qty ord) (mk (opposite s));
            mk1 = mk(opposite s := ps);
            evs = Accepted (no_id ord) (no_qty ord) n # fill_events (no_id ord) (n + 1) fs;
            n' = n + of_nat (length evs)
        in if r = 0 then (mk1, evs @ [Done (no_id ord) 0 Filled n'])
           else case leftover (no_kind ord) of
             Inl p \<Rightarrow> (mk1(s := enqueue s p \<lparr>o_id = no_id ord, o_qty = r, o_seq = n\<rparr> (mk1 s)), evs)
           | Inr reason \<Rightarrow> (mk1, evs @ [Done (no_id ord) r reason n']))"

definition spec_cancel :: "order_id \<Rightarrow> sequence \<Rightarrow> market \<Rightarrow> market \<times> event list" where
  "spec_cancel i n mk =
     (case List.find (\<lambda>e. o_id (snd e) = i) (mk Buy @ mk Sell) of
        None \<Rightarrow> (mk, [])
      | Some e \<Rightarrow> (\<lambda>s. filter (\<lambda>e. o_id (snd e) \<noteq> i) (mk s), [Done i (o_qty (snd e)) Cancelled n]))"

fun spec_command :: "command \<Rightarrow> sequence \<Rightarrow> market \<Rightarrow> market \<times> event list" where
  "spec_command (New ord) n mk = spec_accept ord n mk"
| "spec_command (Cancel i) n mk = spec_cancel i n mk"

text \<open>The code's test is the specification's.\<close>

lemma crosses_willing [simp]: "crosses k s q \<longleftrightarrow> willing k s q"
  by (cases k; cases s) (simp_all add: price_crosses_def within_def)

section \<open>Queues in priority order\<close>

definition price_sorted :: "side \<Rightarrow> queue \<Rightarrow> bool" where
  "price_sorted s ps \<longleftrightarrow> sorted_wrt (\<lambda>e e'. \<not> better s (fst e') (fst e)) ps"

lemma better_antisym: "\<not> better s p q \<Longrightarrow> \<not> better s q p \<Longrightarrow> p = q"
  by (cases s) (auto simp: better_def)

lemma better_trans: "better s p q \<Longrightarrow> better s q r \<Longrightarrow> better s p r"
  by (cases s) (auto simp: better_def)

lemma better_asym: "better s p q \<Longrightarrow> \<not> better s q p"
  by (cases s) (auto simp: better_def)

lemma better_irrefl [simp]: "\<not> better s p p"
  by (cases s) (auto simp: better_def)

text \<open>A sorted queue is determined by its levels.\<close>

lemma mem_filter_price: "e \<in> set ps \<longleftrightarrow> e \<in> set (filter (\<lambda>e'. fst e' = fst e) ps)"
  by simp

lemma price_sorted_ext:
  assumes "price_sorted s xs" "price_sorted s ys"
    "\<And>p. filter (\<lambda>e. fst e = p) xs = filter (\<lambda>e. fst e = p) ys"
  shows "xs = ys"
  using assms
proof (induction xs arbitrary: ys)
  case Nil
  have "e \<notin> set ys" for e
    using Nil.prems(3) [of "fst e"] mem_filter_price [of e ys] by simp
  then show ?case by (cases ys) auto
next
  case (Cons x xs)
  have same: "e \<in> set (x # xs) \<longleftrightarrow> e \<in> set ys" for e
    using Cons.prems(3) [of "fst e"] mem_filter_price [of e ys] mem_filter_price [of e "x # xs"] by simp
  then have "x \<in> set ys" by (metis list.set_intros(1))
  then obtain y ys' where ys: "ys = y # ys'" by (cases ys) auto
  have "x \<in> set (y # ys')" "y \<in> set (x # xs)"
    using same [of x] same [of y] ys by simp_all
  then have "fst x = fst y"
    using Cons.prems(1,2) ys by (auto simp: price_sorted_def intro: better_antisym)
  then have "x = y" using Cons.prems(3) [of "fst x"] ys by simp
  moreover have "xs = ys'"
  proof (rule Cons.IH)
    show "filter (\<lambda>e. fst e = p) xs = filter (\<lambda>e. fst e = p) ys'" for p
      using Cons.prems(3) [of p] ys \<open>x = y\<close> by (auto split: if_splits)
  qed (use Cons.prems ys in \<open>simp_all add: price_sorted_def\<close>)
  ultimately show ?case using ys by simp
qed

lemma price_sorted_flatten:
  "sorted_wrt (better s) (map fst m) \<Longrightarrow> price_sorted s (flatten m)"
proof (induction m)
  case (Cons e m)
  obtain p l where e: "e = (p, l)" by (cases e)
  have "\<forall>e' \<in> set (flatten m). \<not> better s (fst e') p"
    using Cons.prems e by (force simp: set_flatten dest: better_asym)
  moreover have "sorted_wrt (\<lambda>e e'. \<not> better s (fst e') (fst e)) (map (Pair p) l)"
    by (simp add: sorted_wrt_map sorted_wrt_true)
  ultimately show ?case using Cons e by (auto simp: price_sorted_def sorted_wrt_append)
qed (simp add: price_sorted_def)

lemma price_sorted_priority: "levels_inv b \<Longrightarrow> price_sorted s (priority b s)"
  unfolding priority_def by (intro price_sorted_flatten walk_sorted)

text \<open>The split of a queue at the price of a new order.\<close>

lemma enqueue_split:
  assumes "price_sorted s ps"
  obtains as bs where "ps = as @ bs" "enqueue s p x ps = as @ (p, x) # bs"
    "\<And>e. e \<in> set as \<Longrightarrow> \<not> better s p (fst e)" "\<And>e. e \<in> set bs \<Longrightarrow> better s p (fst e)"
proof -
  let ?P = "\<lambda>e. \<not> better s p (fst e)"
  have below: "better s p (fst e)" if "e \<in> set (dropWhile ?P ps)" for e
    using that assms
  proof (induction ps)
    case (Cons e' ps)
    show ?case
    proof (cases "?P e'")
      case True
      with Cons show ?thesis by (simp add: price_sorted_def)
    next
      case False
      then have "e = e' \<or> \<not> better s (fst e) (fst e')"
        using Cons.prems by (auto simp: price_sorted_def)
      with False show ?thesis by (metis better_antisym better_trans)
    qed
  qed simp
  show thesis
  proof (rule that)
    show "ps = takeWhile ?P ps @ dropWhile ?P ps" by simp
    show "enqueue s p x ps = takeWhile ?P ps @ (p, x) # dropWhile ?P ps" by (simp add: enqueue_def)
    show "\<not> better s p (fst e)" if "e \<in> set (takeWhile ?P ps)" for e
      using set_takeWhileD [OF that] by simp
  qed (rule below)
qed

lemma price_sorted_enqueue:
  assumes "price_sorted s ps"
  shows "price_sorted s (enqueue s p x ps)"
proof -
  obtain as bs where "ps = as @ bs" and eq: "enqueue s p x ps = as @ (p, x) # bs"
    and "\<And>e. e \<in> set as \<Longrightarrow> \<not> better s p (fst e)" "\<And>e. e \<in> set bs \<Longrightarrow> better s p (fst e)"
    by (rule enqueue_split [OF assms, of p x]) blast
  with assms show ?thesis
    unfolding eq by (auto simp: price_sorted_def sorted_wrt_append better_asym)
qed

lemma filter_enqueue:
  assumes "price_sorted s ps"
  shows "filter (\<lambda>e. fst e = q) (enqueue s p x ps) =
    filter (\<lambda>e. fst e = q) ps @ (if q = p then [(p, x)] else [])"
proof -
  obtain as bs where ps: "ps = as @ bs" and eq: "enqueue s p x ps = as @ (p, x) # bs"
    and bs: "\<And>e. e \<in> set bs \<Longrightarrow> better s p (fst e)"
    by (rule enqueue_split [OF assms, of p x]) blast
  have "filter (\<lambda>e. fst e = p) bs = []" using bs by (force simp: filter_empty_conv)
  then show ?thesis unfolding eq by (auto simp: ps)
qed

section \<open>The book as a market\<close>

lemma ex_side: "(\<exists>s. P s) \<longleftrightarrow> P Buy \<or> P Sell"
  by (metis (full_types) side.exhaust)

lemma listed_iff: "listed mk i \<longleftrightarrow> (\<exists>s p x. (p, x) \<in> set (mk s) \<and> o_id x = i)"
  unfolding ex_side by (force simp: listed_def image_iff)

lemma contains_listed:
  assumes "book_inv b"
  shows "book_contains b i \<longleftrightarrow> listed (priority b) i"
proof -
  have "book_contains b i \<longleftrightarrow> (\<exists>s p. Mapping.lookup (index b) i = Some (s, p))"
    by (auto simp: book_contains_def)
  also have "\<dots> \<longleftrightarrow> (\<exists>s p x. x \<in> set (level_at b s p) \<and> o_id x = i)"
    using assms by (auto simp: book_inv_def)
  finally show ?thesis
    by (simp add: listed_iff set_priority [OF book_invD(1) [OF assms]])
qed

lemma best_of_priority:
  "levels_inv b \<Longrightarrow> best_of b s = (case priority b s of [] \<Rightarrow> None | e # _ \<Rightarrow> Some (fst e))"
  using walk_head [of b s] priority_Nil_iff [of b s]
  by (cases s; cases "walk b s")
    (auto simp: best_of_def best_bid_walk best_ask_walk bt_first_key_value_def priority_def
      neq_Nil_conv split: list.splits)

lemma within_acceptable: "within s p q \<longleftrightarrow> acceptable (opposite s) p q"
  by (cases s) (auto simp: within_def acceptable_def)

lemma fillable_short:
  assumes "levels_inv b"
  shows "fillable_qty_at b s p cap < cap \<longleftrightarrow> eligible_qty (acceptable s p) (priority b s) < unat cap"
  using fillable_qty_at_spec [OF assms, of s p cap] by (auto simp: word_less_nat_alt word_le_nat_alt split: if_splits)

lemma gate_refuses:
  assumes "book_inv b"
  shows "no_qty ord = 0 \<or> book_contains b (no_id ord) \<or> gate_rejects b ord \<longleftrightarrow> refuses (priority b) ord"
proof -
  let ?opp = "opposite (no_side ord)"
  have lv: "levels_inv b" by (rule book_invD(1) [OF assms])
  have "gate_rejects b ord \<longleftrightarrow> (case no_kind ord of
      PostOnly p \<Rightarrow> priority b ?opp \<noteq> [] \<and> within (no_side ord) p (fst (hd (priority b ?opp)))
    | Fok p \<Rightarrow> eligible_qty (within (no_side ord) p) (priority b ?opp) < unat (no_qty ord)
    | _ \<Rightarrow> False)"
    using best_of_priority [OF lv, of ?opp] fillable_short [OF lv, of ?opp _ "no_qty ord"]
    by (cases "no_side ord"; cases "no_kind ord"; cases "priority b ?opp")
      (simp_all add: gate_rejects_def best_of_def within_def acceptable_def eligible_qty_def)
  then show ?thesis
    by (simp add: refuses_def contains_listed [OF assms])
qed

text \<open>Resting an order enqueues it, and removing one filters it out.\<close>

lemma priority_put_level:
  assumes "levels_inv b" "price_sorted s ps"
    "\<And>q. map snd (filter (\<lambda>e. fst e = q) ps) = (if q = p then l else level_at b s q)"
  shows "priority (put_level s p l b) s = ps"
proof (rule price_sorted_ext)
  have lv: "levels_inv (put_level s p l b)" by (rule levels_inv_put_level [OF assms(1)])
  then show "price_sorted s (priority (put_level s p l b) s)" by (rule price_sorted_priority)
  fix q
  have *: "filter (\<lambda>e. fst e = q) xs = map (Pair q) (map snd (filter (\<lambda>e. fst e = q) xs))" for xs :: queue
    by (induction xs) auto
  have "map snd (filter (\<lambda>e. fst e = q) (priority (put_level s p l b) s)) =
      map snd (filter (\<lambda>e. fst e = q) ps)"
    by (simp add: priority_level [OF lv] level_at_put_level [OF assms(1)] assms(3))
  then show "filter (\<lambda>e. fst e = q) (priority (put_level s p l b) s) = filter (\<lambda>e. fst e = q) ps"
    by (metis *)
qed (rule assms(2))

lemma priority_add:
  assumes "book_inv b" "q \<noteq> 0" "\<not> book_contains b i"
  shows "priority (snd (book_add i s p q sq b)) =
    (priority b)(s := enqueue s p \<lparr>o_id = i, o_qty = q, o_seq = sq\<rparr> (priority b s))"
proof
  fix s'
  have lv: "levels_inv b" by (rule book_invD(1) [OF assms(1)])
  let ?x = "\<lparr>o_id = i, o_qty = q, o_seq = sq\<rparr>"
  have "priority (put_level s p (level_at b s p @ [?x]) b) s = enqueue s p ?x (priority b s)"
    using price_sorted_priority [OF lv]
    by (intro priority_put_level [OF lv])
      (auto simp: price_sorted_enqueue filter_enqueue priority_level [OF lv])
  then show "priority (snd (book_add i s p q sq b)) s' =
      ((priority b)(s := enqueue s p ?x (priority b s))) s'"
    by (cases "s' = s") (simp_all add: book_add_spec [OF assms])
qed

lemma priority_cancel:
  assumes "book_inv b"
  shows "priority (snd (book_cancel i b)) s = filter (\<lambda>e. o_id (snd e) \<noteq> i) (priority b s)"
proof (cases "Mapping.lookup (index b) i")
  case None
  then have "\<not> listed (priority b) i"
    by (simp add: book_contains_def flip: contains_listed [OF assms])
  then have "\<forall>e \<in> set (priority b s). o_id (snd e) \<noteq> i"
    by (metis listed_iff prod.collapse)
  with None show ?thesis
    by (simp add: book_cancel_unknown not_contains_iff filter_id_conv [THEN iffD2])
next
  case (Some sp)
  obtain s' p where sp: "Mapping.lookup (index b) i = Some (s', p)"
    using Some by (cases sp) simp
  have lv: "levels_inv b" by (rule book_invD(1) [OF assms])
  have elsewhere: "o_id x \<noteq> i" if "x \<in> set (level_at b r q)" "(r, q) \<noteq> (s', p)" for x r q
    using book_invD(4) [OF assms that(1)] that(2) sp by auto
  have commute: "filter (\<lambda>e. fst e = q) (filter (\<lambda>e. o_id (snd e) \<noteq> i) ps) =
      filter (\<lambda>e. o_id (snd e) \<noteq> i) (filter (\<lambda>e. fst e = q) ps)" for q and ps :: queue
    by (simp add: conj_commute)
  have levels: "map snd (filter (\<lambda>e. fst e = q) (filter (\<lambda>e. o_id (snd e) \<noteq> i) (priority b r))) =
      filter (\<lambda>x. o_id x \<noteq> i) (level_at b r q)" for q r
    unfolding commute priority_level [OF lv, symmetric] by (simp add: filter_map comp_def)
  obtain x where "x \<in> set (level_at b s' p)" and "book_cancel i b = (Some (o_qty x),
       (put_level s' p (filter (\<lambda>y. o_id y \<noteq> i) (level_at b s' p)) b)
         \<lparr>index := Mapping.delete i (index b)\<rparr>)"
    by (rule book_cancel_spec [OF assms sp])
  moreover have "priority (put_level s' p (filter (\<lambda>y. o_id y \<noteq> i) (level_at b s' p)) b) s =
      filter (\<lambda>e. o_id (snd e) \<noteq> i) (priority b s)"
  proof (cases "s = s'")
    case True
    show ?thesis
      unfolding True
    proof (rule priority_put_level [OF lv])
      show "price_sorted s' (filter (\<lambda>e. o_id (snd e) \<noteq> i) (priority b s'))"
        using price_sorted_priority [OF lv] by (simp add: price_sorted_def sorted_wrt_filter)
      show "map snd (filter (\<lambda>e. fst e = q) (filter (\<lambda>e. o_id (snd e) \<noteq> i) (priority b s'))) =
          (if q = p then filter (\<lambda>y. o_id y \<noteq> i) (level_at b s' p) else level_at b s' q)" for q
        using elsewhere [of _ s' q] unfolding levels by (auto intro: filter_True)
    qed
  next
    case False
    then have "\<forall>e \<in> set (priority b s). o_id (snd e) \<noteq> i"
      using elsewhere [of _ s] set_priority [OF lv, of _ _ s] by fastforce
    with False show ?thesis by (simp add: filter_id_conv [THEN iffD2])
  qed
  ultimately show ?thesis by simp
qed

section \<open>The matching loop refines the sweep\<close>

lemma sweep_outcome_induct [consumes 1, case_names Stop Whole Part]:
  assumes "sweep ok r ps = (fs, r', ps')"
    and "\<And>r ps. r = 0 \<or> ps = [] \<or> \<not> ok (fst (hd ps)) \<Longrightarrow> P r ps [] r ps"
    and "\<And>r p x ps fs r' ps'. r \<noteq> 0 \<Longrightarrow> ok p \<Longrightarrow> o_qty x \<le> r \<Longrightarrow>
      sweep ok (r - o_qty x) ps = (fs, r', ps') \<Longrightarrow> P (r - o_qty x) ps fs r' ps' \<Longrightarrow>
      P r ((p, x) # ps) ((p, x, o_qty x) # fs) r' ps'"
    and "\<And>r p x ps. r \<noteq> 0 \<Longrightarrow> ok p \<Longrightarrow> r < o_qty x \<Longrightarrow>
      P r ((p, x) # ps) [(p, x, r)] 0 ((p, x\<lparr>o_qty := o_qty x - r\<rparr>) # ps)"
  shows "P r ps fs r' ps'"
  using assms(1)
proof (induction ps arbitrary: r fs)
  case Nil
  then show ?case using assms(2) [of r "[]"] by simp
next
  case (Cons e ps)
  obtain p x where e: "e = (p, x)" by (cases e)
  show ?case
  proof (cases "r = 0 \<or> \<not> ok p")
    case True
    with Cons.prems e assms(2) [of r "e # ps"] show ?thesis by auto
  next
    case False
    then show ?thesis
      using Cons assms(3,4) [of r p x ps] e
      by (cases "sweep ok (r - o_qty x) ps") (auto simp: not_le split: if_splits)
  qed
qed

lemma sweep_ids:
  "sweep ok r ps = (fs, r', ps') \<Longrightarrow> (o_id \<circ> snd) ` set ps' \<subseteq> (o_id \<circ> snd) ` set ps"
  by (induction rule: sweep_outcome_induct) auto

lemma loop_takes_priority:
  "levels_inv b \<Longrightarrow> loop_takes ord r b p \<longleftrightarrow>
     r \<noteq> 0 \<and> (\<exists>x ps. priority b (opposite (no_side ord)) = (p, x) # ps) \<and> willing (no_kind ord) (no_side ord) p"
  by (auto simp: loop_takes_def best_of_priority split: list.splits)

lemma sweep_stop:
  "r = 0 \<or> (\<forall>p x ps'. ps = (p, x) # ps' \<longrightarrow> \<not> ok p) \<Longrightarrow> sweep ok r ps = ([], r, ps)"
  by (cases "(ok, r, ps)" rule: sweep.cases) auto

text \<open>One take of the loop: the fill at the head of the opposite queue.\<close>

lemma take_priority:
  assumes "book_inv b" "priority b s = (p, x) # ps" "r \<noteq> 0" "take_front s p r b = (Some t, b')"
  defines "q \<equiv> min (o_qty x) r"
  shows "t = \<lparr>t_maker = o_id x, t_taken = q, t_remaining = o_qty x - q\<rparr>" "book_inv b'"
    "priority b' (opposite s) = priority b (opposite s)"
    "priority b' s = (if q = o_qty x then ps else (p, x\<lparr>o_qty := o_qty x - q\<rparr>) # ps)"
proof -
  have "t = \<lparr>t_maker = o_id x, t_taken = q, t_remaining = o_qty x - q\<rparr> \<and>
    priority b' (opposite s) = priority b (opposite s) \<and>
    priority b' s = (if q = o_qty x then ps else (p, x\<lparr>o_qty := o_qty x - q\<rparr>) # ps)"
  proof (cases "o_qty x \<le> r")
    case True
    with take_front_priority(1) [OF assms(1-3) True] assms(4) show ?thesis
      by (auto simp: q_def min_def)
  next
    case False
    then have less: "r < o_qty x" by simp
    with take_front_priority(2) [OF assms(1-3) less] assms(4) show ?thesis
      by (auto simp: q_def min_def)
  qed
  then show "t = \<lparr>t_maker = o_id x, t_taken = q, t_remaining = o_qty x - q\<rparr>"
    "priority b' (opposite s) = priority b (opposite s)"
    "priority b' s = (if q = o_qty x then ps else (p, x\<lparr>o_qty := o_qty x - q\<rparr>) # ps)" by simp_all
  show "book_inv b'" using book_inv_take_front [OF assms(1), of s p r] assms(4) by simp
qed

lemma snd_emit_take:
  "snd (emit_take ord p t st) = snd st @ Trade (no_id ord) (t_maker t) p (t_taken t) (peek_seq (fst st)) #
     (if t_remaining t = 0 then [Done (t_maker t) 0 Filled (peek_seq (fst st) + 1)] else [])"
  "peek_seq (fst (emit_take ord p t st)) = peek_seq (fst st) + (if t_remaining t = 0 then 2 else 1)"
  by (simp_all add: emit_take_def snd_emit Let_def)

lemma match_loop_sweep:
  assumes "book_inv (m_book (fst st))"
  shows "\<exists>fs r' ps' m'.
    sweep (willing (no_kind ord) (no_side ord)) r (priority (m_book (fst st)) (opposite (no_side ord))) = (fs, r', ps') \<and>
    match_loop ord r st = (r', m', snd st @ fill_events (no_id ord) (peek_seq (fst st)) fs) \<and>
    book_inv (m_book m') \<and>
    priority (m_book m') = (priority (m_book (fst st)))(opposite (no_side ord) := ps')"
  using assms
proof (induction r st rule: match_loop_induct [of ord])
  case (Stop r st)
  have "\<forall>p x ps'. priority (m_book (fst st)) (opposite (no_side ord)) = (p, x) # ps' \<longrightarrow>
      r = 0 \<or> \<not> willing (no_kind ord) (no_side ord) p"
    using Stop loop_takes_priority [OF book_invD(1), of "m_book (fst st)" ord r] by blast
  then have "sweep (willing (no_kind ord) (no_side ord)) r (priority (m_book (fst st)) (opposite (no_side ord))) =
      ([], r, priority (m_book (fst st)) (opposite (no_side ord)))"
    by (intro sweep_stop) blast
  with Stop show ?case by (cases st) (simp add: match_loop_stop del: fun_upd_apply)
next
  case (Stuck r st p b')
  then obtain x ps where "r \<noteq> 0" "priority (m_book (fst st)) (opposite (no_side ord)) = (p, x) # ps"
    using loop_takes_priority [OF book_invD(1), of "m_book (fst st)" ord r] by blast
  with Stuck take_front_priority [of "m_book (fst st)" "opposite (no_side ord)" p x ps r] have False
    by (cases "o_qty x \<le> r") (simp_all add: not_le)
  then show ?case ..
next
  case (Take r st p t b')
  let ?s = "opposite (no_side ord)" and ?b = "m_book (fst st)"
  let ?ok = "willing (no_kind ord) (no_side ord)"
  let ?st = "emit_take ord p t ((fst st)\<lparr>m_book := b'\<rparr>, snd st)"
  obtain x ps where pre: "r \<noteq> 0" "priority ?b ?s = (p, x) # ps" "?ok p"
    using Take loop_takes_priority [OF book_invD(1), of ?b ord r p] by blast
  let ?q = "min (o_qty x) r"
  note tk = take_priority [OF Take.prems pre(2,1) Take.hyps(2)]
  obtain fs r' ps' m' where IH: "sweep ?ok (qty_saturating_sub r ?q) (priority b' ?s) = (fs, r', ps')"
    "match_loop ord (qty_saturating_sub r ?q) ?st =
       (r', m', snd ?st @ fill_events (no_id ord) (peek_seq (fst ?st)) fs)"
    "book_inv (m_book m')" "priority (m_book m') = (priority b')(?s := ps')"
    using Take.IH tk(1,2) by (auto simp del: fun_upd_apply)
  have r: "qty_saturating_sub r ?q = r - ?q"
    by (simp add: qty_saturating_sub_def u64_saturating_sub_def)
  have pos: "o_qty x - ?q = 0 \<longleftrightarrow> ?q = o_qty x" by auto
  have "sweep ?ok r (priority ?b ?s) = ((p, x, ?q) # fs, r', ps')"
  proof (cases "o_qty x \<le> r")
    case True
    with pre IH(1) tk(4) r show ?thesis by (simp add: min_def)
  next
    case False
    then have "?q = r" "r \<noteq> o_qty x" by (auto simp: min_def)
    with False pre IH(1) tk(4) r show ?thesis by (auto simp: sweep_stop)
  qed
  moreover have "snd ?st @ fill_events (no_id ord) (peek_seq (fst ?st)) fs =
      snd st @ fill_events (no_id ord) (peek_seq (fst st)) ((p, x, ?q) # fs)"
    using tk(1) pos by (simp add: snd_emit_take)
  moreover have "match_loop ord r st = match_loop ord (qty_saturating_sub r ?q) ?st"
    using match_loop_take [OF Take.hyps] tk(1) by simp
  moreover have "priority (m_book m') = (priority ?b)(?s := ps')"
  proof
    show "priority (m_book m') s' = ((priority ?b)(?s := ps')) s'" for s'
      using IH(4) tk(3) by (cases "s' = ?s"; cases s'; cases "no_side ord") auto
  qed
  ultimately show ?case using IH(2,3) by auto
qed

section \<open>The matcher refines the specification\<close>

definition refines :: "matcher \<times> event list \<Rightarrow> matcher \<times> event list \<Rightarrow> (sequence \<Rightarrow> market \<Rightarrow> market \<times> event list) \<Rightarrow> bool" where
  "refines st st' spec \<longleftrightarrow>
     (let (mk, evs) = spec (peek_seq (fst st)) (priority (m_book (fst st)))
      in priority (m_book (fst st')) = mk \<and> snd st' = snd st @ evs \<and>
         peek_seq (fst st') = peek_seq (fst st) + of_nat (length evs) \<and> book_inv (m_book (fst st')))"

lemma emits_peek: "emits st st' \<Longrightarrow> snd st' = snd st @ evs \<Longrightarrow>
    peek_seq (fst st') = peek_seq (fst st) + of_nat (length evs)"
  by (auto simp: emits_def)

lemma accept_refines:
  assumes inv: "book_inv (m_book (fst st))"
  shows "refines st (accept ord st) (spec_accept ord)"
proof (cases "refuses (priority (m_book (fst st))) ord")
  case True
  then have "no_qty ord = 0 \<or> book_contains (m_book (fst st)) (no_id ord) \<or> gate_rejects (m_book (fst st)) ord"
    using gate_refuses [OF inv] by simp
  then have "accept ord st = emit (Done (no_id ord) (no_qty ord) Rejected) st"
    by (auto simp: accept_def)
  with True inv show ?thesis by (simp add: refines_def spec_accept_def snd_emit)
next
  case False
  let ?b = "m_book (fst st)" and ?n = "peek_seq (fst st)" and ?s = "no_side ord"
  let ?st1 = "((fst st)\<lparr>m_seq := snd (seq_next (m_seq (fst st)))\<rparr>, snd st @ [Accepted (no_id ord) (no_qty ord) ?n])"
  have n: "fst (seq_next (m_seq (fst st))) = ?n"
    by (simp add: seq_next_def peek_seq_def seq_peek_def)
  have pass: "no_qty ord \<noteq> 0" "\<not> book_contains ?b (no_id ord)" "\<not> gate_rejects ?b ord"
    using False gate_refuses [OF inv, of ord] by auto
  have n1: "peek_seq (fst ?st1) = ?n + 1"
    by (simp add: seq_next_def peek_seq_def seq_peek_def)
  obtain fs r ps m where sw: "sweep (willing (no_kind ord) ?s) (no_qty ord) (priority ?b (opposite ?s)) = (fs, r, ps)"
    and loop: "match_loop ord (no_qty ord) ?st1 = (r, m, snd ?st1 @ fill_events (no_id ord) (peek_seq (fst ?st1)) fs)"
    and inv': "book_inv (m_book m)" and mk: "priority (m_book m) = (priority ?b)(opposite ?s := ps)"
    using match_loop_sweep [of ?st1 ord "no_qty ord"] inv by auto
  let ?evs = "Accepted (no_id ord) (no_qty ord) ?n # fill_events (no_id ord) (?n + 1) fs"
  have st2: "match_loop ord (no_qty ord) ?st1 = (r, m, snd st @ ?evs)"
    using loop n1 by simp
  have peek: "peek_seq m = ?n + of_nat (length ?evs)"
    using emits_match_loop [of ?st1 ord "no_qty ord"] emits_peek [of ?st1 "(m, snd st @ ?evs)" "tl ?evs"] st2 n1
    by simp
  have "\<not> listed ((priority ?b)(opposite ?s := ps)) (no_id ord)"
    using pass(2) sweep_ids [OF sw] by (cases ?s) (auto simp: contains_listed [OF inv] listed_def)
  then have fresh: "\<not> book_contains (m_book m) (no_id ord)"
    using contains_listed [OF inv'] mk by simp
  have rest: "priority (snd (book_add (no_id ord) ?s p r ?n (m_book m))) = ((priority ?b)(opposite ?s := ps))
      (?s := enqueue ?s p \<lparr>o_id = no_id ord, o_qty = r, o_seq = ?n\<rparr> (((priority ?b)(opposite ?s := ps)) ?s))"
    if "r \<noteq> 0" for p
    using priority_add [OF inv' that fresh, of ?s p ?n] by (simp only: mk)
  have acc: "accept ord st = (if r = 0 then emit (Done (no_id ord) 0 Filled) (m, snd st @ ?evs)
      else case leftover (no_kind ord) of
        Inl p \<Rightarrow> (m\<lparr>m_book := snd (book_add (no_id ord) ?s p r ?n (m_book m))\<rparr>, snd st @ ?evs)
      | Inr reason \<Rightarrow> emit (Done (no_id ord) r reason) (m, snd st @ ?evs))"
    using pass st2 n by (cases "no_kind ord") (simp_all add: accept_def Let_def split_beta)
  have spec: "spec_accept ord ?n (priority ?b) =
     (if r = 0 then (priority (m_book m), ?evs @ [Done (no_id ord) 0 Filled (peek_seq m)])
      else case leftover (no_kind ord) of
        Inl p \<Rightarrow> ((priority (m_book m))(?s := enqueue ?s p \<lparr>o_id = no_id ord, o_qty = r, o_seq = ?n\<rparr> (priority (m_book m) ?s)), ?evs)
      | Inr reason \<Rightarrow> (priority (m_book m), ?evs @ [Done (no_id ord) r reason (peek_seq m)]))"
    using False by (simp only: spec_accept_def if_False Let_def sw prod.case mk peek)
  show ?thesis
    unfolding refines_def acc spec
    using inv' priority_add [OF inv' _ fresh, of r ?s _ ?n] peek
    by (auto simp: snd_emit intro: book_inv_add split: sum.split)
qed

lemma find_unique:
  assumes "e \<in> set xs" "P e" "\<And>e'. e' \<in> set xs \<Longrightarrow> P e' \<Longrightarrow> e' = e"
  shows "List.find P xs = Some e"
proof -
  obtain e' where "List.find P xs = Some e'"
    using assms(1,2) find_None_iff [of P xs] by (cases "List.find P xs") auto
  moreover have "e' \<in> set xs \<and> P e'"
    using calculation by (metis find_Some_iff nth_mem)
  ultimately show ?thesis using assms(3) by simp
qed

lemma cancel_refines:
  assumes inv: "book_inv (m_book (fst st))"
  shows "refines st (matcher_cancel i st) (spec_cancel i)"
proof (cases "Mapping.lookup (index (m_book (fst st))) i")
  case None
  let ?b = "m_book (fst st)"
  have "\<not> listed (priority ?b) i"
    using None by (simp add: book_contains_def flip: contains_listed [OF inv])
  then have "\<forall>e \<in> set (priority ?b Buy @ priority ?b Sell). o_id (snd e) \<noteq> i"
    unfolding listed_def by (metis comp_apply image_eqI)
  then have "List.find (\<lambda>e. o_id (snd e) = i) (priority ?b Buy @ priority ?b Sell) = None"
    unfolding find_None_iff by blast
  with None inv show ?thesis
    by (simp add: refines_def spec_cancel_def matcher_cancel_def book_cancel_unknown not_contains_iff)
next
  case (Some sp)
  let ?b = "m_book (fst st)"
  have lv: "levels_inv ?b" by (rule book_invD(1) [OF inv])
  obtain s p where sp: "Mapping.lookup (index ?b) i = Some (s, p)" using Some by (cases sp) simp
  obtain x where x: "x \<in> set (level_at ?b s p)" "o_id x = i" and
    "book_cancel i ?b = (Some (o_qty x), (put_level s p (filter (\<lambda>y. o_id y \<noteq> i) (level_at ?b s p)) ?b)
         \<lparr>index := Mapping.delete i (index ?b)\<rparr>)"
    by (rule book_cancel_spec [OF inv sp])
  then have c: "book_cancel i ?b = (Some (o_qty x), snd (book_cancel i ?b))" by simp
  have "List.find (\<lambda>e. o_id (snd e) = i) (priority ?b Buy @ priority ?b Sell) = Some (p, x)"
  proof (rule find_unique)
    have in_side: "(q, y) \<in> set (priority ?b Buy @ priority ?b Sell) \<longleftrightarrow> (\<exists>s'. y \<in> set (level_at ?b s' q))" for q y
      by (simp add: ex_side set_priority [OF lv])
    show "(p, x) \<in> set (priority ?b Buy @ priority ?b Sell)" using in_side x by blast
    fix e
    assume "e \<in> set (priority ?b Buy @ priority ?b Sell)" "o_id (snd e) = i"
    then show "e = (p, x)"
      using in_side [of "fst e" "snd e"] same_order_same_place [OF inv _ x(1)] x(2)
      by (metis prod.collapse)
  qed (simp add: x)
  then have "spec_cancel i (peek_seq (fst st)) (priority ?b) =
      (priority (snd (book_cancel i ?b)), [Done i (o_qty x) Cancelled (peek_seq (fst st))])"
    by (simp add: spec_cancel_def priority_cancel [OF inv] fun_eq_iff)
  moreover have "matcher_cancel i st =
      emit (Done i (o_qty x) Cancelled) ((fst st)\<lparr>m_book := snd (book_cancel i ?b)\<rparr>, snd st)"
    by (subst matcher_cancel_def, subst c) simp
  ultimately show ?thesis
    using book_inv_cancel [OF inv, of i] by (simp add: refines_def snd_emit)
qed

lemma command_refines:
  "book_inv (m_book (fst st)) \<Longrightarrow> refines st (apply_command c st) (spec_command c)"
  using accept_refines cancel_refines by (cases c) (auto simp: refines_def)

end
