(* ===== verification/Machine.thy ===== *)
theory Machine
  imports Main
begin

text \<open>
  Deterministic machines driven by a list of commands. \<open>machine\<close> is a step function with an
  invariant; \<open>simulation\<close> adds an abstract machine that the step function implements. What holds of
  every step is lifted to every run once, here, and reaches the components by interpretation.
\<close>

locale machine =
  fixes step :: "'c \<Rightarrow> 's \<Rightarrow> 's"
    and inv :: "'s \<Rightarrow> bool"
  assumes inv_step: "inv s \<Longrightarrow> inv (step c s)"
begin

lemma inv_run: "inv s \<Longrightarrow> inv (fold step cs s)"
  by (induction cs arbitrary: s) (simp_all add: inv_step)

lemma run_invariant:
  assumes "inv s" "P s" "\<And>s c. inv s \<Longrightarrow> P s \<Longrightarrow> P (step c s)"
  shows "P (fold step cs s)"
  using assms(1,2) by (induction cs arbitrary: s) (simp_all add: inv_step assms(3))

end

locale simulation = machine step inv
  for step :: "'c \<Rightarrow> 's \<Rightarrow> 's" and inv :: "'s \<Rightarrow> bool" +
  fixes spec :: "'c \<Rightarrow> 'a \<Rightarrow> 'a"
    and abs :: "'s \<Rightarrow> 'a"
  assumes abs_step: "inv s \<Longrightarrow> abs (step c s) = spec c (abs s)"
begin

lemma abs_run: "inv s \<Longrightarrow> abs (fold step cs s) = fold spec cs (abs s)"
  by (induction cs arbitrary: s) (simp_all add: inv_step abs_step)

lemma spec_invariant:
  assumes "inv s" "P (abs s)" "\<And>s c. inv s \<Longrightarrow> P (abs s) \<Longrightarrow> P (spec c (abs s))"
  shows "P (abs (fold step cs s))"
  using assms(1,2) by (rule run_invariant) (simp add: abs_step assms(3))

end

text \<open>
  Labelled step relations, for components whose steps interleave. A run is a list of labels;
  \<open>step_simulation\<close> relates a concrete relation to an abstract one with the same labels.
\<close>

inductive steps :: "('s \<Rightarrow> 'l \<Rightarrow> 's \<Rightarrow> bool) \<Rightarrow> 's \<Rightarrow> 'l list \<Rightarrow> 's \<Rightarrow> bool" for R where
  steps_refl: "steps R s [] s"
| steps_step: "steps R s ls s' \<Longrightarrow> R s' l s'' \<Longrightarrow> steps R s (ls @ [l]) s''"

lemma steps_append: "steps R s' ls' s'' \<Longrightarrow> steps R s ls s' \<Longrightarrow> steps R s (ls @ ls') s''"
  by (induction rule: steps.induct) (simp, metis append_assoc steps_step)

lemma steps_one: "R s l s' \<Longrightarrow> steps R s [l] s'"
  using steps_step [OF steps_refl] by fastforce

lemma steps_Cons: "R s l s' \<Longrightarrow> steps R s' ls s'' \<Longrightarrow> steps R s (l # ls) s''"
  using steps_append [OF _ steps_one] by fastforce

lemma steps_two: "R s l s' \<Longrightarrow> R s' l' s'' \<Longrightarrow> steps R s [l, l'] s''"
  by (intro steps_Cons steps_one)

locale step_simulation =
  fixes step :: "'s \<Rightarrow> 'l \<Rightarrow> 's \<Rightarrow> bool"
    and inv :: "'s \<Rightarrow> bool"
    and spec :: "'a \<Rightarrow> 'l \<Rightarrow> 'a \<Rightarrow> bool"
    and abs :: "'s \<Rightarrow> 'a"
  assumes inv_step: "inv s \<Longrightarrow> step s l s' \<Longrightarrow> inv s'"
    and abs_step: "inv s \<Longrightarrow> step s l s' \<Longrightarrow> spec (abs s) l (abs s')"
begin

lemma inv_steps: "steps step s ls s' \<Longrightarrow> inv s \<Longrightarrow> inv s'"
  by (induction rule: steps.induct) (auto intro: inv_step)

lemma abs_steps: "steps step s ls s' \<Longrightarrow> inv s \<Longrightarrow> steps spec (abs s) ls (abs s')"
  by (induction rule: steps.induct) (auto intro: steps.intros abs_step inv_steps)

end

text \<open>
  Endless schedules. \<open>fair_progress\<close> is the rule for liveness: a goal with a rank and, in each state, one helpful action.
  No action raises the rank, the helpful action lowers it, and it stays the helpful one until the rank changes. Then every
  schedule in which the helpful actions keep coming reaches the goal.
\<close>

primrec run_at :: "('c \<Rightarrow> 's \<Rightarrow> 's) \<Rightarrow> (nat \<Rightarrow> 'c) \<Rightarrow> 's \<Rightarrow> nat \<Rightarrow> 's" where
  "run_at step acts s 0 = s"
| "run_at step acts s (Suc k) = step (acts k) (run_at step acts s k)"

lemma run_at_fold: "run_at step acts s k = fold step (map acts [0..<k]) s"
  by (induction k) simp_all

definition recurs :: "'c \<Rightarrow> (nat \<Rightarrow> 'c) \<Rightarrow> bool" where
  "recurs c acts \<longleftrightarrow> (\<forall>i. \<exists>j\<ge>i. acts j = c)"

locale fair_progress =
  fixes step :: "'c \<Rightarrow> 's \<Rightarrow> 's"
    and inv :: "'s \<Rightarrow> bool"
    and allowed :: "'c \<Rightarrow> bool"
    and goal :: "'s \<Rightarrow> bool"
    and rank :: "'s \<Rightarrow> nat"
    and helpful :: "'s \<Rightarrow> 'c"
  assumes kept: "inv s \<Longrightarrow> allowed c \<Longrightarrow> inv (step c s)"
    and helped: "inv s \<Longrightarrow> \<not> goal s \<Longrightarrow> goal (step (helpful s) s) \<or> rank (step (helpful s) s) < rank s"
    and unharmed: "inv s \<Longrightarrow> \<not> goal s \<Longrightarrow> allowed c \<Longrightarrow>
      goal (step c s) \<or> rank (step c s) < rank s \<or> rank (step c s) = rank s \<and> helpful (step c s) = helpful s"
begin

lemma inv_at:
  assumes "inv (run_at step acts s i)" "\<forall>k\<ge>i. allowed (acts k)" "i \<le> k"
  shows "inv (run_at step acts s k)"
  using assms(3) by (induction k rule: dec_induct) (simp_all add: assms(1,2) kept)

lemma waits:
  assumes "inv (run_at step acts s i)" "\<forall>k\<ge>i. allowed (acts k)" "\<forall>k\<ge>i. \<not> goal (run_at step acts s k)" "i \<le> j"
  shows "(\<exists>k\<ge>i. rank (run_at step acts s k) < rank (run_at step acts s i)) \<or>
    rank (run_at step acts s j) = rank (run_at step acts s i) \<and> helpful (run_at step acts s j) = helpful (run_at step acts s i)"
  using assms(4)
proof (induction j rule: dec_induct)
  case (step j)
  have "\<not> goal (run_at step acts s j)" "\<not> goal (run_at step acts s (Suc j))" "allowed (acts j)" "i \<le> Suc j"
    using assms(2,3) step.hyps(1) by (simp_all del: run_at.simps)
  with unharmed [OF inv_at [OF assms(1,2) step.hyps(1)], of "acts j"] step.IH show ?case
    by (metis run_at.simps(2))
qed simp

lemma fair_reaches:
  assumes "inv (run_at step acts s N)" "\<forall>i\<ge>N. allowed (acts i)" "\<And>c. c \<in> range helpful \<Longrightarrow> recurs c acts"
  shows "\<exists>k\<ge>N. goal (run_at step acts s k)"
proof (rule ccontr)
  assume "\<not> (\<exists>k\<ge>N. goal (run_at step acts s k))"
  then have no: "\<forall>k\<ge>N. \<not> goal (run_at step acts s k)" by blast
  have "N \<le> i \<Longrightarrow> False" for i
  proof (induction "rank (run_at step acts s i)" arbitrary: i rule: less_induct)
    case less
    have inv: "inv (run_at step acts s i)" using inv_at [OF assms(1,2) less.prems] .
    obtain j where j: "i \<le> j" "acts j = helpful (run_at step acts s i)"
      using assms(3) [of "helpful (run_at step acts s i)"] by (auto simp: recurs_def)
    have "\<exists>k\<ge>i. rank (run_at step acts s k) < rank (run_at step acts s i)"
    proof (rule ccontr)
      assume stuck: "\<not> (\<exists>k\<ge>i. rank (run_at step acts s k) < rank (run_at step acts s i))"
      with waits [OF inv _ _ j(1)] assms(2) no less.prems
      have "rank (run_at step acts s j) = rank (run_at step acts s i)" "acts j = helpful (run_at step acts s j)" using j(2) by auto
      moreover have "\<not> goal (run_at step acts s j)" "\<not> goal (run_at step acts s (Suc j))" using no less.prems j(1) by (simp_all del: run_at.simps)
      ultimately have "rank (run_at step acts s (Suc j)) < rank (run_at step acts s i)"
        using helped [OF inv_at [OF inv _ j(1)]] assms(2) less.prems by simp
      with stuck j(1) show False by (meson le_SucI)
    qed
    then show False using less.hyps less.prems by (meson le_trans)
  qed
  then show False by blast
qed

end

end
