(* ===== verification/Market_Laws.thy ===== *)
theory Market_Laws
  imports Price_Time Machine "HOL-Library.Multiset"
begin

text \<open>
  What the price-time specification guarantees, and through the simulation the matcher: for every
  command sequence the market is uncrossed, the stream of events accounts for every unit of
  quantity, and each order goes through exactly one legal life cycle.
\<close>

section \<open>The matcher as a simulation of the specification\<close>

type_synonym spec_state = "market \<times> sequence \<times> event list"

fun spec_step :: "command \<Rightarrow> spec_state \<Rightarrow> spec_state" where
  "spec_step c (mk, n, out) =
     (case spec_command c n mk of (mk', evs) \<Rightarrow> (mk', n + of_nat (length evs), out @ evs))"

definition abs_state :: "matcher \<times> event list \<Rightarrow> spec_state" where
  "abs_state st = (priority (m_book (fst st)), peek_seq (fst st), snd st)"

definition st_inv :: "matcher \<times> event list \<Rightarrow> bool" where
  "st_inv st \<longleftrightarrow> book_inv (m_book (fst st))"

interpretation mt: simulation apply_command st_inv spec_step abs_state
proof unfold_locales
  fix st c
  assume "st_inv st"
  then have "refines st (apply_command c st) (spec_command c)"
    by (simp add: st_inv_def command_refines)
  then show "st_inv (apply_command c st)" "abs_state (apply_command c st) = spec_step c (abs_state st)"
    by (auto simp: refines_def st_inv_def abs_state_def split: prod.splits)
qed

lemma new_state [simp]: "st_inv (matcher_new, out)" "abs_state (matcher_new, out) = (\<lambda>_. [], 1, out)"
proof -
  have "priority book_new s = []" for s
    by (cases s) (simp_all add: priority_def walk_def book_new_def)
  then show "st_inv (matcher_new, out)" "abs_state (matcher_new, out) = (\<lambda>_. [], 1, out)"
    by (simp_all add: st_inv_def abs_state_def matcher_new_def peek_seq_def seq_peek_def
        sequence_generator_new_def fun_eq_iff)
qed

lemma abs_stateD:
  "fst (abs_state st) = priority (m_book (fst st))" "snd (snd (abs_state st)) = snd st"
  "fst (snd (abs_state st)) = peek_seq (fst st)"
  by (simp_all add: abs_state_def)

text \<open>A predicate on markets and events that the specification keeps holds after every run.\<close>

lemma run_market_rule [consumes 1, case_names init step]:
  assumes "st_inv st" "P (priority (m_book (fst st))) (peek_seq (fst st)) (snd st)"
    and "\<And>b c n out mk evs. book_inv b \<Longrightarrow> P (priority b) n out \<Longrightarrow> spec_command c n (priority b) = (mk, evs) \<Longrightarrow>
      P mk (n + of_nat (length evs)) (out @ evs)"
  shows "P (priority (m_book (fst (run_commands cs st)))) (peek_seq (fst (run_commands cs st))) (snd (run_commands cs st))"
proof -
  have "case abs_state (fold apply_command cs st) of (mk, n, out) \<Rightarrow> P mk n out"
  proof (rule mt.spec_invariant [OF assms(1)])
    fix st c
    assume "st_inv st" "case abs_state st of (mk, n, out) \<Rightarrow> P mk n out"
    then show "case spec_step c (abs_state st) of (mk, n, out) \<Rightarrow> P mk n out"
      using assms(3) [of "m_book (fst st)" "peek_seq (fst st)" "snd st" c]
      by (auto simp: abs_state_def st_inv_def split: prod.splits)
  qed (use assms(2) in \<open>simp add: abs_state_def\<close>)
  then show ?thesis by (simp add: run_commands_def abs_state_def)
qed

section \<open>Facts about sweeps\<close>

definition volume :: "queue \<Rightarrow> nat" where
  "volume ps = (\<Sum>e\<leftarrow>ps. unat (o_qty (snd e)))"

definition filled :: "(price \<times> order \<times> qty) list \<Rightarrow> nat" where
  "filled fs = (\<Sum>f\<leftarrow>fs. unat (snd (snd f)))"

lemma volume_simps [simp]: "volume [] = 0" "volume (e # ps) = unat (o_qty (snd e)) + volume ps"
  "volume (ps @ ps') = volume ps + volume ps'"
  by (simp_all add: volume_def)

lemma filled_simps [simp]: "filled [] = 0" "filled (f # fs) = unat (snd (snd f)) + filled fs"
  by (simp_all add: filled_def)

lemma sweep_volume:
  "sweep ok r ps = (fs, r', ps') \<Longrightarrow> unat r = unat r' + filled fs \<and> volume ps = volume ps' + filled fs"
  by (induction rule: sweep_outcome_induct)
    (auto simp: unat_sub word_le_nat_alt word_less_nat_alt)

lemma sweep_prices: "sweep ok r ps = (fs, r', ps') \<Longrightarrow> fst ` set ps' \<subseteq> fst ` set ps"
  by (induction rule: sweep_outcome_induct) auto

lemma sweep_fills:
  "sweep ok r ps = (fs, r', ps') \<Longrightarrow> \<forall>e \<in> set ps. o_qty (snd e) \<noteq> 0 \<Longrightarrow> (p, x, q) \<in> set fs \<Longrightarrow>
     ok p \<and> (p, x) \<in> set ps \<and> q \<noteq> 0 \<and> q \<le> o_qty x"
  by (induction rule: sweep_outcome_induct) (auto simp: less_imp_le)

text \<open>A taker that is left over has exhausted everything it could trade with.\<close>

lemma sweep_residue:
  assumes "sweep ok r ps = (fs, r', ps')" "r' \<noteq> 0" "price_sorted s ps"
    and mono: "\<And>p q. ok q \<Longrightarrow> \<not> better s q p \<Longrightarrow> ok p"
  shows "\<forall>e \<in> set ps'. \<not> ok (fst e)"
  using assms(1-3)
proof (induction rule: sweep_outcome_induct)
  case (Stop r ps)
  then show ?case by (cases ps) (auto simp: price_sorted_def dest: mono)
qed (simp_all add: price_sorted_def)

lemma set_enqueue [simp]: "set (enqueue s p x ps) = insert (p, x) (set ps)"
proof -
  let ?P = "\<lambda>e. \<not> better s p (fst e)"
  have "set (takeWhile ?P ps) \<union> set (dropWhile ?P ps) = set ps"
    by (metis set_append takeWhile_dropWhile_id)
  then show ?thesis by (auto simp: enqueue_def)
qed

lemma volume_enqueue [simp]: "volume (enqueue s p x ps) = unat (o_qty x) + volume ps"
proof -
  let ?P = "\<lambda>e. \<not> better s p (fst e)"
  have "volume (takeWhile ?P ps) + volume (dropWhile ?P ps) = volume ps"
    by (metis volume_simps(3) takeWhile_dropWhile_id)
  then show ?thesis by (simp add: enqueue_def)
qed

lemma willing_mono:
  "willing k s q \<Longrightarrow> \<not> better (opposite s) q p \<Longrightarrow> willing k s p"
  by (cases k; cases s) (auto simp: within_def better_def)

text \<open>The branches of the specification, for proofs about the whole of it.\<close>

lemma spec_accept_cases [consumes 1, case_names Refused Filled Rests Leaves]:
  assumes "spec_accept ord n mk = (mk', evs)"
  obtains "refuses mk ord" "mk' = mk" "evs = [Done (no_id ord) (no_qty ord) Rejected n]"
  | fs ps where "\<not> refuses mk ord"
      "sweep (willing (no_kind ord) (no_side ord)) (no_qty ord) (mk (opposite (no_side ord))) = (fs, 0, ps)"
      "mk' = mk(opposite (no_side ord) := ps)"
      "evs = (Accepted (no_id ord) (no_qty ord) n # fill_events (no_id ord) (n + 1) fs) @
         [Done (no_id ord) 0 Filled (n + of_nat (Suc (length (fill_events (no_id ord) (n + 1) fs))))]"
  | fs r ps p where "\<not> refuses mk ord" "r \<noteq> 0" "leftover (no_kind ord) = Inl p"
      "sweep (willing (no_kind ord) (no_side ord)) (no_qty ord) (mk (opposite (no_side ord))) = (fs, r, ps)"
      "mk' = mk(opposite (no_side ord) := ps,
         no_side ord := enqueue (no_side ord) p \<lparr>o_id = no_id ord, o_qty = r, o_seq = n\<rparr> (mk (no_side ord)))"
      "evs = Accepted (no_id ord) (no_qty ord) n # fill_events (no_id ord) (n + 1) fs"
  | fs r ps reason where "\<not> refuses mk ord" "r \<noteq> 0" "leftover (no_kind ord) = Inr reason"
      "sweep (willing (no_kind ord) (no_side ord)) (no_qty ord) (mk (opposite (no_side ord))) = (fs, r, ps)"
      "mk' = mk(opposite (no_side ord) := ps)"
      "evs = (Accepted (no_id ord) (no_qty ord) n # fill_events (no_id ord) (n + 1) fs) @
         [Done (no_id ord) r reason (n + of_nat (Suc (length (fill_events (no_id ord) (n + 1) fs))))]"
proof (cases "refuses mk ord")
  case True
  with assms show thesis by (intro that(1)) (simp_all add: spec_accept_def)
next
  case False
  have ne: "opposite (no_side ord) \<noteq> no_side ord" by (cases "no_side ord") simp_all
  obtain fs r ps where sw: "sweep (willing (no_kind ord) (no_side ord)) (no_qty ord) (mk (opposite (no_side ord))) = (fs, r, ps)"
    by (metis prod_cases3)
  note spec = assms [unfolded spec_accept_def Let_def sw prod.case if_not_P [OF False]]
  show thesis
  proof (cases "r = 0")
    case True
    show thesis
      by (rule that(2) [OF False sw [unfolded True]]) (use spec True in \<open>simp_all\<close>)
  next
    case nz: False
    show thesis
    proof (cases "leftover (no_kind ord)")
      case (Inl p)
      show thesis
        by (rule that(3) [OF False nz Inl sw]) (use spec nz Inl ne in simp_all)
    next
      case (Inr reason)
      show thesis
        by (rule that(4) [OF False nz Inr sw]) (use spec nz Inr in simp_all)
    qed
  qed
qed

section \<open>The market is never crossed\<close>

definition uncrossed :: "market \<Rightarrow> bool" where
  "uncrossed mk \<longleftrightarrow> (\<forall>p \<in> fst ` set (mk Buy). \<forall>q \<in> fst ` set (mk Sell). p < q)"

lemma uncrossedD: "uncrossed mk \<Longrightarrow> (p, x) \<in> set (mk Buy) \<Longrightarrow> (q, y) \<in> set (mk Sell) \<Longrightarrow> p < q"
  by (force simp: uncrossed_def)

lemma uncrossed_shrink:
  "uncrossed mk \<Longrightarrow> (\<And>s. fst ` set (mk' s) \<subseteq> fst ` set (mk s)) \<Longrightarrow> uncrossed mk'"
  unfolding uncrossed_def by (metis subsetD)

lemma leftover_willing: "leftover k = Inl p \<Longrightarrow> willing k s q \<longleftrightarrow> within s p q"
  by (cases k) simp_all

lemma uncrossed_enqueue:
  assumes "uncrossed mk" "\<forall>e \<in> set (mk (opposite s)). \<not> within s p (fst e)"
  shows "uncrossed (mk(s := enqueue s p x (mk s)))"
  using assms by (cases s) (auto simp: uncrossed_def within_def not_le)

lemma uncrossed_accept:
  assumes "uncrossed mk" "\<And>s. price_sorted s (mk s)" "spec_accept ord n mk = (mk', evs)"
  shows "uncrossed mk'"
  using assms(3)
proof (cases rule: spec_accept_cases)
  case Refused
  with assms(1) show ?thesis by simp
next
  case (Filled fs ps)
  with sweep_prices [OF Filled(2)] show ?thesis
    by (intro uncrossed_shrink [OF assms(1)]) (simp split: if_splits)
next
  case (Leaves fs r ps reason)
  with sweep_prices [OF Leaves(4)] show ?thesis
    by (intro uncrossed_shrink [OF assms(1)]) (simp split: if_splits)
next
  case (Rests fs r ps p)
  let ?s = "no_side ord"
  let ?mk = "mk(opposite ?s := ps)"
  have "uncrossed ?mk"
    using sweep_prices [OF Rests(4)] by (intro uncrossed_shrink [OF assms(1)]) (simp split: if_splits)
  moreover have "\<forall>e \<in> set ps. \<not> within ?s p (fst e)"
    using sweep_residue [OF Rests(4,2) assms(2)] willing_mono [of "no_kind ord" ?s]
    by (simp add: leftover_willing [OF Rests(3)])
  moreover have "?mk ?s = mk ?s" by (cases ?s) simp_all
  ultimately show ?thesis
    using uncrossed_enqueue [of ?mk ?s p] unfolding Rests(5) by (simp del: fun_upd_apply add: fun_upd_same)
qed

lemma spec_cancel_queues:
  assumes "spec_cancel i n mk = (mk', evs)"
  shows "mk' = (\<lambda>s. filter (\<lambda>e. o_id (snd e) \<noteq> i) (mk s))"
proof (cases "List.find (\<lambda>e. o_id (snd e) = i) (mk Buy @ mk Sell)")
  case None
  then have "\<forall>e \<in> set (mk s). o_id (snd e) \<noteq> i" for s
    unfolding find_None_iff by (cases s) (metis Un_iff set_append)+
  with assms None show ?thesis by (simp add: spec_cancel_def fun_eq_iff filter_id_conv [THEN iffD2])
qed (use assms in \<open>simp add: spec_cancel_def\<close>)

lemma uncrossed_command:
  assumes "uncrossed mk" "\<And>s. price_sorted s (mk s)" "spec_command c n mk = (mk', evs)"
  shows "uncrossed mk'"
proof (cases c)
  case (New ord)
  with assms show ?thesis by (auto intro: uncrossed_accept)
next
  case (Cancel i)
  with assms(3) have "mk' = (\<lambda>s. filter (\<lambda>e. o_id (snd e) \<noteq> i) (mk s))"
    by (simp add: spec_cancel_queues)
  then show ?thesis by (intro uncrossed_shrink [OF assms(1)]) auto
qed

section \<open>Every unit of quantity is accounted for\<close>

text \<open>What a stream of events says was accepted, was traded, and was returned unfilled.\<close>

fun accepted_qty :: "event \<Rightarrow> nat" where
  "accepted_qty (Accepted i q sq) = unat q"
| "accepted_qty _ = 0"

fun traded_qty :: "event \<Rightarrow> nat" where
  "traded_qty (Trade t m p q sq) = unat q"
| "traded_qty _ = 0"

fun returned_qty :: "event \<Rightarrow> nat" where
  "returned_qty (Done i q r sq) = (if r = Rejected then 0 else unat q)"
| "returned_qty _ = 0"

abbreviation total :: "('a \<Rightarrow> nat) \<Rightarrow> 'a list \<Rightarrow> nat" where
  "total f xs \<equiv> sum_list (map f xs)"

lemma total_fill_events:
  "total accepted_qty (fill_events t n fs) = 0" "total returned_qty (fill_events t n fs) = 0"
  "total traded_qty (fill_events t n fs) = filled fs"
  by (induction t n fs rule: fill_events.induct) simp_all

definition balanced :: "market \<Rightarrow> event list \<Rightarrow> bool" where
  "balanced mk evs \<longleftrightarrow>
     total accepted_qty evs =
       volume (mk Buy) + volume (mk Sell) + 2 * total traded_qty evs + total returned_qty evs"

lemma balanced_accept:
  assumes "balanced mk out" "spec_accept ord n mk = (mk', evs)"
  shows "balanced mk' (out @ evs)"
  using assms(2)
proof (cases rule: spec_accept_cases)
  case Refused
  with assms(1) show ?thesis by (simp add: balanced_def)
next
  case (Filled fs ps)
  with assms(1) sweep_volume [OF Filled(2)] show ?thesis
    by (cases "no_side ord") (simp_all add: balanced_def total_fill_events)
next
  case (Leaves fs r ps reason)
  moreover have "reason \<noteq> Rejected" using Leaves(3) by (cases "no_kind ord") auto
  ultimately show ?thesis
    using assms(1) sweep_volume [OF Leaves(4)]
    by (cases "no_side ord") (simp_all add: balanced_def total_fill_events)
next
  case (Rests fs r ps p)
  with assms(1) sweep_volume [OF Rests(4)] show ?thesis
    by (cases "no_side ord") (simp_all add: balanced_def total_fill_events)
qed

definition ids :: "queue \<Rightarrow> order_id list" where
  "ids ps = map (o_id \<circ> snd) ps"

lemma ids_simps [simp]: "ids [] = []" "ids (e # ps) = o_id (snd e) # ids ps" "ids (ps @ ps') = ids ps @ ids ps'"
  by (simp_all add: ids_def)

lemma volume_filter_id:
  "distinct (ids ps) \<Longrightarrow> (p, x) \<in> set ps \<Longrightarrow>
     volume (filter (\<lambda>e. o_id (snd e) \<noteq> o_id x) ps) + unat (o_qty x) = volume ps"
proof (induction ps)
  case (Cons e ps)
  show ?case
  proof (cases "e = (p, x)")
    case True
    then have "filter (\<lambda>e. o_id (snd e) \<noteq> o_id x) ps = ps"
      using Cons.prems(1) by (force simp: ids_def filter_id_conv)
    with True show ?thesis by simp
  next
    case False
    then have "o_id (snd e) \<noteq> o_id x"
      using Cons.prems by (force simp: ids_def)
    with False Cons show ?thesis by simp
  qed
qed simp

lemma find_SomeD: "List.find P xs = Some e \<Longrightarrow> e \<in> set xs \<and> P e"
  by (induction xs) (auto split: if_splits)

lemma balanced_cancel:
  assumes "balanced mk out" "distinct (ids (mk Buy @ mk Sell))" "spec_cancel i n mk = (mk', evs)"
  shows "balanced mk' (out @ evs)"
proof (cases "List.find (\<lambda>e. o_id (snd e) = i) (mk Buy @ mk Sell)")
  case None
  with assms show ?thesis by (simp add: spec_cancel_def)
next
  case (Some e)
  then have e: "e \<in> set (mk Buy @ mk Sell)" "o_id (snd e) = i"
    using find_SomeD [OF Some] by simp_all
  then have "volume (filter (\<lambda>e. o_id (snd e) \<noteq> i) (mk Buy @ mk Sell)) + unat (o_qty (snd e)) =
      volume (mk Buy @ mk Sell)"
    using volume_filter_id [OF assms(2), of "fst e" "snd e"] by simp
  with Some assms(1,3) show ?thesis
    by (auto simp: spec_cancel_def balanced_def)
qed

lemma mset_flatten_rev: "mset (flatten (rev m)) = mset (flatten m)"
  by (induction m) auto

lemma distinct_ids_priority:
  assumes "book_inv b"
  shows "distinct (ids (priority b Buy @ priority b Sell))"
proof -
  have "mset (map r_id (iter_resting b)) = mset (ids (priority b Buy @ priority b Sell))"
    by (simp add: iter_resting_flatten ids_def priority_def walk_def comp_def mset_flatten_rev)
  then show ?thesis
    using iter_resting_ids_distinct [OF assms] by (metis mset_eq_imp_distinct_iff)
qed

section \<open>Price-time order\<close>

text \<open>Strictly better prices first, and strictly earlier sequence numbers first at one price.\<close>

definition before :: "side \<Rightarrow> price \<times> order \<Rightarrow> price \<times> order \<Rightarrow> bool" where
  "before s e e' \<longleftrightarrow> better s (fst e) (fst e') \<or> fst e = fst e' \<and> o_seq (snd e) < o_seq (snd e')"

definition price_time :: "side \<Rightarrow> queue \<Rightarrow> bool" where
  "price_time s ps \<longleftrightarrow> sorted_wrt (before s) ps"

definition seqs_below :: "sequence \<Rightarrow> queue \<Rightarrow> bool" where
  "seqs_below n ps \<longleftrightarrow> (\<forall>e \<in> set ps. o_seq (snd e) < n)"

lemma price_time_sweep:
  "sweep ok r ps = (fs, r', ps') \<Longrightarrow> price_time s ps \<Longrightarrow> seqs_below n ps \<Longrightarrow>
     price_time s ps' \<and> seqs_below n ps'"
  by (induction rule: sweep_outcome_induct) (auto simp: price_time_def seqs_below_def before_def)

lemma price_time_enqueue:
  assumes "price_time s ps" "seqs_below n ps" "price_sorted s ps" "o_seq x = n"
  shows "price_time s (enqueue s p x ps)"
proof -
  obtain as bs where ps: "ps = as @ bs" and eq: "enqueue s p x ps = as @ (p, x) # bs"
    and as: "\<And>e. e \<in> set as \<Longrightarrow> \<not> better s p (fst e)" and bs: "\<And>e. e \<in> set bs \<Longrightarrow> better s p (fst e)"
    by (rule enqueue_split [OF assms(3), of p x]) blast
  have "before s e (p, x)" if "e \<in> set as" for e
    using as [OF that] that assms(2,4) better_antisym [of s p "fst e"]
    by (auto simp: before_def seqs_below_def ps)
  moreover have "before s (p, x) e" if "e \<in> set bs" for e
    using bs [OF that] by (simp add: before_def)
  ultimately show ?thesis
    using assms(1) unfolding eq by (simp add: price_time_def sorted_wrt_append ps)
qed

lemma price_time_accept:
  assumes "\<And>s. price_time s (mk s) \<and> seqs_below n (mk s)" "\<And>s. price_sorted s (mk s)"
    "spec_accept ord n mk = (mk', evs)"
  shows "price_time s (mk' s) \<and> (\<forall>e \<in> set (mk' s). o_seq (snd e) \<le> n)"
proof -
  define ok where "ok s ps \<longleftrightarrow> price_time s ps \<and> (\<forall>e \<in> set ps. o_seq (snd e) \<le> n)" for s ps
  let ?s = "no_side ord"
  have ok: "ok s ps" if "price_time s ps" "seqs_below n ps" for s ps
    using that by (auto simp: seqs_below_def ok_def)
  have all: "ok s (mk s)" for s
    using assms(1) [of s] by (blast intro: ok)
  have opp: "ok (opposite ?s) ps"
    if "sweep (willing (no_kind ord) ?s) (no_qty ord) (mk (opposite ?s)) = (fs, r, ps)" for fs r ps
    using price_time_sweep [OF that] assms(1) [of "opposite ?s"] by (blast intro: ok)
  have "ok s (mk' s)"
    using assms(3)
  proof (cases rule: spec_accept_cases)
    case (Rests fs r ps p)
    have "ok ?s (enqueue ?s p \<lparr>o_id = no_id ord, o_qty = r, o_seq = n\<rparr> (mk ?s))"
      using price_time_enqueue [of ?s "mk ?s" n] assms(1,2) all [of ?s] by (simp add: ok_def)
    with all opp [OF Rests(4)] show ?thesis unfolding Rests(5) by simp
  qed (use all opp in simp_all)
  then show ?thesis by (simp add: ok_def)
qed

lemma price_time_command:
  assumes "\<And>s. price_time s (mk s) \<and> seqs_below n (mk s)" "\<And>s. price_sorted s (mk s)"
    "spec_command c n mk = (mk', evs)" "unat n + length evs < 2 ^ 64"
  shows "price_time s (mk' s) \<and> seqs_below (n + of_nat (length evs)) (mk' s)"
proof -
  have n': "unat (n + of_nat (length evs)) = unat n + length evs"
    using assms(4) by (simp add: unat_word_ariths unat_of_nat)
  show ?thesis
  proof (cases c)
    case (New ord)
    then have acc: "spec_accept ord n mk = (mk', evs)" using assms(3) by simp
    then have "evs \<noteq> []" by (cases rule: spec_accept_cases) simp_all
    then have "n < n + of_nat (length evs)" by (simp add: word_less_nat_alt n')
    with price_time_accept [OF assms(1,2) acc, of s] show ?thesis by (auto simp: seqs_below_def)
  next
    case (Cancel i)
    then have "mk' = (\<lambda>s. filter (\<lambda>e. o_id (snd e) \<noteq> i) (mk s))"
      using assms(3) by (simp add: spec_cancel_queues)
    moreover have "n \<le> n + of_nat (length evs)" by (simp add: word_le_nat_alt n')
    ultimately show ?thesis
      using assms(1) [of s] by (auto simp: price_time_def seqs_below_def sorted_wrt_filter)
  qed
qed

section \<open>Life cycles\<close>

text \<open>
  A monitor of the event stream: the open orders with what is left of each. An order is accepted
  only when its id is not open, trades only what it and its counterparty still have, and is done
  with exactly what it has left; a rejection touches nothing.
\<close>

type_synonym open_orders = "order_id \<rightharpoonup> qty"

fun observe :: "event \<Rightarrow> open_orders \<Rightarrow> open_orders option" where
  "observe (Accepted i q sq) op = (if q \<noteq> 0 \<and> op i = None then Some (op(i \<mapsto> q)) else None)"
| "observe (Trade t m p q sq) op =
     (case (op t, op m) of
        (Some a, Some b) \<Rightarrow>
          if t \<noteq> m \<and> q \<noteq> 0 \<and> q \<le> a \<and> q \<le> b then Some (op(t \<mapsto> a - q, m \<mapsto> b - q)) else None
      | _ \<Rightarrow> None)"
| "observe (Done i q reason sq) op =
     (if reason = Rejected then Some op
      else if op i = Some q \<and> (reason = Filled \<longrightarrow> q = 0) then Some (op(i := None)) else None)"

fun lifecycle :: "event list \<Rightarrow> open_orders \<Rightarrow> open_orders option" where
  "lifecycle [] op = Some op"
| "lifecycle (e # es) op = (case observe e op of None \<Rightarrow> None | Some op' \<Rightarrow> lifecycle es op')"

lemma lifecycle_append:
  "lifecycle (es @ es') op = (case lifecycle es op of None \<Rightarrow> None | Some op' \<Rightarrow> lifecycle es' op')"
  by (induction es arbitrary: op) (simp_all split: option.splits)

definition queue_open :: "queue \<Rightarrow> open_orders" where
  "queue_open ps = map_of (map (\<lambda>e. (o_id (snd e), o_qty (snd e))) ps)"

definition market_open :: "market \<Rightarrow> open_orders" where
  "market_open mk = queue_open (mk Buy @ mk Sell)"

lemma queue_open_simps [simp]:
  "queue_open [] = Map.empty" "queue_open (e # ps) = (queue_open ps)(o_id (snd e) \<mapsto> o_qty (snd e))"
  "queue_open (ps @ ps') = queue_open ps' ++ queue_open ps"
  by (simp_all add: queue_open_def)

lemma dom_queue_open [simp]: "dom (queue_open ps) = set (ids ps)"
  by (simp add: queue_open_def dom_map_of_conv_image_fst ids_def image_image)

lemma queue_open_None [simp]: "queue_open ps i = None \<longleftrightarrow> i \<notin> set (ids ps)"
  using dom_queue_open [of ps] by (simp add: domIff flip: dom_queue_open)

lemma market_open_sides:
  assumes "distinct (ids (mk Buy @ mk Sell))"
  shows "market_open mk = queue_open (mk s) ++ queue_open (mk (opposite s))"
proof -
  have "queue_open (mk Buy) ++ queue_open (mk Sell) = queue_open (mk Sell) ++ queue_open (mk Buy)"
    using assms by (intro map_add_comm) auto
  then show ?thesis by (cases s) (simp_all add: market_open_def)
qed

lemma dom_market_open: "dom (market_open mk) = {i. listed mk i}"
  by (auto simp: market_open_def listed_def ids_def)

lemma map_add_upd_dom: "i \<notin> dom g \<Longrightarrow> f(i \<mapsto> v) ++ g = (f ++ g)(i \<mapsto> v)"
  by (auto simp: map_add_def fun_eq_iff domIff split: option.splits)

text \<open>The fills of a sweep, seen by the monitor.\<close>

lemma lifecycle_sweep:
  assumes "sweep ok r ps = (fs, r', ps')" "distinct (ids ps)" "t \<notin> set (ids ps)"
    "dom A \<inter> set (ids ps) = {}" "\<forall>e \<in> set ps. o_qty (snd e) \<noteq> 0"
  shows "lifecycle (fill_events t n fs) ((A ++ queue_open ps)(t \<mapsto> r)) = Some ((A ++ queue_open ps')(t \<mapsto> r'))"
  using assms
proof (induction arbitrary: n rule: sweep_outcome_induct)
  case (Stop r ps)
  then show ?case by simp
next
  case (Whole r p x ps fs r' ps')
  let ?B = "A ++ queue_open ps"
  have x: "?B (o_id x) = None" "o_id x \<noteq> t"
    using Whole.prems by (auto simp: map_add_None)
  let ?M = "?B(o_id x \<mapsto> o_qty x, t \<mapsto> r)"
  have "(?M(t \<mapsto> r - o_qty x, o_id x \<mapsto> 0))(o_id x := None) = ?B(t \<mapsto> r - o_qty x)"
    using x by (intro ext) (simp del: map_add_None)
  moreover have "?M t = Some r" "?M (o_id x) = Some (o_qty x)" using x by simp_all
  ultimately have "lifecycle (fill_events t n ((p, x, o_qty x) # fs)) ?M =
      lifecycle (fill_events t (n + 2) fs) (?B(t \<mapsto> r - o_qty x))"
    using Whole.hyps(3) x(2) Whole.prems(4) by (simp del: fun_upd_apply add: fun_upd_same)
  also have "\<dots> = Some ((A ++ queue_open ps')(t \<mapsto> r'))"
    by (rule Whole.IH) (use Whole.prems in auto)
  finally show ?case by (simp del: fun_upd_apply fill_events.simps)
next
  case (Part r p x ps)
  let ?B = "A ++ queue_open ps"
  let ?M = "?B(o_id x \<mapsto> o_qty x, t \<mapsto> r)"
  have x: "o_id x \<noteq> t" "r \<noteq> o_qty x" using Part by auto
  then have "?M(t \<mapsto> 0, o_id x \<mapsto> o_qty x - r) = ?B(o_id x \<mapsto> o_qty x - r, t \<mapsto> 0)"
    by (intro ext) simp
  moreover have "?M t = Some r" "?M (o_id x) = Some (o_qty x)" using x by simp_all
  ultimately have "lifecycle (fill_events t n [(p, x, r)]) ?M = Some (?B(o_id x \<mapsto> o_qty x - r, t \<mapsto> 0))"
    using Part.hyps x by (simp del: fun_upd_apply add: fun_upd_same less_imp_le)
  then show ?case by (simp del: fun_upd_apply fill_events.simps)
qed

lemma queue_open_enqueue:
  assumes "o_id x \<notin> set (ids ps)"
  shows "queue_open (enqueue s p x ps) = (queue_open ps)(o_id x \<mapsto> o_qty x)"
proof -
  let ?P = "\<lambda>e. \<not> better s p (fst e)"
  have split: "takeWhile ?P ps @ dropWhile ?P ps = ps" by simp
  then have "o_id x \<notin> set (ids (takeWhile ?P ps))"
    using assms by (metis ids_simps(3) set_append UnI1)
  then have "queue_open (enqueue s p x ps) =
      (queue_open (dropWhile ?P ps) ++ queue_open (takeWhile ?P ps))(o_id x \<mapsto> o_qty x)"
    by (simp add: enqueue_def map_add_upd_dom del: fun_upd_apply)
  also have "queue_open (dropWhile ?P ps) ++ queue_open (takeWhile ?P ps) = queue_open ps"
    by (metis queue_open_simps(3) split)
  finally show ?thesis .
qed

lemma lifecycle_accept:
  assumes ids: "distinct (ids (mk Buy @ mk Sell))" and pos: "\<And>s e. e \<in> set (mk s) \<Longrightarrow> o_qty (snd e) \<noteq> 0"
    and acc: "spec_accept ord n mk = (mk', evs)" and ids': "distinct (ids (mk' Buy @ mk' Sell))"
  shows "lifecycle evs (market_open mk) = Some (market_open mk')"
proof (cases "refuses mk ord")
  case True
  with acc show ?thesis by (auto simp: spec_accept_def)
next
  case False
  let ?s = "no_side ord" and ?i = "no_id ord" and ?A = "queue_open (mk (no_side ord))"
  obtain fs r ps where sw: "sweep (willing (no_kind ord) ?s) (no_qty ord) (mk (opposite ?s)) = (fs, r, ps)"
    by (metis prod_cases3)
  have "set (ids (mk Buy @ mk Sell)) = set (ids (mk ?s)) \<union> set (ids (mk (opposite ?s)))"
    by (cases ?s) auto
  then have new: "?i \<notin> set (ids (mk ?s))" "?i \<notin> set (ids (mk (opposite ?s)))" "no_qty ord \<noteq> 0"
    using False by (auto simp: refuses_def listed_def ids_def)
  have disj: "distinct (ids (mk (opposite ?s)))" "set (ids (mk ?s)) \<inter> set (ids (mk (opposite ?s))) = {}"
    using ids by (cases ?s; auto)+
  have start: "market_open mk = ?A ++ queue_open (mk (opposite ?s))"
    by (rule market_open_sides [OF ids])
  have "lifecycle (Accepted ?i (no_qty ord) n # fill_events ?i (n + 1) fs) (market_open mk) =
      lifecycle (fill_events ?i (n + 1) fs) ((?A ++ queue_open (mk (opposite ?s)))(?i \<mapsto> no_qty ord))"
    using new by (simp add: start map_add_None)
  also have "\<dots> = Some ((?A ++ queue_open ps)(?i \<mapsto> r))"
    by (rule lifecycle_sweep [OF sw disj(1) new(2)]) (use disj pos in simp_all)
  finally have mid: "lifecycle (Accepted ?i (no_qty ord) n # fill_events ?i (n + 1) fs) (market_open mk) =
      Some ((?A ++ queue_open ps)(?i \<mapsto> r))" .
  have unseen: "(?A ++ queue_open ps) ?i = None"
    using new sweep_ids [OF sw] by (auto simp: map_add_None ids_def)
  have last: "lifecycle ((Accepted ?i (no_qty ord) n # fill_events ?i (n + 1) fs) @ [Done ?i r reason sq])
      (market_open mk) = Some (?A ++ queue_open ps)"
    if "reason \<noteq> Rejected" "reason = Filled \<Longrightarrow> r = 0" for reason sq
    using that unseen unfolding lifecycle_append mid
    by (simp add: fun_upd_idem del: map_add_None fun_upd_apply) (simp add: fun_upd_apply)
  have finish: "market_open mk' = queue_open (mk' ?s) ++ queue_open (mk' (opposite ?s))"
    by (rule market_open_sides [OF ids'])
  have other: "opposite ?s \<noteq> ?s" by (cases ?s) simp_all
  show ?thesis
    using acc
  proof (cases rule: spec_accept_cases)
    case Refused
    with False show ?thesis by simp
  next
    case (Filled fs' ps')
    then have "fs' = fs" "ps' = ps" "r = 0" using sw by simp_all
    with Filled(3) last [of Filled] finish other show ?thesis unfolding Filled(4) by simp
  next
    case (Leaves fs' r' ps' reason)
    then have eqs: "fs' = fs" "ps' = ps" "r' = r" using sw by simp_all
    have "reason \<noteq> Rejected" "reason \<noteq> Filled" using Leaves(3) by (cases "no_kind ord"; auto)+
    with eqs Leaves(5) last [of reason] finish other show ?thesis unfolding Leaves(6) by simp
  next
    case (Rests fs' r' ps' p)
    then have "fs' = fs" "ps' = ps" "r' = r" using sw by simp_all
    with Rests(5,6) mid finish other new unseen show ?thesis
      by (simp add: queue_open_enqueue map_add_upd_dom map_add_None del: fun_upd_apply lifecycle.simps
          add: fun_upd_same fun_upd_other)
  qed
qed

lemma queue_open_filter: "queue_open (filter (\<lambda>e. o_id (snd e) \<noteq> i) ps) = (queue_open ps)(i := None)"
  by (induction ps) (auto simp: fun_eq_iff)

lemma map_add_delete: "(f ++ g)(i := None) = f(i := None) ++ g(i := None)"
  by (intro ext) (simp add: map_add_def split: option.split)

lemma lifecycle_cancel:
  assumes "distinct (ids (mk Buy @ mk Sell))" "spec_cancel i n mk = (mk', evs)"
  shows "lifecycle evs (market_open mk) = Some (market_open mk')"
proof (cases "List.find (\<lambda>e. o_id (snd e) = i) (mk Buy @ mk Sell)")
  case None
  with assms show ?thesis by (simp add: spec_cancel_def)
next
  case (Some e)
  have mk': "market_open mk' = (market_open mk)(i := None)"
    using spec_cancel_queues [OF assms(2)]
    by (simp add: market_open_def queue_open_filter map_add_delete)
  have "(i, o_qty (snd e)) \<in> set (map (\<lambda>e. (o_id (snd e), o_qty (snd e))) (mk Buy @ mk Sell))"
    using find_SomeD [OF Some] by (force simp del: set_append map_append)
  then have "market_open mk i = Some (o_qty (snd e))"
    using assms(1) unfolding market_open_def queue_open_def
    by (intro map_of_is_SomeI) (simp_all add: ids_def comp_def)
  with Some assms(2) mk' show ?thesis by (auto simp: spec_cancel_def)
qed

section \<open>What holds after every run\<close>

lemma priority_qty: "book_inv b \<Longrightarrow> e \<in> set (priority b s) \<Longrightarrow> o_qty (snd e) \<noteq> 0"
  using set_priority [OF book_invD(1), of b "fst e" "snd e" s] book_invD(3) [of b "snd e" s "fst e"] by simp

lemma spec_command_book:
  assumes "book_inv b" "spec_command c n (priority b) = (mk, evs)"
  obtains b' where "book_inv b'" "mk = priority b'"
proof -
  let ?m = "\<lparr>m_book = b, m_seq = \<lparr>gen_next = n\<rparr>\<rparr>"
  have "refines (?m, []) (apply_command c (?m, [])) (spec_command c)"
    using assms(1) by (intro command_refines) simp
  then have "priority (m_book (fst (apply_command c (?m, [])))) = mk" "book_inv (m_book (fst (apply_command c (?m, []))))"
    using assms(2) by (simp_all add: refines_def peek_seq_def seq_peek_def)
  then show thesis by (intro that [OF _ sym])
qed

lemma run_inv [inv_intros]:
  "book_inv (m_book (fst st)) \<Longrightarrow> book_inv (m_book (fst (run_commands cs st)))"
  using mt.inv_run [of st cs] by (simp add: run_commands_def st_inv_def)

lemma new_inv [inv_intros, simp]: "book_inv (m_book (fst (run_commands cs (matcher_new, out))))"
  using new_state(1) [of out] by (intro run_inv) (simp add: st_inv_def)

lemma run_uncrossed: "uncrossed (priority (m_book (fst (run_commands cs (matcher_new, out)))))"
proof (rule run_market_rule [of _ "\<lambda>mk n out. uncrossed mk"])
  show "uncrossed (priority (m_book (fst (matcher_new, out))))"
    using new_state(2) [of out] by (simp add: abs_state_def uncrossed_def)
  show "uncrossed mk" if "book_inv b" "uncrossed (priority b)" "spec_command c n (priority b) = (mk, evs)"
    for b c n mk evs
    using that by (auto intro: uncrossed_command price_sorted_priority book_invD)
qed simp

lemma run_balanced:
  "balanced (priority (m_book (fst (run_commands cs (matcher_new, []))))) (snd (run_commands cs (matcher_new, [])))"
proof (rule run_market_rule [of _ "\<lambda>mk n out. balanced mk out"])
  show "balanced (priority (m_book (fst (matcher_new, [])))) (snd (matcher_new, []))"
    using new_state(2) [of "[]"] by (simp add: abs_state_def balanced_def)
  show "balanced mk (out @ evs)"
    if "book_inv b" "balanced (priority b) out" "spec_command c n (priority b) = (mk, evs)" for b c n out mk evs
    using that balanced_accept balanced_cancel distinct_ids_priority by (cases c) auto
qed simp

lemma lifecycle_command:
  assumes b: "book_inv b" and c: "spec_command c n (priority b) = (mk, evs)"
  shows "lifecycle evs (market_open (priority b)) = Some (market_open mk)"
proof -
  obtain b' where b': "book_inv b'" "mk = priority b'" by (rule spec_command_book [OF b c])
  show ?thesis
  proof (cases c)
    case (New ord)
    then show ?thesis
      using c b' distinct_ids_priority [OF b] distinct_ids_priority [OF b'(1)] priority_qty [OF b]
      by (intro lifecycle_accept) auto
  next
    case (Cancel i)
    with c distinct_ids_priority [OF b] show ?thesis by (intro lifecycle_cancel) auto
  qed
qed

lemma run_lifecycle:
  "lifecycle (snd (run_commands cs (matcher_new, []))) Map.empty =
     Some (market_open (priority (m_book (fst (run_commands cs (matcher_new, []))))))"
proof (rule run_market_rule [of _ "\<lambda>mk n out. lifecycle out Map.empty = Some (market_open mk)"])
  show "lifecycle (snd (matcher_new, [])) Map.empty = Some (market_open (priority (m_book (fst (matcher_new, [])))))"
    using new_state(2) [of "[]"] by (simp add: abs_state_def market_open_def)
  show "lifecycle (out @ evs) Map.empty = Some (market_open mk)"
    if "book_inv b" "lifecycle out Map.empty = Some (market_open (priority b))" "spec_command c n (priority b) = (mk, evs)"
    for b c n out mk evs
    using that lifecycle_command by (simp add: lifecycle_append)
qed simp

lemma run_price_time:
  assumes "length (snd (run_commands cs (matcher_new, []))) < 2 ^ 64 - 1"
  shows "price_time s (priority (m_book (fst (run_commands cs (matcher_new, [])))) s)"
proof -
  let ?P = "\<lambda>mk n out. length out < 2 ^ 64 - 1 \<longrightarrow>
    unat n = Suc (length out) \<and> (\<forall>s. price_time s (mk s) \<and> seqs_below n (mk s))"
  let ?st = "run_commands cs (matcher_new, [])"
  have "?P (priority (m_book (fst ?st))) (peek_seq (fst ?st)) (snd ?st)"
  proof (rule run_market_rule [of _ ?P])
    show "?P (priority (m_book (fst (matcher_new, [])))) (peek_seq (fst (matcher_new, []))) (snd (matcher_new, []))"
      using new_state(2) [of "[]"] by (simp add: abs_state_def price_time_def seqs_below_def)
    show "?P mk (n + of_nat (length evs)) (out @ evs)"
      if b: "book_inv b" and P: "?P (priority b) n out" and c: "spec_command c n (priority b) = (mk, evs)"
      for b c n out mk evs
    proof
      assume len: "length (out @ evs) < 2 ^ 64 - 1"
      with P have n: "unat n = Suc (length out)" "\<And>s. price_time s (priority b s) \<and> seqs_below n (priority b s)"
        by auto
      then have "unat n + length evs < 2 ^ 64" using len by simp
      with price_time_command [OF n(2) _ c] price_sorted_priority [OF book_invD(1) [OF b]] n(1)
      show "unat (n + of_nat (length evs)) = Suc (length (out @ evs)) \<and>
          (\<forall>s. price_time s (mk s) \<and> seqs_below (n + of_nat (length evs)) (mk s))"
        by (simp add: unat_word_ariths unat_of_nat)
    qed
  qed simp
  with assms show ?thesis by blast
qed

text \<open>The orders a book lists are those of the two queues.\<close>

lemma iter_resting_priority:
  "mset (iter_resting b) =
     mset (map (\<lambda>e. resting_of Buy (fst e) (snd e)) (priority b Buy) @
           map (\<lambda>e. resting_of Sell (fst e) (snd e)) (priority b Sell))"
  by (simp add: iter_resting_flatten priority_def walk_def mset_flatten_rev)

end
