(* ===== verification/Matching_Guarantees.thy ===== *)
theory Matching_Guarantees
  imports Market_Laws
begin

text \<open>
  The guarantees of the matching engine, stated over the code's own functions: \<open>accept\<close>,
  \<open>matcher_cancel\<close>, \<open>run_commands\<close> and the public view of the book (\<open>iter_resting\<close>,
  \<open>best_bid\<close>, \<open>best_ask\<close>, \<open>book_contains\<close>). Each follows from the simulation by the
  specification; the concrete runs below them show that the hypotheses can hold.
\<close>

section \<open>Concrete runs\<close>

definition sample :: "order_id \<Rightarrow> side \<Rightarrow> qty \<Rightarrow> order_kind \<Rightarrow> new_order" where
  "sample i s q k = \<lparr>no_id = i, no_side = s, no_qty = q, no_kind = k, no_timestamp = 0\<rparr>"

definition sample_run :: "command list" where
  "sample_run =
     [New (sample 1 Buy 5 (Limit (Price 10))), New (sample 2 Sell 7 (Limit (Price 20))),
      New (sample 3 Sell 4 (Limit (Price 20))), New (sample 4 Buy 8 (Limit (Price 15)))]"

definition sample_st :: "matcher \<times> event list" where
  "sample_st = run_commands sample_run (matcher_new, [])"

lemma sample_inv: "book_inv (m_book (fst sample_st))"
  by (simp add: sample_st_def)

section \<open>The specification, step by step\<close>

lemma accept_spec:
  assumes "book_inv (m_book m)"
  obtains mk evs where "spec_accept ord (peek_seq m) (priority (m_book m)) = (mk, evs)"
    "snd (accept ord (m, out)) = out @ evs" "priority (m_book (fst (accept ord (m, out)))) = mk"
    "book_inv (m_book (fst (accept ord (m, out))))"
  using accept_refines [of "(m, out)" ord] assms
  by (cases "spec_accept ord (peek_seq m) (priority (m_book m))") (simp add: refines_def)

lemma same_queues: "book_inv b \<Longrightarrow> book_inv b' \<Longrightarrow> priority b = priority b' \<Longrightarrow> b = b'"
  using priority_level [OF book_invD(1), of b] priority_level [OF book_invD(1), of b']
  by (intro book_ext) (simp_all add: fun_eq_iff)

lemma total_mset: "mset xs = mset ys \<Longrightarrow> total f xs = total f ys"
  by (metis mset_map sum_mset_sum_list)

lemma volume_iter_resting:
  "total (\<lambda>r. unat (r_qty r)) (iter_resting b) = volume (priority b Buy) + volume (priority b Sell)"
  using total_mset [OF iter_resting_priority, of "\<lambda>r. unat (r_qty r)" b]
  by (simp add: volume_def comp_def)

definition resting_qty :: "book \<Rightarrow> order_id \<Rightarrow> qty option" where
  "resting_qty b = map_of (map (\<lambda>r. (r_id r, r_qty r)) (iter_resting b))"

lemma market_open_resting:
  assumes "book_inv b"
  shows "market_open (priority b) = resting_qty b"
proof -
  let ?f = "\<lambda>r. (r_id r, r_qty r)" and ?g = "\<lambda>e. (o_id (snd e), o_qty (snd e))"
  have "mset (map ?f (iter_resting b)) = mset (map ?g (priority b Buy @ priority b Sell))"
    using arg_cong [OF iter_resting_priority [of b], of "image_mset ?f"]
    by (simp add: image_mset.compositionality comp_def)
  then have "set (map ?f (iter_resting b)) = set (map ?g (priority b Buy @ priority b Sell))"
    by (rule mset_eq_setD)
  then show ?thesis
    using iter_resting_ids_distinct [OF assms] distinct_ids_priority [OF assms]
    unfolding market_open_def queue_open_def resting_qty_def
    by (subst map_of_inject_set) (simp_all add: comp_def ids_def)
qed

lemma queue_open_find: "queue_open ps i = map_option (o_qty \<circ> snd) (List.find (\<lambda>e. o_id (snd e) = i) ps)"
  by (induction ps) auto

lemma sweep_filled_eligible:
  "sweep ok r ps = (fs, r', ps') \<Longrightarrow> filled fs = min (unat r) (eligible_qty ok ps)"
proof (induction rule: sweep_outcome_induct)
  case (Stop r ps)
  then show ?case by (cases ps) (auto simp: eligible_qty_def)
qed (auto simp: eligible_qty_def unat_sub word_le_nat_alt word_less_nat_alt)

lemma fill_events_trade:
  "Trade t m p q sq \<in> set (fill_events i n fs) \<Longrightarrow> t = i \<and> (\<exists>x. o_id x = m \<and> (p, x, q) \<in> set fs)"
  by (induction i n fs rule: fill_events.induct) (auto split: if_splits)

lemma seqs_numbered: "numbered n es \<longleftrightarrow> map event_seq es = map (\<lambda>k. n + of_nat k) [0..<length es]"
proof (induction es arbitrary: n)
  case (Cons e es)
  have "map (\<lambda>k. n + of_nat k) [0..<Suc (length es)] = n # map (\<lambda>k. n + 1 + of_nat k) [0..<length es]"
    by (subst upt_conv_Cons) (simp_all add: map_Suc_upt [symmetric] comp_def algebra_simps del: upt_Suc)
  with Cons show ?case by auto
qed simp

lemma eligible_filter:
  assumes "price_sorted s ps" "\<And>p q. ok q \<Longrightarrow> \<not> better s q p \<Longrightarrow> ok p"
  shows "eligible_qty ok ps = total (\<lambda>e. unat (o_qty (snd e))) (filter (\<lambda>e. ok (fst e)) ps)"
proof -
  have "takeWhile (\<lambda>e. ok (fst e)) ps = filter (\<lambda>e. ok (fst e)) ps"
    using assms(1)
  proof (induction ps)
    case (Cons e ps)
    have "filter (\<lambda>e. ok (fst e)) ps = []" if "\<not> ok (fst e)"
      using that assms(2) Cons.prems by (fastforce simp: price_sorted_def filter_empty_conv)
    with Cons show ?case by (simp add: price_sorted_def)
  qed simp
  then show ?thesis by (simp add: eligible_qty_def)
qed

text \<open>The total quantity resting on a side at prices that satisfy a condition.\<close>

definition liquidity :: "book \<Rightarrow> side \<Rightarrow> (price \<Rightarrow> bool) \<Rightarrow> nat" where
  "liquidity b s ok = (\<Sum>r\<leftarrow>iter_resting b. if r_side r = s \<and> ok (r_price r) then unat (r_qty r) else 0)"

lemma total_filter: "total f (filter P xs) = total (\<lambda>x. if P x then f x else 0) xs"
  by (induction xs) simp_all

lemma eligible_liquidity:
  assumes "levels_inv b" "\<And>p q. ok q \<Longrightarrow> \<not> better s q p \<Longrightarrow> ok p"
  shows "eligible_qty ok (priority b s) = liquidity b s ok"
proof -
  have zero: "total (\<lambda>_. 0) xs = 0" for xs by (induction xs) simp_all
  have "liquidity b s ok = total (\<lambda>r. if r_side r = s \<and> ok (r_price r) then unat (r_qty r) else 0)
      (map (\<lambda>e. resting_of Buy (fst e) (snd e)) (priority b Buy) @
       map (\<lambda>e. resting_of Sell (fst e) (snd e)) (priority b Sell))"
    unfolding liquidity_def by (rule total_mset [OF iter_resting_priority])
  also have "\<dots> = total (\<lambda>e. unat (o_qty (snd e))) (filter (\<lambda>e. ok (fst e)) (priority b s))"
    by (cases s) (simp_all add: total_filter comp_def zero cong: if_cong)
  finally show ?thesis
    using eligible_filter [OF price_sorted_priority [OF assms(1)] assms(2)] by simp
qed

lemma willing_liquidity:
  "levels_inv b \<Longrightarrow> eligible_qty (willing k s) (priority b (opposite s)) = liquidity b (opposite s) (willing k s)"
  using willing_mono [of k s] by (intro eligible_liquidity) blast+

lemma member_resting:
  "levels_inv b \<Longrightarrow> (p, x) \<in> set (priority b s) \<longleftrightarrow> resting_of s p x \<in> set (iter_resting b)"
  by (auto simp: set_priority set_iter_resting) (metis resting_of_simps)

text \<open>Cancelling filters the iteration over the resting orders.\<close>

lemma flatten_level:
  "levels_inv b \<Longrightarrow> filter (\<lambda>e. fst e = p) (flatten (side_map b s)) = map (Pair p) (level_at b s p)"
  by (simp add: filter_flatten bt.iter_keys_distinct levels_invD level_at_def split: option.splits)

lemma level_at_cancel:
  assumes "book_inv b"
  shows "level_at (snd (book_cancel i b)) s p = filter (\<lambda>x. o_id x \<noteq> i) (level_at b s p)"
proof -
  have "level_at (snd (book_cancel i b)) s p =
      map snd (filter (\<lambda>e. fst e = p) (filter (\<lambda>e. o_id (snd e) \<noteq> i) (priority b s)))"
    using priority_level [OF book_invD(1) [OF book_inv_cancel [OF assms]], of p i s] priority_cancel [OF assms]
    by simp
  also have "\<dots> = map snd (filter (\<lambda>e. o_id (snd e) \<noteq> i) (filter (\<lambda>e. fst e = p) (priority b s)))"
    by (simp add: conj_commute)
  also have "\<dots> = filter (\<lambda>x. o_id x \<noteq> i) (level_at b s p)"
    unfolding priority_level [OF book_invD(1) [OF assms], symmetric] by (simp add: filter_map comp_def)
  finally show ?thesis .
qed

lemma iter_resting_cancel:
  assumes "book_inv b"
  shows "iter_resting (snd (book_cancel i b)) = filter (\<lambda>r. r_id r \<noteq> i) (iter_resting b)"
proof -
  let ?b = "snd (book_cancel i b)"
  have lv: "levels_inv b" "levels_inv ?b"
    using assms book_inv_cancel [OF assms] by (simp_all add: book_invD)
  have sorted: "price_sorted Sell (flatten (side_map b' s))" if "levels_inv b'" for b' s
    using bt.iter_sorted [OF levels_invD(1) [OF that], of s]
    by (intro price_sorted_flatten) (simp add: better_eqs)
  have "flatten (side_map ?b s) = filter (\<lambda>e. o_id (snd e) \<noteq> i) (flatten (side_map b s))" for s
  proof (rule price_sorted_ext [of Sell])
    show "price_sorted Sell (filter (\<lambda>e. o_id (snd e) \<noteq> i) (flatten (side_map b s)))"
      using sorted [OF lv(1), of s] by (simp add: price_sorted_def sorted_wrt_filter)
    fix p
    have "filter (\<lambda>e. fst e = p) (filter (\<lambda>e. o_id (snd e) \<noteq> i) (flatten (side_map b s))) =
        filter (\<lambda>e. o_id (snd e) \<noteq> i) (filter (\<lambda>e. fst e = p) (flatten (side_map b s)))"
      by (simp add: conj_commute)
    then show "filter (\<lambda>e. fst e = p) (flatten (side_map ?b s)) =
        filter (\<lambda>e. fst e = p) (filter (\<lambda>e. o_id (snd e) \<noteq> i) (flatten (side_map b s)))"
      unfolding flatten_level [OF lv(1)] flatten_level [OF lv(2)] level_at_cancel [OF assms]
      by (simp add: filter_map comp_def)
  qed (rule sorted [OF lv(2)])
  from this [of Buy] this [of Sell] show ?thesis
    by (simp add: iter_resting_flatten filter_map comp_def)
qed

text \<open>When \<open>accept\<close> refuses, over the resting orders.\<close>

definition refusal :: "book \<Rightarrow> new_order \<Rightarrow> bool" where
  "refusal b ord \<longleftrightarrow>
     no_qty ord = 0 \<or> book_contains b (no_id ord) \<or>
     (case no_kind ord of
        PostOnly p \<Rightarrow> liquidity b (opposite (no_side ord)) (within (no_side ord) p) \<noteq> 0
      | Fok p \<Rightarrow> liquidity b (opposite (no_side ord)) (within (no_side ord) p) < unat (no_qty ord)
      | _ \<Rightarrow> False)"

lemma refusal_refuses:
  assumes "book_inv b"
  shows "refusal b ord \<longleftrightarrow> refuses (priority b) ord"
proof -
  let ?s = "no_side ord" and ?ps = "priority b (opposite (no_side ord))"
  have "willing (Limit p) s = within s p" for p s by (simp add: fun_eq_iff)
  then have lq: "liquidity b (opposite ?s) (within ?s p) = eligible_qty (within ?s p) ?ps" for p
    using willing_liquidity [OF book_invD(1) [OF assms], of "Limit p" ?s] by simp
  have "eligible_qty (within ?s p) ?ps \<noteq> 0 \<longleftrightarrow> ?ps \<noteq> [] \<and> within ?s p (fst (hd ?ps))" for p
    using priority_qty [OF assms, of "hd ?ps" "opposite ?s"]
    by (cases ?ps) (auto simp: eligible_qty_def unat_eq_0 unat_gt_0 simp del: sum_list_eq_0_iff)
  then show ?thesis
    by (simp add: refusal_def refuses_def lq contains_listed [OF assms] split: order_kind.split)
qed

section \<open>Well-formed events\<close>

fun event_wf :: "event \<Rightarrow> bool" where
  "event_wf (Accepted i q sq) \<longleftrightarrow> q \<noteq> 0"
| "event_wf (Trade t m p q sq) \<longleftrightarrow> t \<noteq> m \<and> q \<noteq> 0"
| "event_wf (Done i q r sq) \<longleftrightarrow> r = Rejected \<or> (q = 0 \<longleftrightarrow> r = Filled)"

text \<open>What the monitor of life cycles does not see: an order that ends unfilled returns something.\<close>

fun returns_some :: "event \<Rightarrow> bool" where
  "returns_some (Done i q r sq) \<longleftrightarrow> r = Filled \<or> r = Rejected \<or> q \<noteq> 0"
| "returns_some _ \<longleftrightarrow> True"

lemma lifecycle_wf: "lifecycle es op = Some op' \<Longrightarrow> list_all returns_some es \<Longrightarrow> list_all event_wf es"
proof (induction es arbitrary: op)
  case (Cons e es)
  then obtain op1 where "observe e op = Some op1" "lifecycle es op1 = Some op'" by (auto split: option.splits)
  with Cons show ?case by (cases e) (auto split: option.splits if_splits)
qed simp

lemma fill_events_return: "list_all returns_some (fill_events i n fs)"
  by (induction i n fs rule: fill_events.induct) simp_all

lemma command_returns:
  assumes "book_inv b" "spec_command c n (priority b) = (mk, evs)"
  shows "list_all returns_some evs"
proof (cases c)
  case (New ord)
  then have "spec_accept ord n (priority b) = (mk, evs)" using assms(2) by simp
  then show ?thesis by (cases rule: spec_accept_cases) (simp_all add: fill_events_return)
next
  case (Cancel i)
  have "o_qty (snd e) \<noteq> 0" if "List.find P (priority b Buy @ priority b Sell) = Some e" for P e
  proof -
    have "e \<in> set (priority b Buy @ priority b Sell)" using that by (metis find_Some_iff nth_mem)
    then show ?thesis using priority_qty [OF assms(1), of e] by auto
  qed
  with Cancel assms(2) show ?thesis by (auto simp: spec_cancel_def split: option.splits)
qed

section \<open>Claims\<close>

text \<open>C1. The matcher implements the price-time specification: from any book that satisfies the
  invariant, every sequence of commands leaves exactly the queues, the next sequence number and the
  events (makers, prices, quantities, order and numbering) that the abstract market prescribes, in
  which a taker sweeps the opposite queue best price first and earliest first.\<close>

theorem matcher_refines_price_time:
  assumes "book_inv (m_book m)"
  shows "abs_state (run_commands cs (m, out)) = fold spec_step cs (priority (m_book m), peek_seq m, out)"
  using mt.abs_run [of "(m, out)" cs] assms by (simp add: run_commands_def abs_state_def st_inv_def)

theorem matcher_refines_price_time_witness:
  "abs_state (run_commands sample_run (matcher_new, [])) = fold spec_step sample_run (\<lambda>_. [], 1, []) \<and>
   snd (snd (fold spec_step (sample_run @ [New (sample 5 Sell 9 Market)]) (\<lambda>_. [], 1, []))) =
     [Accepted 1 5 1, Accepted 2 7 2, Accepted 3 4 3, Accepted 4 8 4, Accepted 5 9 5,
      Trade 5 4 (Price 15) 8 6, Done 4 0 Filled 7, Trade 5 1 (Price 10) 1 8, Done 5 0 Filled 9]"
proof
  show "abs_state (run_commands sample_run (matcher_new, [])) = fold spec_step sample_run (\<lambda>_. [], 1, [])"
    using matcher_refines_price_time [of matcher_new sample_run "[]"] new_state(2) [of "[]"]
    by (simp add: matcher_new_def abs_state_def)
qed code_simp

text \<open>C5. The book is never crossed: after every sequence of commands from an empty matcher, the
  best bid is below the best ask.\<close>

theorem book_never_crossed:
  assumes "best_bid (m_book (fst (run_commands cs (matcher_new, out)))) = Some p"
    "best_ask (m_book (fst (run_commands cs (matcher_new, out)))) = Some q"
  shows "p < q"
proof -
  let ?b = "m_book (fst (run_commands cs (matcher_new, out)))"
  have lv: "levels_inv ?b" by (simp add: book_invD)
  obtain x ps where "priority ?b Buy = (p, x) # ps"
    using best_of_priority [OF lv, of Buy] assms(1) by (auto simp: best_of_def split: list.splits)
  moreover obtain y qs where "priority ?b Sell = (q, y) # qs"
    using best_of_priority [OF lv, of Sell] assms(2) by (auto simp: best_of_def split: list.splits)
  ultimately show ?thesis
    using uncrossedD [OF run_uncrossed [of cs out], of p x q y] by simp
qed

theorem book_never_crossed_witness:
  "best_bid (m_book (fst (run_commands sample_run (matcher_new, [])))) = Some (Price 15) \<and>
   best_ask (m_book (fst (run_commands sample_run (matcher_new, [])))) = Some (Price 20) \<and> Price 15 < Price 20"
proof -
  have "best_bid (m_book (fst (run_commands sample_run (matcher_new, [])))) = Some (Price 15)" by code_simp
  moreover have "best_ask (m_book (fst (run_commands sample_run (matcher_new, [])))) = Some (Price 20)" by code_simp
  ultimately show ?thesis using book_never_crossed [of sample_run "[]" "Price 15" "Price 20"] by blast
qed

text \<open>C6. No quantity is created or lost: after every sequence of commands, the quantity accepted
  is the quantity resting in the book, plus twice the quantity traded (a trade consumes both
  sides), plus the quantity returned by cancels, expiries and missing liquidity.\<close>

theorem quantity_conserved:
  "let (m, evs) = run_commands cs (matcher_new, [])
   in total accepted_qty evs =
        total (\<lambda>r. unat (r_qty r)) (iter_resting (m_book m)) + 2 * total traded_qty evs + total returned_qty evs"
  using run_balanced [of cs] by (simp add: split_beta volume_iter_resting balanced_def)

text \<open>C7. Every order goes through one legal life cycle, and the stream of events determines the
  open quantities of the book: the monitor that replays the events accepts every one of them
  (accepted once while not open, trades within what both parties have left, done exactly with what
  is left) and ends with precisely the ids and quantities resting in the book.\<close>

theorem lifecycle_consistent:
  "let (m, evs) = run_commands cs (matcher_new, [])
   in lifecycle evs Map.empty = Some (resting_qty (m_book m))"
  using run_lifecycle [of cs] by (simp add: split_beta market_open_resting)

text \<open>C12. Every event is well formed: an order is accepted with something to trade, a trade is between two
  different orders and of a positive quantity, and an order is done with nothing left exactly when it is filled
  (a rejection gives back whatever was submitted).\<close>

theorem events_well_formed: "list_all event_wf (snd (run_commands cs (matcher_new, [])))"
proof (rule lifecycle_wf [OF run_lifecycle])
  have "st_inv (matcher_new, [])" by simp
  then show "list_all returns_some (snd (run_commands cs (matcher_new, [])))"
    by (rule run_market_rule [of _ "\<lambda>mk n out. list_all returns_some out"]) (simp_all add: command_returns)
qed

text \<open>C13. Events are numbered without gaps or repetitions from the number the matcher starts with,
  whatever its book and whatever the commands: the k-th event of a run carries the k-th number, and
  the generator is left at the next one.\<close>

theorem events_numbered:
  "let (m', evs) = run_commands cs (m, [])
   in map event_seq evs = map (\<lambda>k. peek_seq m + of_nat k) [0..<length evs] \<and>
      peek_seq m' = peek_seq m + of_nat (length evs)"
  using emits_run_commands [of "(m, [])" cs] by (auto simp: emits_def split_beta seqs_numbered)

text \<open>Time priority: as long as fewer than \<open>2^64 - 1\<close> events have been emitted, the orders of
  every level of the book rest in strictly increasing order of the sequence number with which they
  were accepted, so the front of a level is always its oldest order.\<close>

theorem levels_in_time_order:
  assumes "length (snd (run_commands cs (matcher_new, []))) < 2 ^ 64 - 1"
    "map_of (side_map (m_book (fst (run_commands cs (matcher_new, [])))) s) p = Some l"
  shows "sorted_wrt (\<lambda>x y. o_seq x < o_seq y) l"
proof -
  let ?b = "m_book (fst (run_commands cs (matcher_new, [])))"
  have lv: "levels_inv ?b" by (simp add: book_invD)
  have "sorted_wrt (before s) (filter (\<lambda>e. fst e = p) (priority ?b s))"
    using run_price_time [OF assms(1), of s] by (simp add: price_time_def sorted_wrt_filter)
  then have "sorted_wrt (\<lambda>e e'. o_seq (snd e) < o_seq (snd e')) (filter (\<lambda>e. fst e = p) (priority ?b s))"
    by (rule sorted_wrt_mono_rel [rotated]) (auto simp: before_def)
  then have "sorted_wrt (\<lambda>x y. o_seq x < o_seq y) (level_at ?b s p)"
    by (simp add: sorted_wrt_map flip: priority_level [OF lv])
  with assms(2) show ?thesis by (simp add: level_at_def)
qed

theorem levels_in_time_order_witness:
  "sorted_wrt (\<lambda>x y. o_seq x < o_seq y)
     [\<lparr>o_id = 2, o_qty = 7, o_seq = 2\<rparr>, \<lparr>o_id = 3, o_qty = 4, o_seq = 3\<rparr>]"
proof (rule levels_in_time_order)
  have "length (snd (run_commands sample_run (matcher_new, []))) = 4" by code_simp
  then show "length (snd (run_commands sample_run (matcher_new, []))) < 2 ^ 64 - 1" by simp
  show "map_of (side_map (m_book (fst (run_commands sample_run (matcher_new, [])))) Sell) (Price 20) =
    Some [\<lparr>o_id = 2, o_qty = 7, o_seq = 2\<rparr>, \<lparr>o_id = 3, o_qty = 4, o_seq = 3\<rparr>]" by code_simp
qed

text \<open>An order trades as much as it can and no more: an order that is not refused trades exactly
  the smaller of its quantity and the total quantity resting on the other side at prices
  within its limit.\<close>

theorem accept_trades_all_it_can:
  assumes "book_inv (m_book m)" "\<not> refusal (m_book m) ord"
  shows "total traded_qty (snd (accept ord (m, []))) =
    min (unat (no_qty ord))
      (liquidity (m_book m) (opposite (no_side ord)) (willing (no_kind ord) (no_side ord)))"
proof -
  obtain mk evs where acc: "spec_accept ord (peek_seq m) (priority (m_book m)) = (mk, evs)"
    and "snd (accept ord (m, [])) = [] @ evs"
    by (rule accept_spec [OF assms(1), of ord "[]"])
  moreover from acc have "total traded_qty evs = min (unat (no_qty ord))
      (eligible_qty (willing (no_kind ord) (no_side ord)) (priority (m_book m) (opposite (no_side ord))))"
    using assms(2) refusal_refuses [OF assms(1), of ord]
    by (cases rule: spec_accept_cases) (auto simp: total_fill_events dest: sweep_filled_eligible)
  ultimately show ?thesis by (simp add: willing_liquidity [OF book_invD(1) [OF assms(1)]])
qed

theorem accept_trades_all_it_can_witness:
  "total traded_qty (snd (accept (sample 9 Buy 100 (Ioc (Price 20))) (fst sample_st, []))) = 11"
proof -
  have "\<not> refusal (m_book (fst sample_st)) (sample 9 Buy 100 (Ioc (Price 20)))" by code_simp
  note this [THEN accept_trades_all_it_can [OF sample_inv]]
  moreover have "liquidity (m_book (fst sample_st)) (opposite Buy) (willing (Ioc (Price 20)) Buy) = 11" by code_simp
  ultimately show ?thesis by (simp add: sample_def)
qed

text \<open>Every trade is legitimate: a trade emitted while accepting an order has that order as its
  taker and, as its maker, an order that was resting on the other side at the trade's price; the
  price is acceptable to the taker, and the quantity is positive and at most what the maker had.\<close>

theorem trades_are_legitimate:
  assumes "book_inv (m_book m)" "Trade t mk p q sq \<in> set (snd (accept ord (m, [])))"
  shows "t = no_id ord \<and> willing (no_kind ord) (no_side ord) p \<and> q \<noteq> 0 \<and>
    (\<exists>r \<in> set (iter_resting (m_book m)).
       r_id r = mk \<and> r_side r = opposite (no_side ord) \<and> r_price r = p \<and> q \<le> r_qty r)"
proof -
  let ?opp = "opposite (no_side ord)"
  note lv = book_invD(1) [OF assms(1)]
  obtain mk' evs where acc: "spec_accept ord (peek_seq m) (priority (m_book m)) = (mk', evs)"
    and "snd (accept ord (m, [])) = [] @ evs"
    by (rule accept_spec [OF assms(1), of ord "[]"])
  then have "Trade t mk p q sq \<in> set evs" using assms(2) by simp
  with acc obtain fs r ps where
      sw: "sweep (willing (no_kind ord) (no_side ord)) (no_qty ord) (priority (m_book m) ?opp) = (fs, r, ps)"
    and "Trade t mk p q sq \<in> set (fill_events (no_id ord) (peek_seq m + 1) fs)"
    by (cases rule: spec_accept_cases) auto
  then obtain x where x: "t = no_id ord" "o_id x = mk" "(p, x, q) \<in> set fs"
    by (blast dest: fill_events_trade)
  then have fill: "willing (no_kind ord) (no_side ord) p" "(p, x) \<in> set (priority (m_book m) ?opp)"
      "q \<noteq> 0" "q \<le> o_qty x"
    using sweep_fills [OF sw _ x(3)] priority_qty [OF assms(1)] by blast+
  then have "resting_of ?opp p x \<in> set (iter_resting (m_book m))"
    by (simp add: member_resting [OF lv, symmetric])
  with x fill show ?thesis by (intro conjI bexI [of _ "resting_of ?opp p x"]) simp_all
qed

theorem trades_are_legitimate_witness:
  "\<exists>r \<in> set (iter_resting (m_book (fst sample_st))). r_id r = 4 \<and> r_price r = Price 15 \<and> 6 \<le> r_qty r"
proof -
  have "Trade 9 4 (Price 15) 6 6 \<in> set (snd (accept (sample 9 Sell 6 Market) (fst sample_st, [])))" by code_simp
  from trades_are_legitimate [OF sample_inv this] show ?thesis by auto
qed

text \<open>C14. A fill-or-kill order is all or nothing: when its limit can be met in full it trades exactly
  its quantity, is reported filled with nothing left and does not rest; otherwise it is rejected as
  the only event and the book is left as it was.\<close>

theorem fok_all_or_nothing:
  assumes "book_inv (m_book m)" "no_kind ord = Fok p" "no_qty ord \<noteq> 0" "\<not> book_contains (m_book m) (no_id ord)"
  shows "let (m', evs) = accept ord (m, [])
    in if unat (no_qty ord) \<le> liquidity (m_book m) (opposite (no_side ord)) (within (no_side ord) p)
       then total traded_qty evs = unat (no_qty ord) \<and> \<not> book_contains (m_book m') (no_id ord) \<and>
         (\<exists>sq. last evs = Done (no_id ord) 0 Filled sq)
       else m_book m' = m_book m \<and> evs = [Done (no_id ord) (no_qty ord) Rejected (peek_seq m)]"
proof -
  let ?s = "no_side ord"
  let ?mk = "priority (m_book m)"
  have cr: "willing (no_kind ord) ?s = within ?s p" using assms(2) by (simp add: fun_eq_iff)
  have lq: "eligible_qty (within ?s p) (?mk (opposite ?s)) = liquidity (m_book m) (opposite ?s) (within ?s p)"
    using willing_liquidity [OF book_invD(1) [OF assms(1)], of "no_kind ord" ?s] by (simp add: cr)
  have ref: "refuses ?mk ord \<longleftrightarrow> liquidity (m_book m) (opposite ?s) (within ?s p) < unat (no_qty ord)"
    using refusal_refuses [OF assms(1), of ord] assms by (simp add: refusal_def)
  obtain mk evs where acc: "spec_accept ord (peek_seq m) ?mk = (mk, evs)"
    and out: "snd (accept ord (m, [])) = [] @ evs" "priority (m_book (fst (accept ord (m, [])))) = mk"
      "book_inv (m_book (fst (accept ord (m, []))))"
    by (rule accept_spec [OF assms(1), of ord "[]"])
  show ?thesis
    using acc
  proof (cases rule: spec_accept_cases)
    case Refused
    with out ref same_queues [OF out(3) assms(1)] show ?thesis by (simp add: split_beta)
  next
    case (Filled fs ps)
    have "\<not> listed mk (no_id ord)"
      using assms(4) sweep_ids [OF Filled(2)] Filled(3)
      by (cases ?s) (auto simp: contains_listed [OF assms(1)] listed_def)
    with Filled out ref sweep_volume [OF Filled(2)] show ?thesis
      by (simp add: split_beta total_fill_events contains_listed [OF out(3)])
  next
    case (Rests fs r ps q)
    with assms(2) show ?thesis by simp
  next
    case (Leaves fs r ps reason)
    have "filled fs = unat (no_qty ord)"
      using sweep_filled_eligible [OF Leaves(4)] Leaves(1) ref lq by (simp add: cr)
    with sweep_volume [OF Leaves(4)] Leaves(2) show ?thesis by (simp add: unat_eq_0)
  qed
qed

theorem fok_all_or_nothing_witness:
  "total traded_qty (snd (accept (sample 9 Buy 11 (Fok (Price 20))) (fst sample_st, []))) = 11 \<and>
   m_book (fst (accept (sample 9 Buy 12 (Fok (Price 20))) (fst sample_st, []))) = m_book (fst sample_st)"
proof -
  have lq: "liquidity (m_book (fst sample_st)) Sell (within Buy (Price 20)) = 11" by code_simp
  have new: "\<not> book_contains (m_book (fst sample_st)) 9" by code_simp
  show ?thesis
    using fok_all_or_nothing [OF sample_inv, of "sample 9 Buy 11 (Fok (Price 20))" "Price 20"]
      fok_all_or_nothing [OF sample_inv, of "sample 9 Buy 12 (Fok (Price 20))" "Price 20"] lq new
    by (simp add: sample_def split_beta)
qed

text \<open>A post-only order never takes liquidity: accepting it emits no trade, and unless it is
  refused (it would cross, has no quantity or a resting id) it is accepted with its whole quantity
  behind the orders of its price, and no other level of the book changes.\<close>

theorem post_only_never_takes:
  assumes "book_inv (m_book m)" "no_kind ord = PostOnly p"
  shows "let (m', evs) = accept ord (m, [])
    in if refusal (m_book m) ord
       then m_book m' = m_book m \<and> evs = [Done (no_id ord) (no_qty ord) Rejected (peek_seq m)]
       else evs = [Accepted (no_id ord) (no_qty ord) (peek_seq m)] \<and>
         level_at (m_book m') = (level_at (m_book m))(no_side ord := (level_at (m_book m) (no_side ord))
           (p := level_at (m_book m) (no_side ord) p @
              [\<lparr>o_id = no_id ord, o_qty = no_qty ord, o_seq = peek_seq m\<rparr>]))"
proof -
  let ?s = "no_side ord"
  let ?mk = "priority (m_book m)" and ?x = "\<lparr>o_id = no_id ord, o_qty = no_qty ord, o_seq = peek_seq m\<rparr>"
  note lv = book_invD(1) [OF assms(1)]
  obtain mk evs where acc: "spec_accept ord (peek_seq m) ?mk = (mk, evs)"
    and out: "snd (accept ord (m, [])) = [] @ evs" "priority (m_book (fst (accept ord (m, [])))) = mk"
      "book_inv (m_book (fst (accept ord (m, []))))"
    by (rule accept_spec [OF assms(1), of ord "[]"])
  show ?thesis
  proof (cases "refusal (m_book m) ord")
    case True
    with acc have "mk = ?mk" "evs = [Done (no_id ord) (no_qty ord) Rejected (peek_seq m)]"
      by (simp_all add: spec_accept_def refusal_refuses [OF assms(1)])
    with True out same_queues [OF out(3) assms(1)] show ?thesis by (simp add: split_beta)
  next
    case False
    then have no: "\<not> refuses ?mk ord" by (simp add: refusal_refuses [OF assms(1)])
    then have q: "no_qty ord \<noteq> 0" by (simp add: refuses_def)
    have "sweep (willing (no_kind ord) ?s) (no_qty ord) (?mk (opposite ?s)) = ([], no_qty ord, ?mk (opposite ?s))"
      using no assms(2) by (intro sweep_stop) (auto simp: refuses_def)
    with acc no q assms(2) have mk: "mk = ?mk(?s := enqueue ?s p ?x (?mk ?s))"
        and evs: "evs = [Accepted (no_id ord) (no_qty ord) (peek_seq m)]"
      by (simp_all add: spec_accept_def Let_def del: fun_upd_apply)
    have "level_at (m_book (fst (accept ord (m, [])))) s q = map snd (filter (\<lambda>e. fst e = q) (mk s))" for s q
      using priority_level [OF book_invD(1) [OF out(3)], of q s] out(2) by simp
    then have "level_at (m_book (fst (accept ord (m, [])))) s q =
        ((level_at (m_book m))(?s := (level_at (m_book m) ?s)(p := level_at (m_book m) ?s p @ [?x]))) s q" for s q
      using filter_enqueue [OF price_sorted_priority [OF lv, of ?s], of q p ?x]
      by (simp add: mk priority_level [OF lv])
    with False evs out show ?thesis by (simp add: split_beta fun_eq_iff)
  qed
qed

theorem post_only_never_takes_witness:
  "snd (accept (sample 9 Buy 3 (PostOnly (Price 19))) (fst sample_st, [])) = [Accepted 9 3 5] \<and>
   snd (accept (sample 9 Buy 3 (PostOnly (Price 20))) (fst sample_st, [])) = [Done 9 3 Rejected 5]"
proof -
  have "\<not> refusal (m_book (fst sample_st)) (sample 9 Buy 3 (PostOnly (Price 19)))" by code_simp
  moreover have "refusal (m_book (fst sample_st)) (sample 9 Buy 3 (PostOnly (Price 20)))" by code_simp
  moreover have "peek_seq (fst sample_st) = 5" by code_simp
  ultimately show ?thesis
    using post_only_never_takes [OF sample_inv, of "sample 9 Buy 3 (PostOnly (Price 19))" "Price 19"]
      post_only_never_takes [OF sample_inv, of "sample 9 Buy 3 (PostOnly (Price 20))" "Price 20"]
    by (simp add: sample_def split_beta)
qed

text \<open>Market, immediate-or-cancel and fill-or-kill orders never rest: after such an order the
  book holds nothing under its id unless it did before, its own side of the book is untouched, and
  what it leaves unfilled is reported as done.\<close>

theorem immediate_orders_never_rest:
  assumes "book_inv (m_book m)" "\<not> book_contains (m_book m) (no_id ord)"
    "\<And>p. no_kind ord \<noteq> Limit p" "\<And>p. no_kind ord \<noteq> PostOnly p"
  shows "let (m', evs) = accept ord (m, [])
    in \<not> book_contains (m_book m') (no_id ord) \<and>
       side_map (m_book m') (no_side ord) = side_map (m_book m) (no_side ord) \<and>
       (\<exists>leaves reason sq. last evs = Done (no_id ord) leaves reason sq \<and>
          total traded_qty evs + unat leaves = unat (no_qty ord))"
proof -
  let ?s = "no_side ord"
  let ?mk = "priority (m_book m)" and ?b = "m_book (fst (accept ord (m, [])))"
  note lv = book_invD(1) [OF assms(1)]
  obtain mk evs where acc: "spec_accept ord (peek_seq m) ?mk = (mk, evs)"
    and out: "snd (accept ord (m, [])) = [] @ evs" "priority ?b = mk" "book_inv ?b"
    by (rule accept_spec [OF assms(1), of ord "[]"])
  have other: "opposite ?s \<noteq> ?s" by (cases ?s) simp_all
  have kind: "leftover (no_kind ord) \<noteq> Inl p" for p using assms(3,4) by (cases "no_kind ord") auto
  have "mk ?s = ?mk ?s \<and> (\<exists>leaves reason sq. last evs = Done (no_id ord) leaves reason sq \<and>
      total traded_qty evs + unat leaves = unat (no_qty ord)) \<and> \<not> listed mk (no_id ord)"
    using acc
  proof (cases rule: spec_accept_cases)
    case Refused
    with assms(2) show ?thesis by (simp add: contains_listed [OF assms(1)])
  next
    case (Filled fs ps)
    have "\<not> listed mk (no_id ord)"
      using assms(2) sweep_ids [OF Filled(2)] Filled(3)
      by (cases ?s) (auto simp: contains_listed [OF assms(1)] listed_def)
    with Filled sweep_volume [OF Filled(2)] other show ?thesis by (simp add: total_fill_events)
  next
    case (Leaves fs r ps reason)
    have "\<not> listed mk (no_id ord)"
      using assms(2) sweep_ids [OF Leaves(4)] Leaves(5)
      by (cases ?s) (auto simp: contains_listed [OF assms(1)] listed_def)
    with Leaves sweep_volume [OF Leaves(4)] other show ?thesis by (simp add: total_fill_events)
  qed (use kind in blast)
  moreover from this have "level_at ?b ?s q = level_at (m_book m) ?s q" for q
    using priority_level [OF lv, of q ?s] priority_level [OF book_invD(1) [OF out(3)], of q ?s] out(2) by simp
  then have "side_map ?b ?s = side_map (m_book m) ?s"
    using lv book_invD(1) [OF out(3)] by (intro bt.map_ext) (simp_all add: levels_invD map_of_side_map fun_eq_iff)
  ultimately show ?thesis using out by (simp add: split_beta contains_listed [OF out(3)])
qed

theorem immediate_orders_never_rest_witness:
  "\<not> book_contains (m_book (fst (accept (sample 9 Buy 100 Market) (fst sample_st, [])))) 9"
proof -
  have "\<not> book_contains (m_book (fst sample_st)) (no_id (sample 9 Buy 100 Market))" by code_simp
  from immediate_orders_never_rest [OF sample_inv this] show ?thesis
    by (simp add: sample_def split_beta)
qed

text \<open>C15. Exactly the faulty orders are rejected, and a rejection changes nothing: an order is
  rejected if and only if it has no quantity, its id is resting, it is post-only and some opposite
  quantity crosses it, or it is fill-or-kill and too little does. Then the one event is the
  rejection and only the sequence number moves; any other order is accepted first.\<close>

theorem rejection_exact:
  assumes "book_inv (m_book m)"
  shows "if refusal (m_book m) ord
    then accept ord (m, out) =
      (m\<lparr>m_seq := \<lparr>gen_next = peek_seq m + 1\<rparr>\<rparr>, out @ [Done (no_id ord) (no_qty ord) Rejected (peek_seq m)])
    else \<exists>evs. snd (accept ord (m, out)) = out @ Accepted (no_id ord) (no_qty ord) (peek_seq m) # evs \<and>
      (\<forall>i q sq. Done i q Rejected sq \<notin> set evs)"
proof (cases "refusal (m_book m) ord")
  case True
  then have "no_qty ord = 0 \<or> book_contains (m_book m) (no_id ord) \<or> gate_rejects (m_book m) ord"
    using gate_refuses [OF assms] refusal_refuses [OF assms] by simp
  then have "accept ord (m, out) = emit (Done (no_id ord) (no_qty ord) Rejected) (m, out)"
    by (auto simp: accept_def)
  with True show ?thesis by (simp add: emit_def seq_next_def peek_seq_def seq_peek_def)
next
  case False
  have fills: "Done i q Rejected sq \<notin> set (fill_events t n fs)" for i q sq t n fs
    by (induction t n fs rule: fill_events.induct) auto
  obtain mk evs where acc: "spec_accept ord (peek_seq m) (priority (m_book m)) = (mk, evs)"
    and out: "snd (accept ord (m, out)) = out @ evs"
    by (rule accept_spec [OF assms, of ord out])
  from acc have "\<exists>evs'. evs = Accepted (no_id ord) (no_qty ord) (peek_seq m) # evs' \<and>
      (\<forall>i q sq. Done i q Rejected sq \<notin> set evs')"
  proof (cases rule: spec_accept_cases)
    case Refused
    with False show ?thesis by (simp add: refusal_refuses [OF assms])
  next
    case (Leaves fs r ps reason)
    moreover have "reason \<noteq> Rejected" using Leaves(3) by (cases "no_kind ord") auto
    ultimately show ?thesis using fills by simp
  qed (use fills in simp_all)
  with False out show ?thesis by auto
qed

theorem rejection_exact_witness:
  "accept (sample 4 Buy 1 Market) (fst sample_st, []) =
     ((fst sample_st)\<lparr>m_seq := \<lparr>gen_next = 6\<rparr>\<rparr>, [Done 4 1 Rejected 5])"
proof -
  have "refusal (m_book (fst sample_st)) (sample 4 Buy 1 Market)" by code_simp
  moreover have "peek_seq (fst sample_st) = 5" by code_simp
  ultimately show ?thesis
    using rejection_exact [OF sample_inv, of "sample 4 Buy 1 Market" "[]"] by (simp add: sample_def)
qed

text \<open>C16. A cancel removes exactly the named order: if it rests, the one event reports the quantity
  that was left of it, and the book keeps every other order with its quantity and place; if it does
  not, nothing changes and nothing is emitted.\<close>

theorem cancel_exact:
  assumes "book_inv (m_book m)"
  shows "let (m', evs) = matcher_cancel i (m, [])
    in case resting_qty (m_book m) i of
         None \<Rightarrow> m' = m \<and> evs = []
       | Some q \<Rightarrow> evs = [Done i q Cancelled (peek_seq m)] \<and>
           iter_resting (m_book m') = filter (\<lambda>r. r_id r \<noteq> i) (iter_resting (m_book m))"
proof -
  let ?b = "m_book m"
  have c: "refines (m, []) (matcher_cancel i (m, [])) (spec_cancel i)"
    using assms by (intro cancel_refines) simp
  have book: "m_book (fst (matcher_cancel i (m, []))) = snd (book_cancel i ?b)"
    by (simp add: matcher_cancel_def split: prod.split option.split)
  have qty: "resting_qty ?b i = map_option (o_qty \<circ> snd)
      (List.find (\<lambda>e. o_id (snd e) = i) (priority ?b Buy @ priority ?b Sell))"
    by (simp only: market_open_resting [OF assms, symmetric] market_open_def queue_open_find)
  show ?thesis
  proof (cases "List.find (\<lambda>e. o_id (snd e) = i) (priority ?b Buy @ priority ?b Sell)")
    case None
    then have "\<not> listed (priority ?b) i"
      unfolding find_None_iff listed_def image_iff comp_def by metis
    with None qty show ?thesis
      by (simp add: contains_listed [OF assms, symmetric] matcher_cancel_def book_cancel_unknown)
  next
    case (Some e)
    with c have "snd (matcher_cancel i (m, [])) = [Done i (o_qty (snd e)) Cancelled (peek_seq m)]"
      by (simp add: refines_def spec_cancel_def)
    with Some qty book show ?thesis
      by (simp add: split_beta iter_resting_cancel [OF assms])
  qed
qed

theorem cancel_exact_witness:
  "snd (matcher_cancel 3 (fst sample_st, [])) = [Done 3 4 Cancelled 5] \<and>
   map r_id (iter_resting (m_book (fst (matcher_cancel 3 (fst sample_st, []))))) = [1, 4, 2]"
proof -
  have "resting_qty (m_book (fst sample_st)) 3 = Some 4" by code_simp
  moreover have "map r_id (filter (\<lambda>r. r_id r \<noteq> 3) (iter_resting (m_book (fst sample_st)))) = [1, 4, 2]" by code_simp
  moreover have "peek_seq (fst sample_st) = 5" by code_simp
  ultimately show ?thesis
    using cancel_exact [OF sample_inv, of 3] by (simp add: split_beta)
qed

end
