(* ===== verification/Byte_Codec.thy ===== *)
theory Byte_Codec
  imports Matcher
begin

text \<open>
  The byte cursor that the wire protocol and the log each define, and the layout of an order, which
  both write byte for byte the same way. The two cursors differ only in the errors they return, so
  the readers take these as arguments.

  The locale \<open>codec\<close> is the contract between an encoder and a decoder working on a cursor:
  decoding what was encoded gives it back and leaves the cursor behind it, and whatever decodes was
  encoded. From the two laws follow that encodings are prefix-free and that a truncated encoding is
  an error.
\<close>

section \<open>The cursor\<close>

record cursor =
  c_bytes :: bytes
  c_pos :: nat

definition cursor_new :: "bytes \<Rightarrow> cursor" where
  "cursor_new bs = \<lparr>c_bytes = bs, c_pos = 0\<rparr>"

definition read_u8 :: "'e \<Rightarrow> cursor \<Rightarrow> 'e + (u8 \<times> cursor)" where
  "read_u8 short c =
     (if c_pos c < length (c_bytes c)
      then Inr (c_bytes c ! c_pos c, c\<lparr>c_pos := c_pos c + 1\<rparr>)
      else Inl short)"

definition read_u64 :: "'e \<Rightarrow> cursor \<Rightarrow> 'e + (u64 \<times> cursor)" where
  "read_u64 short c =
     (let end_pos = c_pos c + 8
      in if end_pos \<le> length (c_bytes c)
         then Inr (from_le_bytes (List.take 8 (drop (c_pos c) (c_bytes c))), c\<lparr>c_pos := end_pos\<rparr>)
         else Inl short)"

definition read_i64 :: "'e \<Rightarrow> cursor \<Rightarrow> 'e + (i64 \<times> cursor)" where
  "read_i64 short c = read_u64 short c"

section \<open>Tags and orders\<close>

definition SIDE_BUY :: u8 where "SIDE_BUY = 1"
definition SIDE_SELL :: u8 where "SIDE_SELL = 2"
definition KIND_LIMIT :: u8 where "KIND_LIMIT = 1"
definition KIND_MARKET :: u8 where "KIND_MARKET = 2"
definition KIND_IOC :: u8 where "KIND_IOC = 3"
definition KIND_POST_ONLY :: u8 where "KIND_POST_ONLY = 4"
definition KIND_FOK :: u8 where "KIND_FOK = 5"

lemmas tag_defs = SIDE_BUY_def SIDE_SELL_def KIND_LIMIT_def KIND_MARKET_def KIND_IOC_def
  KIND_POST_ONLY_def KIND_FOK_def

fun encode_side :: "side \<Rightarrow> u8" where
  "encode_side Buy = SIDE_BUY"
| "encode_side Sell = SIDE_SELL"

definition decode_side :: "(u8 \<Rightarrow> 'e) \<Rightarrow> u8 \<Rightarrow> 'e + side" where
  "decode_side unknown_side b =
     (if b = SIDE_BUY then Inr Buy else if b = SIDE_SELL then Inr Sell else Inl (unknown_side b))"

fun encode_kind :: "order_kind \<Rightarrow> bytes" where
  "encode_kind (Limit p) = KIND_LIMIT # u64_le (price_raw p)"
| "encode_kind Market = [KIND_MARKET]"
| "encode_kind (Ioc p) = KIND_IOC # u64_le (price_raw p)"
| "encode_kind (PostOnly p) = KIND_POST_ONLY # u64_le (price_raw p)"
| "encode_kind (Fok p) = KIND_FOK # u64_le (price_raw p)"

definition encode_new_order :: "new_order \<Rightarrow> bytes \<Rightarrow> bytes" where
  "encode_new_order ord out =
     out @ u64_le (no_id ord) @ [encode_side (no_side ord)] @ u64_le (no_qty ord) @
     encode_kind (no_kind ord) @ u64_le (no_timestamp ord)"

definition decode_kind :: "'e \<Rightarrow> (u8 \<Rightarrow> 'e) \<Rightarrow> cursor \<Rightarrow> 'e + (order_kind \<times> cursor)" where
  "decode_kind short unknown_kind c =
     try_bind (read_u8 short c) (\<lambda>(tag, c).
       if tag = KIND_LIMIT then try_bind (read_i64 short c) (\<lambda>(p, c). Inr (Limit (Price p), c))
       else if tag = KIND_MARKET then Inr (Market, c)
       else if tag = KIND_IOC then try_bind (read_i64 short c) (\<lambda>(p, c). Inr (Ioc (Price p), c))
       else if tag = KIND_POST_ONLY then try_bind (read_i64 short c) (\<lambda>(p, c). Inr (PostOnly (Price p), c))
       else if tag = KIND_FOK then try_bind (read_i64 short c) (\<lambda>(p, c). Inr (Fok (Price p), c))
       else Inl (unknown_kind tag))"

definition decode_new_order :: "'e \<Rightarrow> (u8 \<Rightarrow> 'e) \<Rightarrow> (u8 \<Rightarrow> 'e) \<Rightarrow> cursor \<Rightarrow> 'e + (new_order \<times> cursor)" where
  "decode_new_order short unknown_side unknown_kind c =
     try_bind (read_u64 short c) (\<lambda>(i, c).
     try_bind (read_u8 short c) (\<lambda>(b, c).
     try_bind (decode_side unknown_side b) (\<lambda>s.
     try_bind (read_u64 short c) (\<lambda>(q, c).
     try_bind (decode_kind short unknown_kind c) (\<lambda>(k, c).
     try_bind (read_i64 short c) (\<lambda>(ts, c).
       Inr (\<lparr>no_id = i, no_side = s, no_qty = q, no_kind = k, no_timestamp = ts\<rparr>, c)))))))"

section \<open>Cursors by what is before and after them\<close>

definition cur :: "bytes \<Rightarrow> bytes \<Rightarrow> cursor" where
  "cur pre bs = \<lparr>c_bytes = pre @ bs, c_pos = length pre\<rparr>"

lemma cursor_new_cur: "cursor_new bs = cur [] bs"
  by (simp add: cursor_new_def cur_def)

lemma cur_simps [simp]: "c_bytes (cur pre bs) = pre @ bs" "c_pos (cur pre bs) = length pre"
  by (simp_all add: cur_def)

lemma cur_eq_iff: "cur pre bs = cur pre' bs' \<longleftrightarrow> pre = pre' \<and> bs = bs'"
  by (auto simp: cur_def)

lemma read_u8_cur [codec_simps]: "read_u8 short (cur pre (b # bs)) = Inr (b, cur (pre @ [b]) bs)"
  "read_u8 short (cur pre []) = Inl short"
  by (simp_all add: read_u8_def cur_def)

lemma read_u64_short: "length bs < 8 \<Longrightarrow> read_u64 short (cur pre bs) = Inl short"
  by (simp add: read_u64_def)

lemma read_u64_cur [codec_simps]: "read_u64 short (cur pre (u64_le w @ bs)) = Inr (w, cur (pre @ u64_le w) bs)"
  by (simp add: read_u64_def cur_def)

lemma read_i64_cur [codec_simps]: "read_i64 short (cur pre (u64_le w @ bs)) = Inr (w, cur (pre @ u64_le w) bs)"
  by (simp add: read_i64_def codec_simps)

text \<open>What a successful read says of the bytes.\<close>

lemma read_u8_Inr: "read_u8 short (cur pre bs) = Inr (b, c) \<longleftrightarrow> (\<exists>suf. bs = b # suf \<and> c = cur (pre @ [b]) suf)"
  by (cases bs) (auto simp: codec_simps)

lemma u64_le_split:
  assumes "8 \<le> length bs"
  obtains w suf where "bs = u64_le w @ suf"
proof -
  have "u64_le (from_le_bytes (List.take 8 bs)) = List.take 8 bs"
    using to_from_le_bytes [of "List.take 8 bs", where 'a = 64] assms by simp
  then show thesis by (metis that append_take_drop_id)
qed

lemma read_u64_Inr:
  "read_u64 short (cur pre bs) = Inr (w, c) \<longleftrightarrow> (\<exists>suf. bs = u64_le w @ suf \<and> c = cur (pre @ u64_le w) suf)"
proof (cases "8 \<le> length bs")
  case True
  then obtain v suf where bs: "bs = u64_le v @ suf" by (rule u64_le_split)
  have "u64_le v @ suf = u64_le w @ suf' \<longleftrightarrow> v = w \<and> suf = suf'" for suf'
    by (metis from_to_le_bytes_u64 to_le_bytes_inj_length)
  then show ?thesis by (auto simp: bs codec_simps)
next
  case False
  then show ?thesis by (auto simp: read_u64_short)
qed

lemma read_i64_Inr:
  "read_i64 short (cur pre bs) = Inr (w, c) \<longleftrightarrow> (\<exists>suf. bs = u64_le w @ suf \<and> c = cur (pre @ u64_le w) suf)"
  by (simp add: read_i64_def read_u64_Inr)

lemmas read_Inr = read_u8_Inr read_u64_Inr read_i64_Inr

lemma decode_side_Inr [simp]: "decode_side unknown b = Inr s \<longleftrightarrow> b = encode_side s"
  by (cases s) (auto simp: decode_side_def tag_defs)

lemma decode_encode_side [simp]: "decode_side unknown (encode_side s) = Inr s"
  by simp

section \<open>The codec contract\<close>

locale codec =
  fixes enc :: "'a \<Rightarrow> bytes"
    and dec :: "cursor \<Rightarrow> 'e + ('a \<times> cursor)"
  assumes dec_enc: "dec (cur pre (enc x @ suf)) = Inr (x, cur (pre @ enc x) suf)"
    and enc_dec: "dec (cur pre bs) = Inr (x, c) \<Longrightarrow> \<exists>suf. bs = enc x @ suf \<and> c = cur (pre @ enc x) suf"
begin

lemma dec_iff: "dec (cur pre bs) = Inr (x, c) \<longleftrightarrow> (\<exists>suf. bs = enc x @ suf \<and> c = cur (pre @ enc x) suf)"
  using enc_dec dec_enc by blast

lemma prefix_free: "enc x @ suf = enc y @ suf' \<longleftrightarrow> x = y \<and> suf = suf'"
proof
  assume eq: "enc x @ suf = enc y @ suf'"
  then have "dec (cur [] (enc x @ suf)) = dec (cur [] (enc y @ suf'))" by simp
  then have "x = y" by (simp add: dec_enc)
  with eq show "x = y \<and> suf = suf'" by simp
qed simp

lemma enc_inj: "enc x = enc y \<longleftrightarrow> x = y"
  using prefix_free [of x "[]" y "[]"] by simp

text \<open>A proper prefix of an encoding does not decode.\<close>

lemma truncated: "n < length (enc x) \<Longrightarrow> \<exists>e. dec (cur pre (List.take n (enc x))) = Inl e"
proof (cases "dec (cur pre (List.take n (enc x)))")
  case (Inr yc)
  assume n: "n < length (enc x)"
  obtain y c where "yc = (y, c)" by (cases yc)
  with Inr obtain suf where "List.take n (enc x) = enc y @ suf" by (auto simp: dec_iff)
  then have "enc x @ [] = enc y @ (suf @ drop n (enc x))"
    by (metis append.assoc append_Nil2 append_take_drop_id)
  then have "drop n (enc x) = []" unfolding prefix_free by blast
  with n show ?thesis by simp
qed simp

text \<open>Decoding and requiring the end of the input accepts exactly the encodings.\<close>

lemma whole_iff:
  "(\<exists>c. dec (cur [] bs) = Inr (x, c) \<and> c_pos c = length (c_bytes c)) \<longleftrightarrow> bs = enc x"
  by (auto simp: dec_iff)

end

text \<open>A codec whose decoder reports one fixed error on every truncated input.\<close>

locale codec_short = codec enc dec
  for enc :: "'a \<Rightarrow> bytes" and dec :: "cursor \<Rightarrow> 'e + ('a \<times> cursor)" +
  fixes short :: 'e
  assumes truncated_short: "n < length (enc x) \<Longrightarrow> dec (cur pre (List.take n (enc x))) = Inl short"
begin

lemma dec_take:
  "dec (cur pre (List.take n (enc x @ bs))) =
     (if n < length (enc x) then Inl short
      else Inr (x, cur (pre @ enc x) (List.take (n - length (enc x)) bs)))"
  by (simp add: truncated_short dec_enc)

end

lemma read_u8_take:
  "read_u8 short (cur pre (List.take n (b # bs))) =
     (if n = 0 then Inl short else Inr (b, cur (pre @ [b]) (List.take (n - 1) bs)))"
  by (cases n) (simp_all add: codec_simps)

lemma read_u64_take:
  "read_u64 short (cur pre (List.take n (u64_le w @ bs))) =
     (if n < 8 then Inl short else Inr (w, cur (pre @ u64_le w) (List.take (n - 8) bs)))"
  by (simp add: read_u64_short codec_simps)

lemma read_u64_take_last:
  "read_u64 short (cur pre (List.take n (u64_le w))) =
     (if n < 8 then Inl short else Inr (w, cur (pre @ u64_le w) []))"
  using read_u64_take [of short pre n w "[]"] by simp

lemmas read_take = read_u8_take read_u64_take read_u64_take_last read_i64_def read_u8_cur(2)

interpretation kind_codec: codec encode_kind "decode_kind short unknown" for short unknown
proof
  fix pre bs suf k c
  show "decode_kind short unknown (cur pre (encode_kind k @ suf)) = Inr (k, cur (pre @ encode_kind k) suf)"
    by (cases k) (simp_all add: decode_kind_def codec_simps tag_defs)
  show "\<exists>suf. bs = encode_kind k @ suf \<and> c = cur (pre @ encode_kind k) suf"
    if "decode_kind short unknown (cur pre bs) = Inr (k, c)"
    using that by (auto simp: decode_kind_def try_bind_Inr_iff read_Inr split: if_splits)
qed

interpretation kind_codec: codec_short encode_kind "decode_kind short unknown" short for short unknown
proof
  fix n k pre
  assume "n < length (encode_kind k)"
  then show "decode_kind short unknown (cur pre (List.take n (encode_kind k))) = Inl short"
    by (cases k) (auto simp: decode_kind_def read_take tag_defs)
qed

interpretation order_codec: codec "\<lambda>ord. encode_new_order ord []" "decode_new_order short unknown_side unknown_kind"
  for short unknown_side unknown_kind
proof
  fix pre bs suf ord c
  show "decode_new_order short unknown_side unknown_kind (cur pre (encode_new_order ord [] @ suf)) =
      Inr (ord, cur (pre @ encode_new_order ord []) suf)"
    by (simp add: decode_new_order_def encode_new_order_def codec_simps kind_codec.dec_enc)
  show "\<exists>suf. bs = encode_new_order ord [] @ suf \<and> c = cur (pre @ encode_new_order ord []) suf"
    if "decode_new_order short unknown_side unknown_kind (cur pre bs) = Inr (ord, c)"
    using that
    by (auto simp: decode_new_order_def encode_new_order_def try_bind_Inr_iff read_Inr kind_codec.dec_iff)
qed

interpretation order_codec: codec_short "\<lambda>ord. encode_new_order ord []"
  "decode_new_order short unknown_side unknown_kind" short for short unknown_side unknown_kind
proof
  fix n ord pre
  assume n: "n < length (encode_new_order ord [])"
  show "decode_new_order short unknown_side unknown_kind (cur pre (List.take n (encode_new_order ord []))) = Inl short"
    using n
    by (auto simp: decode_new_order_def encode_new_order_def read_take kind_codec.dec_take
        simp del: take_append)
qed

end
