(* ===== verification/Wal.thy ===== *)
theory Wal
  imports Byte_Codec
begin

text \<open>
  The write-ahead log of \<^verbatim>\<open>bourse-core/src/wal.rs\<close>. A directory is a list of named files; a file is
  what has been made durable and what has been written but not yet synced, and a crash keeps the
  former with some prefix of the latter. Writers pass the directory along; the reader works on the
  bytes of a file. The checksum \<open>crc32c\<close> is a third-party function and a parameter.

  Of the errors of the operating system the model has those that the code distinguishes or
  provokes: the end of a file in the middle of a read, creating a file that exists, and renaming
  one that does not. A full or failing disk is not modelled.
\<close>

section \<open>Constants, errors, records\<close>

definition WAL_MAGIC :: u32 where "WAL_MAGIC = 0x5743584D"
definition SEGMENT_VERSION :: u8 where "SEGMENT_VERSION = 2"
definition RECORD_VERSION :: u8 where "RECORD_VERSION = 1"
definition REC_TYPE_NEW_ORDER :: u8 where "REC_TYPE_NEW_ORDER = 1"
definition REC_TYPE_CANCEL :: u8 where "REC_TYPE_CANCEL = 2"
definition FRAME_OVERHEAD :: u64 where "FRAME_OVERHEAD = 8"

datatype io_error = UnexpectedEof | AlreadyExists | NotFound

datatype wal_error =
    WalIo io_error
  | CrcMismatch
  | WalBadMagic
  | UnknownSegmentVersion u8
  | UnknownRecordVersion u8
  | UnknownRecordType u8
  | WalUnknownKindTag u8
  | WalUnknownSide u8
  | RecordTooLarge
  | WalTruncated

datatype wal_record = WalNewOrder new_order | WalCancel order_id

section \<open>Records as bytes\<close>

fun encode_record :: "wal_record \<Rightarrow> bytes \<Rightarrow> bytes" where
  "encode_record (WalNewOrder no) out = encode_new_order no ((out @ [RECORD_VERSION]) @ [REC_TYPE_NEW_ORDER])"
| "encode_record (WalCancel i) out = ((out @ [RECORD_VERSION]) @ [REC_TYPE_CANCEL]) @ u64_le i"

abbreviation wal_short :: wal_error where
  "wal_short \<equiv> WalIo UnexpectedEof"

abbreviation wal_read_u8 :: "cursor \<Rightarrow> wal_error + (u8 \<times> cursor)" where
  "wal_read_u8 \<equiv> read_u8 wal_short"

abbreviation wal_read_u64 :: "cursor \<Rightarrow> wal_error + (u64 \<times> cursor)" where
  "wal_read_u64 \<equiv> read_u64 wal_short"

definition decode_record :: "bytes \<Rightarrow> wal_error + wal_record" where
  "decode_record payload =
     try_bind (wal_read_u8 (cursor_new payload)) (\<lambda>(version, c).
       if version \<noteq> RECORD_VERSION then Inl (UnknownRecordVersion version)
       else try_bind (wal_read_u8 c) (\<lambda>(tag, c).
         if tag = REC_TYPE_NEW_ORDER
         then try_bind (decode_new_order wal_short WalUnknownSide WalUnknownKindTag c)
           (\<lambda>(no, c). Inr (WalNewOrder no))
         else if tag = REC_TYPE_CANCEL
         then try_bind (wal_read_u64 c) (\<lambda>(i, c). Inr (WalCancel i))
         else Inl (UnknownRecordType tag)))"

section \<open>Files and directories\<close>

record wal_file =
  f_durable :: bytes
  f_pending :: bytes

definition f_contents :: "wal_file \<Rightarrow> bytes" where
  "f_contents f = f_durable f @ f_pending f"

type_synonym dir = "(string \<times> wal_file) list"

fun dir_update :: "string \<Rightarrow> (wal_file \<Rightarrow> wal_file) \<Rightarrow> dir \<Rightarrow> dir" where
  "dir_update path g [] = []"
| "dir_update path g (e # d) = (if fst e = path then (path, g (snd e)) # d else e # dir_update path g d)"

text \<open>\<open>write_all\<close> through the \<open>BufWriter\<close>, and \<open>flush\<close> followed by \<open>sync_all\<close>.\<close>

definition write_all :: "string \<Rightarrow> bytes \<Rightarrow> dir \<Rightarrow> dir" where
  "write_all path bs d = dir_update path (\<lambda>f. f\<lparr>f_pending := f_pending f @ bs\<rparr>) d"

definition sync_all :: "string \<Rightarrow> dir \<Rightarrow> dir" where
  "sync_all path d = dir_update path (\<lambda>f. \<lparr>f_durable = f_durable f @ f_pending f, f_pending = []\<rparr>) d"

text \<open>What the code asks of the file system, one action per system call (a \<open>write_all\<close> may be held in the
  \<open>BufWriter\<close> until the \<open>flush\<close>; its bytes are pending all the same). \<open>remove_file\<close> is called for its effect and its error
  ignored. Operations of several actions are lists of them, so that a crash can be placed between any two.\<close>

datatype fs_action =
    RemoveFile string
  | CreateNew string
  | WriteAll string bytes
  | SyncAll string
  | Rename string string

definition dir_remove :: "string \<Rightarrow> (string \<times> 'f) list \<Rightarrow> (string \<times> 'f) list" where
  "dir_remove path d = filter (\<lambda>e. fst e \<noteq> path) d"

fun fs_step :: "fs_action \<Rightarrow> dir \<Rightarrow> io_error + dir" where
  "fs_step (RemoveFile p) d = Inr (dir_remove p d)"
| "fs_step (CreateNew p) d =
     (if p \<in> fst ` set d then Inl AlreadyExists else Inr (d @ [(p, \<lparr>f_durable = [], f_pending = []\<rparr>)]))"
| "fs_step (WriteAll p bs) d = Inr (write_all p bs d)"
| "fs_step (SyncAll p) d = Inr (sync_all p d)"
| "fs_step (Rename p q) d =
     (case map_of d p of None \<Rightarrow> Inl NotFound | Some f \<Rightarrow> Inr (dir_remove q (dir_remove p d) @ [(q, f)]))"

fun fs_run :: "fs_action list \<Rightarrow> dir \<Rightarrow> io_error + dir" where
  "fs_run [] d = Inr d"
| "fs_run (a # as) d = try_bind (fs_step a d) (fs_run as)"

definition wal_io :: "io_error + 'a \<Rightarrow> wal_error + 'a" where
  "wal_io r = (case r of Inl e \<Rightarrow> Inl (WalIo e) | Inr x \<Rightarrow> Inr x)"

definition segment_header :: bytes where
  "segment_header = u32_le WAL_MAGIC @ [SEGMENT_VERSION, 0, 0, 0]"

definition segment_actions :: "string \<Rightarrow> fs_action list" where
  "segment_actions path =
     [CreateNew path, WriteAll path (u32_le WAL_MAGIC), WriteAll path [SEGMENT_VERSION, 0, 0, 0], SyncAll path]"

definition create_segment :: "string \<Rightarrow> dir \<Rightarrow> wal_error + (u64 \<times> dir)" where
  "create_segment path d = try_bind (wal_io (fs_run (segment_actions path) d)) (\<lambda>d. Inr (8, d))"

section \<open>Segment names\<close>

definition segment_path :: "u64 \<Rightarrow> string" where
  "segment_path idx = ''seg-'' @ dec_padded 8 (unat idx) @ ''.wal''"

definition strip_prefix :: "string \<Rightarrow> string \<Rightarrow> string option" where
  "strip_prefix p s = (if List.take (length p) s = p then Some (drop (length p) s) else None)"

definition strip_suffix :: "string \<Rightarrow> string \<Rightarrow> string option" where
  "strip_suffix p s =
     (if length p \<le> length s \<and> drop (length s - length p) s = p
      then Some (List.take (length s - length p) s) else None)"

definition is_digit :: "char \<Rightarrow> bool" where
  "is_digit c \<longleftrightarrow> 48 \<le> (of_char c :: nat) \<and> (of_char c :: nat) \<le> 57"

text \<open>\<open>str::parse::<u64>\<close>: an optional plus sign and decimal digits, no overflow.\<close>

definition parse_u64 :: "string \<Rightarrow> u64 option" where
  "parse_u64 s =
     (let ds = (if s \<noteq> [] \<and> hd s = CHR ''+'' then tl s else s)
      in if ds \<noteq> [] \<and> list_all is_digit ds \<and> dec_value ds < 2 ^ 64
         then Some (of_nat (dec_value ds)) else None)"

definition segment_index :: "string \<Rightarrow> u64 option" where
  "segment_index s =
     Option.bind (strip_prefix ''seg-'' s) (\<lambda>s. Option.bind (strip_suffix ''.wal'' s) parse_u64)"

fun max_seen :: "u64 option \<Rightarrow> string list \<Rightarrow> u64 option" where
  "max_seen m [] = m"
| "max_seen m (s # names) =
     max_seen (case segment_index s of None \<Rightarrow> m
       | Some idx \<Rightarrow> Some (case m of None \<Rightarrow> idx | Some m \<Rightarrow> max m idx)) names"

definition next_segment_index :: "string list \<Rightarrow> u64" where
  "next_segment_index names = (case max_seen None names of None \<Rightarrow> 0 | Some m \<Rightarrow> m + 1)"

definition segments_in :: "(string \<times> 'f) list \<Rightarrow> 'f list" where
  "segments_in entries =
     map snd (sort_key fst (List.map_filter (\<lambda>e. map_option (\<lambda>idx. (idx, snd e)) (segment_index (fst e))) entries))"

section \<open>The writer\<close>

record rotation_state =
  rot_next_index :: u64
  rot_max_segment_bytes :: u64

record wal_writer =
  w_path :: string
  w_next_seq :: u64
  w_bytes_written :: u64
  w_rotation :: "rotation_state option"

definition wal_create :: "string \<Rightarrow> dir \<Rightarrow> wal_error + (wal_writer \<times> dir)" where
  "wal_create path d =
     try_bind (create_segment path d) (\<lambda>(header_bytes, d).
       Inr (\<lparr>w_path = path, w_next_seq = 1, w_bytes_written = header_bytes, w_rotation = None\<rparr>, d))"

definition wal_open_dir :: "u64 \<Rightarrow> dir \<Rightarrow> wal_error + (wal_writer \<times> dir)" where
  "wal_open_dir max_segment_bytes d =
     (let next_index = next_segment_index (map fst d);
          path = segment_path next_index
      in try_bind (create_segment path d) (\<lambda>(header_bytes, d).
           Inr (\<lparr>w_path = path, w_next_seq = 1, w_bytes_written = header_bytes,
                  w_rotation = Some \<lparr>rot_next_index = next_index + 1,
                    rot_max_segment_bytes = max max_segment_bytes 64\<rparr>\<rparr>, d)))"

definition wal_commit :: "wal_writer \<times> dir \<Rightarrow> wal_writer \<times> dir" where
  "wal_commit st = (fst st, sync_all (w_path (fst st)) (snd st))"

definition wal_rotate :: "wal_writer \<times> dir \<Rightarrow> wal_error + (wal_writer \<times> dir)" where
  "wal_rotate st =
     (let (w, d) = wal_commit st
      in case w_rotation w of
           None \<Rightarrow> Inr (w, d)
         | Some rot \<Rightarrow>
             let path = segment_path (rot_next_index rot);
                 rot = rot\<lparr>rot_next_index := rot_next_index rot + 1\<rparr>
             in try_bind (create_segment path d) (\<lambda>(header_bytes, d).
                  Inr (w\<lparr>w_path := path, w_bytes_written := header_bytes, w_rotation := Some rot\<rparr>, d)))"

definition wal_append :: "(bytes \<Rightarrow> u32) \<Rightarrow> wal_record \<Rightarrow> wal_writer \<times> dir \<Rightarrow>
    wal_error + (sequence \<times> wal_writer \<times> dir)" where
  "wal_append crc32c rec st =
     (let seq = w_next_seq (fst st);
          payload = encode_record rec (u64_le seq)
      in if \<not> length payload < 2 ^ 32 then Inl RecordTooLarge
      else
        let len = of_nat (length payload) :: u32;
            record_bytes = FRAME_OVERHEAD + of_nat (length payload)
        in try_bind
             (case w_rotation (fst st) of
                Some rot \<Rightarrow>
                  if w_bytes_written (fst st) > 8 \<and>
                     w_bytes_written (fst st) + record_bytes > rot_max_segment_bytes rot
                  then wal_rotate st else Inr st
              | None \<Rightarrow> Inr st)
             (\<lambda>(w, d).
                let d = write_all (w_path w) (u32_le len) d;
                    d = write_all (w_path w) (u32_le (crc32c payload)) d;
                    d = write_all (w_path w) payload d
                in Inr (seq, w\<lparr>w_bytes_written := w_bytes_written w + record_bytes,
                              w_next_seq := w_next_seq w + 1\<rparr>, d)))"

definition wal_next_seq :: "wal_writer \<Rightarrow> sequence" where
  "wal_next_seq w = w_next_seq w"

section \<open>The reader\<close>

text \<open>\<open>read_exact\<close>: the bytes read and the rest of the file, or the end of the file.\<close>

definition read_exact :: "nat \<Rightarrow> bytes \<Rightarrow> io_error + (bytes \<times> bytes)" where
  "read_exact n bs = (if n \<le> length bs then Inr (List.take n bs, drop n bs) else Inl UnexpectedEof)"

definition reader_open :: "bytes \<Rightarrow> wal_error + bytes" where
  "reader_open contents =
     (case read_exact 8 contents of
        Inl e \<Rightarrow> Inl (WalIo e)
      | Inr (hdr, rest) \<Rightarrow>
          if (from_le_bytes (List.take 4 hdr) :: u32) \<noteq> WAL_MAGIC then Inl WalBadMagic
          else if hdr ! 4 \<noteq> SEGMENT_VERSION then Inl (UnknownSegmentVersion (hdr ! 4))
          else Inr rest)"

definition read_record :: "(bytes \<Rightarrow> u32) \<Rightarrow> bytes \<Rightarrow> wal_error + ((sequence \<times> wal_record) \<times> bytes) option" where
  "read_record crc32c bs =
     (case read_exact 8 bs of
        Inl UnexpectedEof \<Rightarrow> Inr None
      | Inl e \<Rightarrow> Inl (WalIo e)
      | Inr (header, bs) \<Rightarrow>
          let len = unat (from_le_bytes (List.take 4 header) :: u32);
              crc = (from_le_bytes (drop 4 header) :: u32)
          in case read_exact len bs of
               Inl UnexpectedEof \<Rightarrow> Inr None
             | Inl e \<Rightarrow> Inl (WalIo e)
             | Inr (payload, bs) \<Rightarrow>
                 if crc32c payload \<noteq> crc then Inl CrcMismatch
                 else if length payload < 8 then Inl WalTruncated
                 else try_bind (decode_record (drop 8 payload)) (\<lambda>rec.
                   Inr (Some ((from_le_bytes (List.take 8 payload), rec), bs))))"

lemma read_exact_rest: "read_exact n bs = Inr (xs, rest) \<Longrightarrow> length bs = n + length rest"
  by (auto simp: read_exact_def split: if_splits)

lemma read_record_consumes:
  "read_record crc bs = Inr (Some (sr, rest)) \<Longrightarrow> length rest < length bs"
  by (auto simp: read_record_def try_bind_Inr_iff Let_def dest!: read_exact_rest
      split: sum.splits io_error.splits if_splits)

text \<open>The \<open>while let\<close> loop over the records of a segment, with the callback \<open>f\<close> on its state.\<close>

function read_loop :: "(bytes \<Rightarrow> u32) \<Rightarrow> (sequence \<Rightarrow> wal_record \<Rightarrow> 's \<Rightarrow> 's) \<Rightarrow> bytes \<Rightarrow> 's \<Rightarrow> (wal_error + unit) \<times> 's" where
  "read_loop crc32c f bs s =
     (case read_record crc32c bs of
        Inl e \<Rightarrow> (Inl e, s)
      | Inr None \<Rightarrow> (Inr (), s)
      | Inr (Some ((seq, rec), bs')) \<Rightarrow> read_loop crc32c f bs' (f seq rec s))"
  by pat_completeness auto
termination
  by (relation "measure (\<lambda>(crc, f, bs, s). length bs)") (auto dest: sym read_record_consumes)

declare read_loop.simps [simp del]

definition for_each_record :: "(bytes \<Rightarrow> u32) \<Rightarrow> (sequence \<Rightarrow> wal_record \<Rightarrow> 's \<Rightarrow> 's) \<Rightarrow> bytes \<Rightarrow> 's \<Rightarrow> (wal_error + unit) \<times> 's" where
  "for_each_record crc32c f contents s =
     (case reader_open contents of Inl e \<Rightarrow> (Inl e, s) | Inr bs \<Rightarrow> read_loop crc32c f bs s)"

fun for_each_segment :: "(bytes \<Rightarrow> u32) \<Rightarrow> (sequence \<Rightarrow> wal_record \<Rightarrow> 's \<Rightarrow> 's) \<Rightarrow> bytes list \<Rightarrow> 's \<Rightarrow> (wal_error + unit) \<times> 's" where
  "for_each_segment crc32c f [] s = (Inr (), s)"
| "for_each_segment crc32c f (contents # segs) s =
     (case reader_open contents of
        Inl e \<Rightarrow> (Inl e, s)
      | Inr bs \<Rightarrow>
          (case read_loop crc32c f bs s of
             (Inl e, s') \<Rightarrow> (Inl e, s')
           | (Inr _, s') \<Rightarrow> for_each_segment crc32c f segs s'))"

text \<open>The directory is given as \<open>read_dir\<close> lists it: names with the contents of the files, in any order.\<close>

definition for_each_record_dir :: "(bytes \<Rightarrow> u32) \<Rightarrow> (sequence \<Rightarrow> wal_record \<Rightarrow> 's \<Rightarrow> 's) \<Rightarrow> (string \<times> bytes) list \<Rightarrow> 's \<Rightarrow> (wal_error + unit) \<times> 's" where
  "for_each_record_dir crc32c f entries s = for_each_segment crc32c f (segments_in entries) s"

end
