(* ===== verification/Snapshot.thy ===== *)
theory Snapshot
  imports Wal Book_Correct
begin

text \<open>
  Snapshots, \<^verbatim>\<open>bourse-core/src/snapshot.rs\<close>. Writing is a sequence of file-system actions ending in
  a rename, so that a crash can be placed between any two of them. \<open>snapshot_write\<close> gives the directory as programs see it
  when the last action is done; what of the rename a power failure leaves, with no \<open>fsync\<close> of the directory, is the subject of \<open>Volume\<close>. Reading
  works on the bytes of the file and rebuilds the book by adding its orders one by one.
\<close>

section \<open>Format\<close>

definition SNAP_MAGIC :: u32 where "SNAP_MAGIC = 0x4E53584D"
definition SNAP_VERSION :: u8 where "SNAP_VERSION = 2"

datatype snapshot_error =
    SnapIo io_error
  | SnapBadMagic
  | SnapUnknownVersion u8
  | SnapUnknownSide u8
  | SnapTruncated
  | InvalidOrder

fun io_to_err :: "io_error \<Rightarrow> snapshot_error" where
  "io_to_err UnexpectedEof = SnapTruncated"
| "io_to_err e = SnapIo e"

text \<open>The \<open>?\<close> of the writer converts with \<open>From\<close>, which keeps every error of the system.\<close>

definition snap_io :: "io_error + 'a \<Rightarrow> snapshot_error + 'a" where
  "snap_io r = (case r of Inl e \<Rightarrow> Inl (SnapIo e) | Inr x \<Rightarrow> Inr x)"

section \<open>Writing\<close>

definition snapshot_entry :: "resting_order \<Rightarrow> bytes list" where
  "snapshot_entry r =
     [u64_le (r_id r), [encode_side (r_side r)], u64_le (price_raw (r_price r)), u64_le (r_qty r), u64_le (r_seq r)]"

text \<open>The arguments of the successive calls of \<open>write_all\<close>.\<close>

definition snapshot_chunks :: "book \<Rightarrow> sequence \<Rightarrow> sequence \<Rightarrow> bytes list" where
  "snapshot_chunks b matcher_seq wal_seq =
     [u32_le SNAP_MAGIC, [SNAP_VERSION, 0, 0, 0], u64_le matcher_seq, u64_le wal_seq,
      u64_le (of_nat (length (iter_resting b)))] @
     concat (map snapshot_entry (iter_resting b))"

definition with_tmp_suffix :: "string \<Rightarrow> string" where
  "with_tmp_suffix path = path @ ''.tmp''"

definition snapshot_actions :: "book \<Rightarrow> sequence \<Rightarrow> sequence \<Rightarrow> string \<Rightarrow> fs_action list" where
  "snapshot_actions b matcher_seq wal_seq path =
     (let tmp = with_tmp_suffix path
      in [RemoveFile tmp, CreateNew tmp] @ map (WriteAll tmp) (snapshot_chunks b matcher_seq wal_seq) @
         [SyncAll tmp, Rename tmp path])"

definition snapshot_write :: "book \<Rightarrow> sequence \<Rightarrow> sequence \<Rightarrow> string \<Rightarrow> dir \<Rightarrow> snapshot_error + dir" where
  "snapshot_write b matcher_seq wal_seq path d = snap_io (fs_run (snapshot_actions b matcher_seq wal_seq path) d)"

section \<open>Reading\<close>

definition snap_read :: "nat \<Rightarrow> bytes \<Rightarrow> snapshot_error + (bytes \<times> bytes)" where
  "snap_read n bs = (case read_exact n bs of Inl e \<Rightarrow> Inl (io_to_err e) | Inr r \<Rightarrow> Inr r)"

definition snap_header :: "bytes \<Rightarrow> snapshot_error + bytes" where
  "snap_header contents =
     try_bind (snap_read 8 contents) (\<lambda>(hdr, bs).
       if (from_le_bytes (List.take 4 hdr) :: u32) \<noteq> SNAP_MAGIC then Inl SnapBadMagic
       else if hdr ! 4 \<noteq> SNAP_VERSION then Inl (SnapUnknownVersion (hdr ! 4))
       else Inr bs)"

definition slice :: "nat \<Rightarrow> nat \<Rightarrow> bytes \<Rightarrow> bytes" where
  "slice i n bs = List.take n (drop i bs)"

text \<open>The body of the loop: one 33-byte order added to the book.\<close>

definition read_order :: "bytes \<Rightarrow> book \<Rightarrow> snapshot_error + (bytes \<times> book)" where
  "read_order bs b =
     try_bind (snap_read 33 bs) (\<lambda>(buf, bs).
     try_bind (decode_side SnapUnknownSide (buf ! 8)) (\<lambda>s.
       let i = from_le_bytes (slice 0 8 buf);
           p = Price (from_le_bytes (slice 9 8 buf));
           q = from_le_bytes (slice 17 8 buf);
           sq = from_le_bytes (slice 25 8 buf);
           (ok, b') = book_add i s p q sq b
       in if \<not> ok then Inl InvalidOrder else Inr (bs, b')))"

fun read_orders :: "nat \<Rightarrow> bytes \<Rightarrow> book \<Rightarrow> snapshot_error + book" where
  "read_orders 0 bs b = Inr b"
| "read_orders (Suc n) bs b = try_bind (read_order bs b) (\<lambda>(bs, b). read_orders n bs b)"

definition read_full :: "bytes \<Rightarrow> snapshot_error + (book \<times> sequence \<times> sequence)" where
  "read_full contents =
     try_bind (snap_header contents) (\<lambda>bs.
     try_bind (snap_read 8 bs) (\<lambda>(matcher_buf, bs).
     try_bind (snap_read 8 bs) (\<lambda>(wal_buf, bs).
     try_bind (snap_read 8 bs) (\<lambda>(n_buf, bs).
     try_bind (read_orders (unat (from_le_bytes n_buf :: u64)) bs book_new) (\<lambda>b.
       Inr (b, from_le_bytes matcher_buf, from_le_bytes wal_buf))))))"

definition snapshot_read :: "bytes \<Rightarrow> snapshot_error + (book \<times> sequence)" where
  "snapshot_read contents = try_bind (read_full contents) (\<lambda>(b, matcher_seq, wal_seq). Inr (b, matcher_seq))"

definition read_wal_marker :: "bytes \<Rightarrow> snapshot_error + sequence" where
  "read_wal_marker contents =
     try_bind (snap_header contents) (\<lambda>bs.
     try_bind (snap_read 16 bs) (\<lambda>(buf, bs).
       Inr (from_le_bytes (slice 8 8 buf))))"

section \<open>Reading back what was written\<close>

definition snapshot_bytes :: "book \<Rightarrow> sequence \<Rightarrow> sequence \<Rightarrow> bytes" where
  "snapshot_bytes b matcher_seq wal_seq = concat (snapshot_chunks b matcher_seq wal_seq)"

definition entry_bytes :: "resting_order \<Rightarrow> bytes" where
  "entry_bytes r = concat (snapshot_entry r)"

lemma entry_bytes_eq:
  "entry_bytes r = u64_le (r_id r) @ [encode_side (r_side r)] @ u64_le (price_raw (r_price r)) @ u64_le (r_qty r) @ u64_le (r_seq r)"
  by (simp add: entry_bytes_def snapshot_entry_def)

lemma length_entry_bytes [simp]: "length (entry_bytes r) = 33"
  by (simp add: entry_bytes_eq)

lemma snapshot_bytes_eq:
  "snapshot_bytes b ms ws = u32_le SNAP_MAGIC @ [SNAP_VERSION, 0, 0, 0] @ u64_le ms @ u64_le ws @
     u64_le (of_nat (length (iter_resting b))) @ concat (map entry_bytes (iter_resting b))"
proof -
  have "concat (concat (map snapshot_entry rs)) = concat (map entry_bytes rs)" for rs
    by (induction rs) (simp_all add: entry_bytes_def)
  then show ?thesis by (simp add: snapshot_bytes_def snapshot_chunks_def)
qed

lemma snap_read_append [simp]: "length xs = n \<Longrightarrow> snap_read n (xs @ bs) = Inr (xs, bs)"
  by (auto simp: snap_read_def read_exact_def)

lemma snap_read_short: "length bs < n \<Longrightarrow> snap_read n bs = Inl SnapTruncated"
  by (simp add: snap_read_def read_exact_def)

lemma read_order_entry:
  "read_order (entry_bytes r @ bs) b =
     (case book_add (r_id r) (r_side r) (r_price r) (r_qty r) (r_seq r) b of
        (ok, b') \<Rightarrow> if ok then Inr (bs, b') else Inl InvalidOrder)"
proof -
  have "entry_bytes r ! 8 = encode_side (r_side r)" by (simp add: entry_bytes_eq nth_append)
  moreover have "slice 0 8 (entry_bytes r) = u64_le (r_id r)" "slice 9 8 (entry_bytes r) = u64_le (price_raw (r_price r))"
    "slice 17 8 (entry_bytes r) = u64_le (r_qty r)" "slice 25 8 (entry_bytes r) = u64_le (r_seq r)"
    by (simp_all add: slice_def entry_bytes_eq)
  ultimately show ?thesis by (simp add: read_order_def Let_def split_beta)
qed

lemma read_orders_entries:
  "readd rs b = Some b' \<Longrightarrow> read_orders (length rs) (concat (map entry_bytes rs) @ bs) b = Inr b'"
  by (induction rs arbitrary: b) (auto simp: read_order_entry split: prod.splits if_splits)

lemma snap_header_bytes: "snap_header (u32_le SNAP_MAGIC @ [SNAP_VERSION, 0, 0, 0] @ bs) = Inr bs"
proof -
  have "snap_read 8 ((u32_le SNAP_MAGIC @ [SNAP_VERSION, 0, 0, 0]) @ bs) = Inr (u32_le SNAP_MAGIC @ [SNAP_VERSION, 0, 0, 0], bs)"
    by (rule snap_read_append) simp
  then show ?thesis by (simp add: snap_header_def nth_append)
qed

lemma read_full_bytes:
  assumes "book_inv b" "book_len b < 2 ^ 64"
  shows "read_full (snapshot_bytes b ms ws) = Inr (b, ms, ws)"
proof -
  let ?n = "of_nat (length (iter_resting b)) :: u64"
  have n: "unat ?n = length (iter_resting b)"
    using assms by (simp add: unat_of_nat book_len_iter_resting)
  have "read_orders (length (iter_resting b)) (concat (map entry_bytes (iter_resting b)) @ []) book_new = Inr b"
    by (rule read_orders_entries [OF readd_iter_resting [OF assms(1)]])
  then show ?thesis
    by (simp add: read_full_def snapshot_bytes_eq snap_header_bytes [simplified] n)
qed

lemma read_wal_marker_bytes: "read_wal_marker (snapshot_bytes b ms ws) = Inr ws"
proof -
  have "snap_read 16 ((u64_le ms @ u64_le ws) @ bs) = Inr (u64_le ms @ u64_le ws, bs)" for bs
    by (rule snap_read_append) simp
  then show ?thesis
    by (simp add: read_wal_marker_def snapshot_bytes_eq snap_header_bytes [simplified] slice_def)
qed

section \<open>Truncated files\<close>

lemma snap_read_take:
  "snap_read (length xs) (List.take n (xs @ bs)) =
     (if n < length xs then Inl SnapTruncated else Inr (xs, List.take (n - length xs) bs))"
  by (simp add: snap_read_short)

lemma read_orders_take:
  assumes "readd rs b = Some b'" "n < 33 * length rs"
  shows "read_orders (length rs) (List.take n (concat (map entry_bytes rs))) b = Inl SnapTruncated"
  using assms
proof (induction rs arbitrary: b n)
  case (Cons r rs)
  show ?case
  proof (cases "n < 33")
    case True
    then show ?thesis by (simp add: read_order_def snap_read_short)
  next
    case False
    then have "List.take n (concat (map entry_bytes (r # rs))) = entry_bytes r @ List.take (n - 33) (concat (map entry_bytes rs))"
      by simp
    with Cons False show ?thesis
      by (auto simp: read_order_entry split: prod.splits if_splits)
  qed
qed simp

lemma read_full_truncated:
  assumes "book_inv b" "book_len b < 2 ^ 64" "n < length (snapshot_bytes b ms ws)"
  shows "read_full (List.take n (snapshot_bytes b ms ws)) = Inl SnapTruncated"
proof -
  let ?rs = "iter_resting b"
  let ?hdr = "u32_le SNAP_MAGIC @ [SNAP_VERSION, 0, 0, 0]"
  let ?body = "u64_le ms @ u64_le ws @ u64_le (of_nat (length ?rs)) @ concat (map entry_bytes ?rs)"
  have len: "length (concat (map entry_bytes rs)) = 33 * length rs" for rs
    by (induction rs) simp_all
  have cnt: "unat (of_nat (length ?rs) :: u64) = length ?rs"
    using assms(1,2) by (simp add: unat_of_nat book_len_iter_resting)
  have eq: "snapshot_bytes b ms ws = ?hdr @ ?body" by (simp add: snapshot_bytes_eq)
  have n: "n < 32 + 33 * length ?rs" using assms(3) by (simp add: snapshot_bytes_eq len)
  show ?thesis
  proof (cases "n < 8")
    case True
    with n show ?thesis by (simp add: read_full_def snap_header_def snap_read_short len eq)
  next
    case False
    have "length ?hdr = 8" by simp
    with False have "List.take n (snapshot_bytes b ms ws) = ?hdr @ List.take (n - 8) ?body"
      unfolding eq by (metis append_take_drop_id not_less take_all take_append)
    then have hdr: "snap_header (List.take n (snapshot_bytes b ms ws)) = Inr (List.take (n - 8) ?body)"
      using snap_header_bytes by simp
    have r8: "snap_read 8 (List.take m (u64_le w @ bs)) =
        (if m < 8 then Inl SnapTruncated else Inr (u64_le w, List.take (m - 8) bs))" for m w bs
      using snap_read_take [of "u64_le w" m bs] by simp
    show ?thesis
      using read_orders_take [OF readd_iter_resting [OF assms(1)], of "n - 32"] n False
      by (auto simp: read_full_def hdr r8 cnt simp del: take_append)
  qed
qed

end
