(* ===== verification/Wal_Correct.thy ===== *)
theory Wal_Correct
  imports Wal "HOL-Library.Sublist" "HOL-Library.Multiset"
begin

text \<open>
  What the log guarantees. A record is framed by its length and checksum; a file is a header and a
  concatenation of frames, and any prefix of it that keeps the header reads without error as a
  prefix of the records. The writer's invariant describes its directory as finished segments and
  a current one, split at the last commit, from which follow the round trip, what a crash keeps,
  and the behaviour of rotation and of reopening a directory.
\<close>

section \<open>Records and frames\<close>

lemma encode_record_append: "encode_record rec out = out @ encode_record rec []"
  by (cases rec) (simp_all add: encode_new_order_def)

lemma length_encode_record: "length (encode_record rec []) \<le> 36"
proof -
  have "length (encode_kind k) \<le> 9" for k by (cases k) simp_all
  then show ?thesis by (cases rec) (simp_all add: encode_new_order_def)
qed

lemma decode_encode_record [simp]: "decode_record (encode_record rec []) = Inr rec"
  using order_codec.dec_enc [of wal_short WalUnknownSide WalUnknownKindTag _ _ "[]"] read_u64_cur [of wal_short _ _ "[]"]
  by (cases rec)
    (simp_all add: decode_record_def cursor_new_cur codec_simps RECORD_VERSION_def REC_TYPE_NEW_ORDER_def
      REC_TYPE_CANCEL_def encode_new_order_def)

type_synonym entry = "sequence \<times> wal_record"

definition entry_payload :: "entry \<Rightarrow> bytes" where
  "entry_payload e = encode_record (snd e) (u64_le (fst e))"

definition entry_frame :: "(bytes \<Rightarrow> u32) \<Rightarrow> entry \<Rightarrow> bytes" where
  "entry_frame crc e =
     u32_le (of_nat (length (entry_payload e))) @ u32_le (crc (entry_payload e)) @ entry_payload e"

definition frames :: "(bytes \<Rightarrow> u32) \<Rightarrow> entry list \<Rightarrow> bytes" where
  "frames crc es = concat (map (entry_frame crc) es)"

lemma frames_simps [simp]: "frames crc [] = []" "frames crc (e # es) = entry_frame crc e @ frames crc es"
  "frames crc (es @ es') = frames crc es @ frames crc es'"
  by (simp_all add: frames_def)

lemma entry_payload_split: "entry_payload e = u64_le (fst e) @ encode_record (snd e) []"
  by (simp add: entry_payload_def encode_record_append [of _ "u64_le _"])

lemma length_entry_payload: "length (entry_payload e) \<le> 44"
  using length_encode_record [of "snd e"] by (simp add: entry_payload_split)

lemma payload_len [simp]:
  "unat (of_nat (length (entry_payload e)) :: u32) = length (entry_payload e)"
  using length_entry_payload [of e] by (simp add: unat_of_nat)

text \<open>A frame reads back as its entry, and a proper prefix of a frame as the end of the log.\<close>

lemma read_entry_frame: "read_record crc (entry_frame crc e @ bs) = Inr (Some (e, bs))"
proof -
  have "read_exact 8 (entry_frame crc e @ bs) =
      Inr (u32_le (of_nat (length (entry_payload e))) @ u32_le (crc (entry_payload e)), entry_payload e @ bs)"
    by (simp add: read_exact_def entry_frame_def)
  moreover have "read_exact (length (entry_payload e)) (entry_payload e @ bs) = Inr (entry_payload e, bs)"
    by (simp add: read_exact_def)
  ultimately show ?thesis
    by (simp add: read_record_def Let_def) (simp add: entry_payload_split)
qed

lemma read_partial_frame:
  assumes "n < length (entry_frame crc e)"
  shows "read_record crc (List.take n (entry_frame crc e)) = Inr None"
proof (cases "n < 8")
  case True
  with assms show ?thesis by (simp add: read_record_def read_exact_def)
next
  case False
  let ?hdr = "u32_le (of_nat (length (entry_payload e))) @ u32_le (crc (entry_payload e))"
  have "List.take n (entry_frame crc e) = ?hdr @ List.take (n - 8) (entry_payload e)"
    using False by (simp add: entry_frame_def)
  then have "read_exact 8 (List.take n (entry_frame crc e)) = Inr (?hdr, List.take (n - 8) (entry_payload e))"
    by (simp add: read_exact_def)
  moreover have "read_exact (length (entry_payload e)) (List.take (n - 8) (entry_payload e)) = Inl UnexpectedEof"
    using assms False by (simp add: read_exact_def entry_frame_def)
  ultimately show ?thesis by (simp add: read_record_def Let_def)
qed

lemma read_record_Nil: "read_record crc [] = Inr None"
  by (simp add: read_record_def read_exact_def)

lemma read_loop_frames:
  "read_record crc tail = Inr None \<Longrightarrow>
     read_loop crc f (frames crc es @ tail) s = (Inr (), fold (\<lambda>e. f (fst e) (snd e)) es s)"
proof (induction es arbitrary: s)
  case Nil
  then show ?case by (simp add: read_loop.simps)
next
  case (Cons e es)
  have "read_record crc (frames crc (e # es) @ tail) = Inr (Some ((fst e, snd e), frames crc es @ tail))"
    by (simp add: read_entry_frame)
  then show ?case
    using Cons by (subst read_loop.simps) (simp add: split_beta)
qed

text \<open>A prefix of a log is the frames of a prefix of its entries and the end of the log.\<close>

lemma take_frames:
  "\<exists>k tail. List.take n (frames crc es) = frames crc (List.take k es) @ tail \<and> read_record crc tail = Inr None"
proof (induction es arbitrary: n)
  case Nil
  then show ?case by (simp add: read_record_Nil)
next
  case (Cons e es)
  show ?case
  proof (cases "n < length (entry_frame crc e)")
    case True
    then show ?thesis
      using read_partial_frame by (intro exI [of _ 0] exI [of _ "List.take n (entry_frame crc e)"]) simp
  next
    case False
    obtain k tail where "List.take (n - length (entry_frame crc e)) (frames crc es) = frames crc (List.take k es) @ tail"
        "read_record crc tail = Inr None"
      using Cons.IH by blast
    with False show ?thesis by (intro exI [of _ "Suc k"] exI [of _ tail]) simp
  qed
qed

lemma open_segment: "reader_open (segment_header @ bs) = Inr bs"
proof -
  have "read_exact 8 (segment_header @ bs) = Inr (segment_header, bs)"
    by (simp add: read_exact_def segment_header_def)
  then show ?thesis
    by (simp add: reader_open_def segment_header_def nth_append)
qed

section \<open>Files\<close>

lemma dir_update_last:
  "path \<notin> fst ` set d \<Longrightarrow> dir_update path g (d @ [(path, f)]) = d @ [(path, g f)]"
  by (induction d) auto

lemma write_all_last:
  "path \<notin> fst ` set d \<Longrightarrow>
     write_all path bs (d @ [(path, \<lparr>f_durable = du, f_pending = pe\<rparr>)]) = d @ [(path, \<lparr>f_durable = du, f_pending = pe @ bs\<rparr>)]"
  by (simp add: write_all_def dir_update_last)

lemma sync_all_last:
  "path \<notin> fst ` set d \<Longrightarrow>
     sync_all path (d @ [(path, \<lparr>f_durable = du, f_pending = pe\<rparr>)]) = d @ [(path, \<lparr>f_durable = du @ pe, f_pending = []\<rparr>)]"
  by (simp add: sync_all_def dir_update_last)

lemma create_segment_new:
  "path \<notin> fst ` set d \<Longrightarrow>
     create_segment path d = Inr (8, d @ [(path, \<lparr>f_durable = segment_header, f_pending = []\<rparr>)])"
  by (simp add: create_segment_def segment_actions_def wal_io_def write_all_last sync_all_last segment_header_def)

lemma fs_run_append: "fs_run (as @ as') d = try_bind (fs_run as d) (fs_run as')"
  by (induction as arbitrary: d) (auto simp: try_bind_def split: sum.splits)

lemma fs_run_writes:
  "p \<notin> fst ` set d \<Longrightarrow>
     fs_run (map (WriteAll p) chunks) (d @ [(p, \<lparr>f_durable = du, f_pending = pe\<rparr>)]) =
     Inr (d @ [(p, \<lparr>f_durable = du, f_pending = pe @ concat chunks\<rparr>)])"
  by (induction chunks arbitrary: pe) (simp_all add: write_all_last)

section \<open>Segment names\<close>

lemma is_digit_char [simp]: "d < 10 \<Longrightarrow> is_digit (digit_char d)"
  by (simp add: is_digit_def)

lemma dec_string_digits: "list_all is_digit (dec_string n)"
proof (induction n rule: dec_string.induct)
  case (1 n)
  then show ?case by (subst dec_string.simps) (simp add: is_digit_char)
qed

lemma dec_padded_digits: "list_all is_digit (dec_padded w n)"
proof -
  have "is_digit (CHR ''0'')" by (simp add: is_digit_def)
  then show ?thesis using dec_string_digits [of n] by (auto simp: dec_padded_def list_all_iff)
qed

lemma dec_padded_not_Nil: "dec_padded w n \<noteq> []"
  by (simp add: dec_padded_def) (subst dec_string.simps, simp)

lemma parse_dec_padded: "parse_u64 (dec_padded w (unat i)) = Some i"
proof -
  have "\<not> is_digit (CHR ''+'')" by (simp add: is_digit_def)
  then have "hd (dec_padded w (unat i)) \<noteq> CHR ''+''"
    using dec_padded_digits [of w "unat i"] dec_padded_not_Nil [of w "unat i"]
    by (cases "dec_padded w (unat i)") auto
  then show ?thesis
    using dec_padded_digits [of w "unat i"] dec_padded_not_Nil [of w "unat i"] unsigned_less [of i, where 'a = nat]
    by (simp add: parse_u64_def)
qed

lemma segment_index_path [simp]: "segment_index (segment_path i) = Some i"
  by (simp add: segment_index_def segment_path_def strip_prefix_def strip_suffix_def parse_dec_padded)

lemma segment_path_inj: "segment_path i = segment_path j \<longleftrightarrow> i = j"
  by (metis option.inject segment_index_path)

section \<open>The writer's invariant\<close>

text \<open>
  The directory holds \<open>d0\<close>, which was there before, the finished segments, all durable, and the
  current file with the entries up to the last commit and those since. In rotating mode the
  segments are numbered consecutively from \<open>k\<close>.
\<close>

definition closed_file :: "(bytes \<Rightarrow> u32) \<Rightarrow> string \<times> entry list \<Rightarrow> string \<times> wal_file" where
  "closed_file crc seg = (fst seg, \<lparr>f_durable = segment_header @ frames crc (snd seg), f_pending = []\<rparr>)"

definition all_entries :: "(string \<times> entry list) list \<Rightarrow> entry list \<Rightarrow> entry list \<Rightarrow> entry list" where
  "all_entries segs cs ps = concat (map snd segs) @ cs @ ps"

definition tagged :: "wal_record list \<Rightarrow> entry list" where
  "tagged rs = zip (map (\<lambda>n. of_nat (Suc n)) [0..<length rs]) rs"

lemma length_tagged [simp]: "length (tagged rs) = length rs"
  by (simp add: tagged_def)

lemma tagged_snoc: "tagged (rs @ [r]) = tagged rs @ [(of_nat (Suc (length rs)), r)]"
  by (simp add: tagged_def)

definition writer_inv :: "(bytes \<Rightarrow> u32) \<Rightarrow> dir \<Rightarrow> u64 \<Rightarrow> wal_record list \<Rightarrow>
    (string \<times> entry list) list \<Rightarrow> entry list \<Rightarrow> entry list \<Rightarrow> wal_writer \<times> dir \<Rightarrow> bool" where
  "writer_inv crc d0 k rs segs cs ps st \<longleftrightarrow>
     (let (w, d) = st
      in d = d0 @ map (closed_file crc) segs @
           [(w_path w, \<lparr>f_durable = segment_header @ frames crc cs, f_pending = frames crc ps\<rparr>)] \<and>
         w_path w \<notin> fst ` set (d0 @ map (closed_file crc) segs) \<and>
         all_entries segs cs ps = tagged rs \<and> w_next_seq w = of_nat (Suc (length rs)) \<and>
         (case w_rotation w of
            None \<Rightarrow> segs = []
          | Some rot \<Rightarrow>
              map fst segs = map (\<lambda>n. segment_path (k + of_nat n)) [0..<length segs] \<and>
              w_path w = segment_path (k + of_nat (length segs)) \<and>
              rot_next_index rot = k + of_nat (Suc (length segs))))"

lemma writer_inv_all: "writer_inv crc d0 k rs segs cs ps (w, d) \<Longrightarrow> all_entries segs cs ps = tagged rs"
  by (simp add: writer_inv_def)

lemma writer_inv_fresh: "writer_inv crc d0 k rs segs cs ps (w, d) \<Longrightarrow> w_path w \<notin> fst ` set (d0 @ map (closed_file crc) segs)"
  by (simp add: writer_inv_def)

lemma writer_inv_names:
  "writer_inv crc d0 k rs segs cs ps (w, d) \<Longrightarrow> w_rotation w \<noteq> None \<Longrightarrow>
     map fst d = map fst d0 @ map segment_path (map (\<lambda>n. k + of_nat n) [0..<Suc (length segs)])"
  by (auto simp: writer_inv_def closed_file_def comp_def)

lemma writer_inv_commit:
  "writer_inv crc d0 k rs segs cs ps st \<Longrightarrow> writer_inv crc d0 k rs segs (cs @ ps) [] (wal_commit st)"
  using sync_all_last [of "w_path (fst st)" "d0 @ map (closed_file crc) segs" "segment_header @ frames crc cs" "frames crc ps"]
  by (auto simp: writer_inv_def wal_commit_def all_entries_def split_beta Let_def split: option.splits)

text \<open>Writing one frame, once the current file is settled.\<close>

lemma writer_inv_write:
  assumes "writer_inv crc d0 k rs segs cs ps (w, d)"
  shows "writer_inv crc d0 k (rs @ [rec]) segs cs (ps @ [(w_next_seq w, rec)])
    (w\<lparr>w_bytes_written := n, w_next_seq := w_next_seq w + 1\<rparr>,
     write_all (w_path w) (entry_frame crc (w_next_seq w, rec)) d)"
  using assms write_all_last [of "w_path w" "d0 @ map (closed_file crc) segs" "entry_frame crc (w_next_seq w, rec)"
      "segment_header @ frames crc cs" "frames crc ps"]
  by (auto simp: writer_inv_def all_entries_def tagged_snoc Let_def split: option.splits)

text \<open>A new segment never meets an existing file while the indices do not wrap.\<close>

definition older :: "dir \<Rightarrow> u64 \<Rightarrow> bool" where
  "older d0 k \<longleftrightarrow> (\<forall>s \<in> fst ` set d0. \<forall>j. segment_index s = Some j \<longrightarrow> j < k)"

lemma older_Nil [simp]: "older [] k"
  by (simp add: older_def)

lemma word_add_of_nat:
  assumes "unat (k :: u64) + n < 2 ^ 64"
  shows "unat (k + of_nat n) = unat k + n"
  using assms by (simp add: unat_word_ariths unat_of_nat)

lemma fresh_segment_path:
  assumes "older d0 k" "map fst segs = map (\<lambda>n. segment_path (k + of_nat n)) [0..<length segs]"
    "unat k + length segs < 2 ^ 64"
  shows "segment_path (k + of_nat (length segs)) \<notin> fst ` set (d0 @ map (closed_file crc) segs)"
proof -
  let ?i = "k + of_nat (length segs)"
  have i: "unat ?i = unat k + length segs" using assms(3) by (rule word_add_of_nat)
  have "segment_path ?i \<notin> fst ` set d0"
    using assms(1) segment_index_path [of ?i] i by (force simp: older_def word_less_nat_alt)
  moreover have "segment_path ?i \<notin> set (map fst segs)"
  proof
    assume "segment_path ?i \<in> set (map fst segs)"
    then obtain n where n: "n < length segs" "?i = k + of_nat n"
      unfolding assms(2) by (auto simp: segment_path_inj)
    then have "unat ?i = unat k + n" using assms(3) word_add_of_nat [of k n] by simp
    with i n(1) show False by simp
  qed
  ultimately show ?thesis by (auto simp: closed_file_def image_iff)
qed

lemma writer_inv_rotate:
  assumes "writer_inv crc d0 k rs segs cs ps (w, d)" "w_rotation w = Some rot" "older d0 k"
    "unat k + Suc (length segs) < 2 ^ 64"
  obtains d' where "wal_rotate (w, d) = Inr (w\<lparr>w_path := segment_path (rot_next_index rot), w_bytes_written := 8,
        w_rotation := Some (rot\<lparr>rot_next_index := rot_next_index rot + 1\<rparr>)\<rparr>, d')"
    "writer_inv crc d0 k rs (segs @ [(w_path w, cs @ ps)]) [] []
      (w\<lparr>w_path := segment_path (rot_next_index rot), w_bytes_written := 8,
        w_rotation := Some (rot\<lparr>rot_next_index := rot_next_index rot + 1\<rparr>)\<rparr>, d')"
proof -
  let ?segs = "segs @ [(w_path w, cs @ ps)]"
  obtain d1 where c: "wal_commit (w, d) = (w, d1)" by (simp add: wal_commit_def)
  have inv: "writer_inv crc d0 k rs segs (cs @ ps) [] (w, d1)"
    using writer_inv_commit [OF assms(1)] c by simp
  then have d1: "d1 = d0 @ map (closed_file crc) ?segs"
    by (simp add: writer_inv_def closed_file_def)
  have names: "map fst ?segs = map (\<lambda>n. segment_path (k + of_nat n)) [0..<length ?segs]"
    and nxt: "rot_next_index rot = k + of_nat (length ?segs)"
    using inv assms(2) by (simp_all add: writer_inv_def)
  have fresh: "segment_path (rot_next_index rot) \<notin> fst ` set d1"
    unfolding d1 nxt using assms(3,4) names by (intro fresh_segment_path) simp_all
  show thesis
  proof (rule that)
    show "wal_rotate (w, d) = Inr (w\<lparr>w_path := segment_path (rot_next_index rot), w_bytes_written := 8,
        w_rotation := Some (rot\<lparr>rot_next_index := rot_next_index rot + 1\<rparr>)\<rparr>,
        d1 @ [(segment_path (rot_next_index rot), \<lparr>f_durable = segment_header, f_pending = []\<rparr>)])"
      using c assms(2) by (simp add: wal_rotate_def create_segment_new [OF fresh] Let_def)
    show "writer_inv crc d0 k rs ?segs [] []
      (w\<lparr>w_path := segment_path (rot_next_index rot), w_bytes_written := 8,
        w_rotation := Some (rot\<lparr>rot_next_index := rot_next_index rot + 1\<rparr>)\<rparr>,
       d1 @ [(segment_path (rot_next_index rot), \<lparr>f_durable = segment_header, f_pending = []\<rparr>)])"
      using inv names nxt fresh d1 by (simp add: writer_inv_def all_entries_def algebra_simps)
  qed
qed

section \<open>Appending\<close>

text \<open>The step of \<open>append\<close> once rotation is decided, and the entries it makes durable.\<close>

lemma write_all_append: "write_all p bs' (write_all p bs d) = write_all p (bs @ bs') d"
proof -
  have "dir_update p g (dir_update p h d) = dir_update p (g \<circ> h) d" for g h
    by (induction d) auto
  then show ?thesis by (simp add: write_all_def comp_def)
qed

definition record_bytes :: "entry \<Rightarrow> u64" where
  "record_bytes e = FRAME_OVERHEAD + of_nat (length (entry_payload e))"

definition rotates :: "wal_writer \<Rightarrow> entry \<Rightarrow> bool" where
  "rotates w e \<longleftrightarrow>
     (case w_rotation w of
        None \<Rightarrow> False
      | Some rot \<Rightarrow> w_bytes_written w > 8 \<and> w_bytes_written w + record_bytes e > rot_max_segment_bytes rot)"

lemma wal_append_unfold:
  "wal_append crc rec (w, d) =
     (let e = (w_next_seq w, rec)
      in try_bind (if rotates w e then wal_rotate (w, d) else Inr (w, d)) (\<lambda>(w', d').
           Inr (w_next_seq w,
                w'\<lparr>w_bytes_written := w_bytes_written w' + record_bytes e, w_next_seq := w_next_seq w' + 1\<rparr>,
                write_all (w_path w') (entry_frame crc e) d')))"
proof -
  have "length (encode_record rec (u64_le (w_next_seq w))) < 2 ^ 32"
    using length_entry_payload [of "(w_next_seq w, rec)"] by (simp add: entry_payload_def)
  then show ?thesis
    unfolding wal_append_def rotates_def record_bytes_def entry_frame_def
    by (simp add: entry_payload_def write_all_append Let_def split: option.splits)
qed

definition durable_count :: "(string \<times> entry list) list \<Rightarrow> entry list \<Rightarrow> nat" where
  "durable_count segs cs = length (concat (map snd segs) @ cs)"

text \<open>The sizes of the segments of a rotating writer, its byte count included.\<close>

definition size_ok :: "(bytes \<Rightarrow> u32) \<Rightarrow> u64 \<Rightarrow> (string \<times> entry list) list \<Rightarrow> entry list \<Rightarrow> entry list \<Rightarrow> wal_writer \<Rightarrow> bool" where
  "size_ok crc mx segs cs ps w \<longleftrightarrow>
     map_option rot_max_segment_bytes (w_rotation w) = Some mx \<and>
     (\<forall>seg \<in> set segs. 8 + length (frames crc (snd seg)) \<le> unat mx) \<and>
     unat (w_bytes_written w) = 8 + length (frames crc (cs @ ps)) \<and> 8 + length (frames crc (cs @ ps)) \<le> unat mx"

lemma length_entry_frame: "length (entry_frame crc e) = unat (record_bytes e)" "unat (record_bytes e) \<le> 52"
proof -
  have "unat (of_nat (length (entry_payload e)) :: u64) = length (entry_payload e)"
    using length_entry_payload [of e] by (simp add: unat_of_nat)
  then have "unat (record_bytes e) = 8 + length (entry_payload e)"
    using length_entry_payload [of e] by (simp add: record_bytes_def FRAME_OVERHEAD_def unat_word_ariths)
  then show "length (entry_frame crc e) = unat (record_bytes e)" "unat (record_bytes e) \<le> 52"
    using length_entry_payload [of e] by (simp_all add: entry_frame_def)
qed

lemma size_ok_write:
  assumes "size_ok crc mx segs cs ps w" "64 \<le> unat mx" "unat mx + 64 < 2 ^ 64" "\<not> rotates w e"
  shows "size_ok crc mx segs cs (ps @ [e]) (w\<lparr>w_bytes_written := w_bytes_written w + record_bytes e, w_next_seq := n\<rparr>)"
proof -
  have "unat (w_bytes_written w) \<le> unat mx" using assms(1) by (simp add: size_ok_def)
  then have sum: "unat (w_bytes_written w + record_bytes e) = unat (w_bytes_written w) + unat (record_bytes e)"
    using length_entry_frame(2) [of e] assms(3) by (simp add: unat_word_ariths)
  have "unat (w_bytes_written w + record_bytes e) \<le> unat mx"
  proof (cases "w_bytes_written w > 8")
    case True
    then show ?thesis
      using assms(1,4) by (auto simp: size_ok_def rotates_def word_le_nat_alt not_less)
  next
    case False
    then show ?thesis
      using sum length_entry_frame(2) [of e] assms(2) by (simp add: word_less_nat_alt)
  qed
  with assms(1) sum show ?thesis by (simp add: size_ok_def length_entry_frame(1))
qed

lemma writer_inv_append:
  assumes inv: "writer_inv crc d0 k rs segs cs ps (w, d)"
    and room: "w_rotation w \<noteq> None \<Longrightarrow> older d0 k \<and> unat k + Suc (length segs) < 2 ^ 64"
  obtains w' d' segs' cs' ps' where
    "wal_append crc rec (w, d) = Inr (of_nat (Suc (length rs)), w', d')"
    "writer_inv crc d0 k (rs @ [rec]) segs' cs' ps' (w', d')"
    "length segs' \<le> Suc (length segs)" "durable_count segs cs \<le> durable_count segs' cs'"
    "w_rotation w' = None \<longleftrightarrow> w_rotation w = None"
    "\<forall>mx. size_ok crc mx segs cs ps w \<and> 64 \<le> unat mx \<and> unat mx + 64 < 2 ^ 64 \<longrightarrow> size_ok crc mx segs' cs' ps' w'"
proof -
  have seq: "w_next_seq w = of_nat (Suc (length rs))" using inv by (simp add: writer_inv_def)
  let ?e = "(w_next_seq w, rec)"
  show thesis
  proof (cases "rotates w ?e")
    case False
    show thesis
      by (rule that [OF _ writer_inv_write [OF inv, of rec "w_bytes_written w + record_bytes ?e"]])
        (use False seq size_ok_write [of crc _ segs cs ps w ?e] in \<open>simp_all add: wal_append_unfold Let_def\<close>)
  next
    case True
    then obtain rot where rot: "w_rotation w = Some rot" by (auto simp: rotates_def split: option.splits)
    obtain d' where r: "wal_rotate (w, d) = Inr (w\<lparr>w_path := segment_path (rot_next_index rot), w_bytes_written := 8,
          w_rotation := Some (rot\<lparr>rot_next_index := rot_next_index rot + 1\<rparr>)\<rparr>, d')"
      and inv': "writer_inv crc d0 k rs (segs @ [(w_path w, cs @ ps)]) [] []
        (w\<lparr>w_path := segment_path (rot_next_index rot), w_bytes_written := 8,
          w_rotation := Some (rot\<lparr>rot_next_index := rot_next_index rot + 1\<rparr>)\<rparr>, d')"
      using writer_inv_rotate [OF inv rot] room rot by (metis option.discI)
    let ?w = "w\<lparr>w_path := segment_path (rot_next_index rot), w_bytes_written := 8,
        w_rotation := Some (rot\<lparr>rot_next_index := rot_next_index rot + 1\<rparr>)\<rparr>"
    have size: "size_ok crc mx (segs @ [(w_path w, cs @ ps)]) [] ([] @ [?e])
        (?w\<lparr>w_bytes_written := w_bytes_written ?w + record_bytes ?e, w_next_seq := w_next_seq w + 1\<rparr>)"
      if "size_ok crc mx segs cs ps w" "64 \<le> unat mx" "unat mx + 64 < 2 ^ 64" for mx
      using that rot by (intro size_ok_write) (auto simp: size_ok_def rotates_def)
    show thesis
      by (rule that [OF _ writer_inv_write [OF inv', of rec "8 + record_bytes ?e"]])
        (use True seq r rot size in \<open>simp_all add: wal_append_unfold durable_count_def Let_def\<close>)
  qed
qed

section \<open>Runs of the writer\<close>

datatype wal_op = Append wal_record | Commit

fun wal_op_step :: "(bytes \<Rightarrow> u32) \<Rightarrow> wal_op \<Rightarrow> wal_writer \<times> dir \<Rightarrow> wal_error + (wal_writer \<times> dir)" where
  "wal_op_step crc (Append rec) st = try_bind (wal_append crc rec st) (\<lambda>(sq, st'). Inr st')"
| "wal_op_step crc Commit st = Inr (wal_commit st)"

fun wal_run :: "(bytes \<Rightarrow> u32) \<Rightarrow> wal_op list \<Rightarrow> wal_writer \<times> dir \<Rightarrow> wal_error + (wal_writer \<times> dir)" where
  "wal_run crc [] st = Inr st"
| "wal_run crc (op # ops) st = try_bind (wal_op_step crc op st) (wal_run crc ops)"

fun appended :: "wal_op list \<Rightarrow> wal_record list" where
  "appended [] = []"
| "appended (Append rec # ops) = rec # appended ops"
| "appended (Commit # ops) = appended ops"

text \<open>How many records a run has appended before its last commit.\<close>

fun committed :: "wal_op list \<Rightarrow> nat" where
  "committed [] = 0"
| "committed (op # ops) =
     (if Commit \<in> set (op # ops)
      then (case op of Append _ \<Rightarrow> 1 | Commit \<Rightarrow> 0) + committed ops else 0)"

lemma committed_no_commit: "Commit \<notin> set ops \<Longrightarrow> committed ops = 0"
  by (induction ops) auto

lemma wal_run_inv:
  assumes "writer_inv crc d0 k rs segs cs ps st"
    "w_rotation (fst st) \<noteq> None \<longrightarrow> older d0 k \<and> unat k + length segs + length ops < 2 ^ 64"
  shows "\<exists>st' segs' cs' ps'. wal_run crc ops st = Inr st' \<and>
    writer_inv crc d0 k (rs @ appended ops) segs' cs' ps' st' \<and>
    (if Commit \<in> set ops then length rs + committed ops else durable_count segs cs) \<le> durable_count segs' cs' \<and>
    (w_rotation (fst st') = None \<longleftrightarrow> w_rotation (fst st) = None) \<and> length segs' \<le> length segs + length ops \<and>
    (size_ok crc mx segs cs ps (fst st) \<and> 64 \<le> unat mx \<and> unat mx + 64 < 2 ^ 64 \<longrightarrow> size_ok crc mx segs' cs' ps' (fst st'))"
  using assms
proof (induction ops arbitrary: rs segs cs ps st)
  case Nil
  then show ?case by auto
next
  case (Cons op ops)
  obtain w d where st: "st = (w, d)" by (cases st)
  show ?case
  proof (cases op)
    case (Append rec)
    have room: "w_rotation w \<noteq> None \<Longrightarrow> older d0 k \<and> unat k + Suc (length segs) < 2 ^ 64"
      using Cons.prems(2) st by simp
    obtain w' d' segs' cs' ps' where a: "wal_append crc rec (w, d) = Inr (of_nat (Suc (length rs)), w', d')"
      "writer_inv crc d0 k (rs @ [rec]) segs' cs' ps' (w', d')"
      "length segs' \<le> Suc (length segs)" "durable_count segs cs \<le> durable_count segs' cs'"
      "w_rotation w' = None \<longleftrightarrow> w_rotation w = None"
      "\<forall>mx. size_ok crc mx segs cs ps w \<and> 64 \<le> unat mx \<and> unat mx + 64 < 2 ^ 64 \<longrightarrow> size_ok crc mx segs' cs' ps' w'"
      by (rule writer_inv_append [where rec = rec, OF Cons.prems(1) [unfolded st] room])
    have room': "w_rotation (fst (w', d')) \<noteq> None \<longrightarrow> older d0 k \<and> unat k + length segs' + length ops < 2 ^ 64"
      using a(3,5) Cons.prems(2) st by fastforce
    obtain st2 segs2 cs2 ps2 where b: "wal_run crc ops (w', d') = Inr st2"
      "writer_inv crc d0 k ((rs @ [rec]) @ appended ops) segs2 cs2 ps2 st2"
      "(if Commit \<in> set ops then length (rs @ [rec]) + committed ops else durable_count segs' cs') \<le> durable_count segs2 cs2"
      "w_rotation (fst st2) = None \<longleftrightarrow> w_rotation (fst (w', d')) = None" "length segs2 \<le> length segs' + length ops"
      "size_ok crc mx segs' cs' ps' (fst (w', d')) \<and> 64 \<le> unat mx \<and> unat mx + 64 < 2 ^ 64 \<longrightarrow> size_ok crc mx segs2 cs2 ps2 (fst st2)"
      using Cons.IH [OF a(2) room'] by (elim exE conjE) (rule that)
    have "wal_run crc (op # ops) st = Inr st2" using a(1) b(1) st Append by simp
    moreover have "(if Commit \<in> set (op # ops) then length rs + committed (op # ops) else durable_count segs cs) \<le>
        durable_count segs2 cs2"
      using b(3) a(4) Append by (simp split: if_splits)
    ultimately show ?thesis
      using b(2,4,5,6) a(3,5,6) st Append by (intro exI [of _ st2] exI [of _ segs2] exI [of _ cs2] exI [of _ ps2]) simp
  next
    case Commit
    have c: "writer_inv crc d0 k rs segs (cs @ ps) [] (wal_commit st)"
      by (rule writer_inv_commit [OF Cons.prems(1)])
    have all: "durable_count segs (cs @ ps) = length rs"
      using Cons.prems(1) arg_cong [of "all_entries segs cs ps" "tagged rs" length] st
      by (simp add: writer_inv_def durable_count_def all_entries_def)
    have rot: "w_rotation (fst (wal_commit st)) = w_rotation (fst st)" by (simp add: wal_commit_def)
    then have room: "w_rotation (fst (wal_commit st)) \<noteq> None \<longrightarrow> older d0 k \<and> unat k + length segs + length ops < 2 ^ 64"
      using Cons.prems(2) by auto
    obtain st2 segs2 cs2 ps2 where b: "wal_run crc ops (wal_commit st) = Inr st2"
      "writer_inv crc d0 k (rs @ appended ops) segs2 cs2 ps2 st2"
      "(if Commit \<in> set ops then length rs + committed ops else length rs) \<le> durable_count segs2 cs2"
      "w_rotation (fst st2) = None \<longleftrightarrow> w_rotation (fst st) = None" "length segs2 \<le> length segs + length ops"
      "size_ok crc mx segs (cs @ ps) [] (fst (wal_commit st)) \<and> 64 \<le> unat mx \<and> unat mx + 64 < 2 ^ 64 \<longrightarrow> size_ok crc mx segs2 cs2 ps2 (fst st2)"
      using Cons.IH [OF c room] unfolding all rot by (elim exE conjE) (rule that)
    then have "length rs + committed (op # ops) \<le> durable_count segs2 cs2"
      using Commit committed_no_commit [of ops] by (simp split: if_splits)
    moreover have "size_ok crc mx segs (cs @ ps) [] (fst (wal_commit st)) = size_ok crc mx segs cs ps (fst st)"
      by (simp add: size_ok_def wal_commit_def)
    ultimately show ?thesis using b Commit
      by (intro exI [of _ st2] exI [of _ segs2] exI [of _ cs2] exI [of _ ps2]) simp
  qed
qed

lemma wal_run_path:
  "wal_run crc ops st = Inr st' \<Longrightarrow> w_rotation (fst st) = None \<Longrightarrow>
     w_rotation (fst st') = None \<and> w_path (fst st') = w_path (fst st)"
proof (induction ops arbitrary: st)
  case (Cons op ops)
  obtain st1 where s: "wal_op_step crc op st = Inr st1" "wal_run crc ops st1 = Inr st'"
    using Cons.prems(1) by (auto simp: try_bind_Inr_iff)
  have "w_rotation (fst st1) = None \<and> w_path (fst st1) = w_path (fst st)"
    using s(1) Cons.prems(2)
    by (cases op; cases st) (auto simp: wal_append_unfold rotates_def Let_def wal_commit_def)
  with Cons.IH [OF s(2)] show ?case by simp
qed simp

section \<open>The system calls of an operation\<close>

text \<open>What an operation of the writer asks of the file system, so that a crash can fall inside it.\<close>

fun op_actions :: "(bytes \<Rightarrow> u32) \<Rightarrow> wal_op \<Rightarrow> wal_writer \<Rightarrow> fs_action list" where
  "op_actions crc Commit w = [SyncAll (w_path w)]"
| "op_actions crc (Append rec) w =
     (let e = (w_next_seq w, rec);
          path = (if rotates w e then segment_path (rot_next_index (the (w_rotation w))) else w_path w)
      in (if rotates w e then SyncAll (w_path w) # segment_actions path else []) @
         map (WriteAll path)
           [u32_le (of_nat (length (entry_payload e))), u32_le (crc (entry_payload e)), entry_payload e])"

lemma fs_run_write_frame:
  "fs_run (map (WriteAll path) [u32_le (of_nat (length (entry_payload e))), u32_le (crc (entry_payload e)), entry_payload e]) d =
     Inr (write_all path (entry_frame crc e) d)"
  by (simp add: write_all_append entry_frame_def)

text \<open>Done in full, they are the operation.\<close>

lemma op_actions_step: "map_sum id snd (wal_op_step crc op (w, d)) = wal_io (fs_run (op_actions crc op w) d)"
proof (cases op)
  case (Append rec)
  let ?e = "(w_next_seq w, rec)"
  show ?thesis
  proof (cases "rotates w ?e")
    case True
    then obtain rot where "w_rotation w = Some rot" by (auto simp: rotates_def split: option.splits)
    then show ?thesis
      using Append True fs_run_write_frame [of "segment_path (rot_next_index rot)" ?e crc]
      by (cases "fs_run (segment_actions (segment_path (rot_next_index rot))) (sync_all (w_path w) d)")
        (simp_all add: wal_append_unfold Let_def wal_rotate_def wal_commit_def create_segment_def wal_io_def fs_run_append
          del: list.map)
  next
    case False
    then show ?thesis
      using Append fs_run_write_frame [of "w_path w" ?e crc d]
      by (simp add: wal_append_unfold Let_def wal_io_def del: list.map)
  qed
qed (simp add: wal_commit_def wal_io_def)

lemma writes_prefix:
  assumes "path \<notin> fst ` set d"
  obtains pe' where "fs_run (List.take j (map (WriteAll path) chunks)) (d @ [(path, \<lparr>f_durable = du, f_pending = pe\<rparr>)]) =
      Inr (d @ [(path, \<lparr>f_durable = du, f_pending = pe @ pe'\<rparr>)])" "prefix pe' (concat chunks)"
proof (rule that)
  show "fs_run (List.take j (map (WriteAll path) chunks)) (d @ [(path, \<lparr>f_durable = du, f_pending = pe\<rparr>)]) =
      Inr (d @ [(path, \<lparr>f_durable = du, f_pending = pe @ concat (List.take j chunks)\<rparr>)])"
    by (simp add: take_map fs_run_writes [OF assms])
  show "prefix (concat (List.take j chunks)) (concat chunks)"
    by (metis append_take_drop_id concat_append prefixI)
qed

section \<open>Crashes\<close>

text \<open>What a crash leaves of a directory whose entries all survive: of every file what is durable, and a prefix of what is
  pending, as the module's comment has it: a torn write is a record cut short.\<close>

definition crash_file :: "nat \<Rightarrow> wal_file \<Rightarrow> bytes" where
  "crash_file keep f = f_durable f @ List.take keep (f_pending f)"

definition crash :: "(string \<Rightarrow> nat) \<Rightarrow> dir \<Rightarrow> (string \<times> bytes) list" where
  "crash keep d = map (\<lambda>e. (fst e, crash_file (keep (fst e)) (snd e))) d"

abbreviation collect :: "sequence \<Rightarrow> wal_record \<Rightarrow> entry list \<Rightarrow> entry list" where
  "collect sq rec out \<equiv> out @ [(sq, rec)]"

lemma fold_collect: "fold (\<lambda>e. collect (fst e) (snd e)) es out = out @ es"
  by (induction es arbitrary: out) simp_all

lemma for_each_segment_frames:
  "for_each_segment crc f (map (\<lambda>es. segment_header @ frames crc es) ess @ segs) s =
     for_each_segment crc f segs (fold (\<lambda>e. f (fst e) (snd e)) (concat ess) s)"
proof (induction ess arbitrary: s)
  case (Cons es ess)
  have "read_loop crc f (frames crc es) s = (Inr (), fold (\<lambda>e. f (fst e) (snd e)) es s)"
    using read_loop_frames [OF read_record_Nil, of crc f es] by simp
  with Cons show ?case by (simp add: open_segment)
qed simp

lemma for_each_single: "for_each_segment crc f [contents] s = for_each_record crc f contents s"
  by (simp add: for_each_record_def split: sum.split prod.split)

text \<open>The segments of a directory do not depend on the order in which it is listed.\<close>

definition indexed :: "(string \<times> 'f) list \<Rightarrow> (u64 \<times> 'f) list" where
  "indexed entries = List.map_filter (\<lambda>e. map_option (\<lambda>idx. (idx, snd e)) (segment_index (fst e))) entries"

lemma indexed_simps [simp]: "indexed [] = []"
  "indexed (e # es) = (case segment_index (fst e) of None \<Rightarrow> [] | Some idx \<Rightarrow> [(idx, snd e)]) @ indexed es"
  "indexed (es @ es') = indexed es @ indexed es'"
  by (simp_all add: indexed_def List.map_filter_def split: option.split)

lemma mset_indexed: "mset es = mset es' \<Longrightarrow> mset (indexed es) = mset (indexed es')"
  unfolding indexed_def List.map_filter_def by (simp add: mset_map mset_filter)

lemma segments_in_sorted:
  assumes "mset entries = mset listing" "sorted_wrt (<) (map fst (indexed listing))"
  shows "segments_in entries = map snd (indexed listing)"
proof -
  have "sorted (map fst (indexed listing))" "distinct (map fst (indexed listing))"
    using assms(2) by (simp_all add: strict_sorted_iff)
  then have "sort_key fst (indexed entries) = indexed listing"
    using mset_indexed [OF assms(1)]
    by (intro sort_key_inj_key_eq) (auto simp: distinct_map dest: mset_eq_setD)
  then show ?thesis by (simp add: segments_in_def indexed_def)
qed

section \<open>Directories of segments\<close>

lemma indexed_paths: "map fst es = map segment_path idxs \<Longrightarrow> indexed es = zip idxs (map snd es)"
  by (induction es arbitrary: idxs) (auto simp: map_eq_Cons_conv)

lemma sorted_indices:
  "unat (k :: u64) + m \<le> 2 ^ 64 \<Longrightarrow> sorted_wrt (<) (map (\<lambda>n. k + of_nat n) [0..<m])"
  by (auto simp: sorted_wrt_iff_nth_less word_less_nat_alt word_add_of_nat)

lemma crash_simps [simp]: "crash keep (d @ d') = crash keep d @ crash keep d'" "map fst (crash keep d) = map fst d"
  by (simp_all add: crash_def comp_def)

text \<open>The contents of the writer's own segments after a crash.\<close>

definition crashed_segments :: "(bytes \<Rightarrow> u32) \<Rightarrow> (string \<times> entry list) list \<Rightarrow> entry list \<Rightarrow> entry list \<Rightarrow> nat \<Rightarrow> bytes list" where
  "crashed_segments crc segs cs ps n =
     map (\<lambda>es. segment_header @ frames crc es) (map snd segs) @ [segment_header @ frames crc cs @ List.take n (frames crc ps)]"

lemma length_crashed_segments [simp]: "length (crashed_segments crc segs cs ps n) = Suc (length segs)"
  by (simp add: crashed_segments_def)

lemma indexed_crash:
  assumes inv: "writer_inv crc d0 k rs segs cs ps (w, d)" and "w_rotation w \<noteq> None"
  shows "indexed (crash keep d) = indexed (crash keep d0) @
    zip (map (\<lambda>n. k + of_nat n) [0..<Suc (length segs)]) (crashed_segments crc segs cs ps (keep (w_path w)))"
proof -
  let ?new = "map (closed_file crc) segs @ [(w_path w, \<lparr>f_durable = segment_header @ frames crc cs, f_pending = frames crc ps\<rparr>)]"
  let ?idxs = "map (\<lambda>n. k + of_nat n) [0..<Suc (length segs)]"
  have d: "d = d0 @ ?new" and names: "map fst ?new = map segment_path ?idxs"
    using inv assms(2) by (auto simp: writer_inv_def closed_file_def comp_def)
  have "indexed (crash keep ?new) = zip ?idxs (map snd (crash keep ?new))"
    by (rule indexed_paths) (simp only: crash_simps(2) names)
  moreover have "map snd (crash keep ?new) = crashed_segments crc segs cs ps (keep (w_path w))"
    by (simp add: crash_def crash_file_def closed_file_def crashed_segments_def)
  ultimately show ?thesis by (simp only: d crash_simps(1) indexed_simps(3))
qed

lemma indices_older: "older d0 k \<Longrightarrow> j \<in> fst ` set (indexed (crash keep d0)) \<Longrightarrow> j < k"
  by (fastforce simp: indexed_def List.map_filter_def crash_def older_def)

lemma indexed_crash_sorted:
  assumes "writer_inv crc d0 k rs segs cs ps (w, d)" "w_rotation w \<noteq> None"
    "older d0 k" "unat k + Suc (length segs) \<le> 2 ^ 64" "sorted_wrt (<) (map fst (indexed (crash keep d0)))"
  shows "sorted_wrt (<) (map fst (indexed (crash keep d)))"
proof -
  have "k \<le> k + of_nat n" if "n < Suc (length segs)" for n
    using that assms(4) by (simp add: word_le_nat_alt word_add_of_nat)
  then have "j < k + of_nat n" if "j \<in> fst ` set (indexed (crash keep d0))" "n < Suc (length segs)" for j n
    using indices_older [OF assms(3) that(1)] that(2) by (meson less_le_trans)
  then show ?thesis
    using sorted_indices [OF assms(4)] assms(5) unfolding indexed_crash [OF assms(1,2)]
    by (simp add: sorted_wrt_append del: upt_Suc)
qed

lemma segments_in_crashed:
  assumes "writer_inv crc d0 k rs segs cs ps (w, d)" "w_rotation w \<noteq> None"
    "older d0 k" "unat k + Suc (length segs) \<le> 2 ^ 64" "sorted_wrt (<) (map fst (indexed (crash keep d0)))"
    "mset listing = mset (crash keep d)"
  shows "segments_in listing =
    map snd (indexed (crash keep d0)) @ crashed_segments crc segs cs ps (keep (w_path w))"
  using segments_in_sorted [OF assms(6) indexed_crash_sorted [OF assms(1-5)]]
  by (simp add: indexed_crash [OF assms(1,2)] del: upt_Suc)

lemma read_crashed_segments:
  assumes "all_entries segs cs ps = tagged rs"
  obtains n where "durable_count segs cs \<le> n" "n \<le> length rs"
    "for_each_segment crc f (crashed_segments crc segs cs ps keep) s =
       (Inr (), fold (\<lambda>e. f (fst e) (snd e)) (List.take n (tagged rs)) s)"
proof -
  obtain m tail where m: "List.take keep (frames crc ps) = frames crc (List.take m ps) @ tail"
      "read_record crc tail = Inr None"
    using take_frames by blast
  let ?n = "durable_count segs cs + min m (length ps)"
  have len: "length rs = durable_count segs cs + length ps"
    using arg_cong [OF assms, of length] by (simp add: all_entries_def durable_count_def)
  have "List.take ?n (tagged rs) = concat (map snd segs) @ cs @ List.take m ps"
    unfolding assms [symmetric] by (simp add: all_entries_def durable_count_def min_def)
  then have "for_each_segment crc f (crashed_segments crc segs cs ps keep) s =
       (Inr (), fold (\<lambda>e. f (fst e) (snd e)) (List.take ?n (tagged rs)) s)"
    unfolding crashed_segments_def for_each_segment_frames
    using read_loop_frames [OF m(2), of f "cs @ List.take m ps"] by (simp add: open_segment m(1))
  then show thesis by (intro that [of ?n]) (simp_all add: len)
qed

section \<open>Lost directory entries\<close>

text \<open>The entry of a file is not synced with it; a crash may lose it, and the file with it.\<close>

definition surviving :: "(string \<Rightarrow> bool) \<Rightarrow> (string \<times> 'f) list \<Rightarrow> (string \<times> 'f) list" where
  "surviving lost d = filter (\<lambda>e. \<not> lost (fst e)) d"

lemma surviving_simps [simp]: "surviving lost [] = []" "surviving lost (d @ d') = surviving lost d @ surviving lost d'"
  "surviving lost ((p, f) # d) = (if lost p then [] else [(p, f)]) @ surviving lost d"
  by (simp_all add: surviving_def)

lemma segments_in_surviving:
  assumes "map fst d = map segment_path (map of_nat [0..<n])" "n \<le> 2 ^ 64" "mset listing = mset (surviving lost (d :: (string \<times> 'f) list))"
  shows "segments_in listing = map snd (surviving lost d)"
proof -
  let ?idxs = "filter (\<lambda>i. \<not> lost (segment_path i)) (map of_nat [0..<n] :: u64 list)"
  have "map fst (surviving lost d) = filter (\<lambda>p. \<not> lost p) (map fst d)" by (simp add: surviving_def filter_map comp_def)
  then have "map fst (surviving lost d) = map segment_path ?idxs" by (simp add: assms(1) filter_map comp_def)
  then have i: "indexed (surviving lost d) = zip ?idxs (map snd (surviving lost d))" and len: "length ?idxs = length (surviving lost d)"
    by (auto intro: indexed_paths dest: arg_cong [where f = length])
  have "sorted_wrt (<) (map of_nat [0..<n] :: u64 list)" using sorted_indices [of 0 n] assms(2) by simp
  then have "sorted_wrt (<) (map fst (indexed (surviving lost d)))"
    using len by (simp add: i sorted_wrt_filter)
  from segments_in_sorted [OF assms(3) this] show ?thesis using len by (simp add: i)
qed

lemma surviving_closed:
  "map snd (surviving lost (crash keep (map (closed_file crc) segs))) = map (\<lambda>es. segment_header @ frames crc es) (map snd (surviving lost segs))"
  by (induction segs) (auto simp: crash_def closed_file_def crash_file_def)

lemma length_segment_header [simp]: "length segment_header = 8"
  by (simp add: segment_header_def)

text \<open>Reading what is left of finished segments and a last file, which is torn inside its header or holds whole
  records and the end of the log.\<close>

lemma read_surviving:
  assumes "map fst d = map segment_path (map of_nat [0..<Suc (length segs)])" "Suc (length segs) \<le> 2 ^ 64"
    "d = map (closed_file crc) segs @ [(path, f)]" "mset listing = mset (surviving lost (crash keep d))"
    "length (crash_file (keep path) f) < 8 \<and> es = [] \<or>
     (\<exists>tail. crash_file (keep path) f = segment_header @ frames crc es @ tail \<and> read_record crc tail = Inr None)"
  shows "for_each_record_dir crc collect listing [] =
    (if \<exists>bs \<in> snd ` set (surviving lost (crash keep d)). length bs < 8 then Inl (WalIo UnexpectedEof) else Inr (),
     concat (map snd (surviving lost (segs @ [(path, es)]))))"
proof -
  let ?last = "crash_file (keep path) f"
  let ?ess = "map snd (surviving lost segs)"
  have "map fst (crash keep d) = map segment_path (map of_nat [0..<Suc (length segs)])" using assms(1) by simp
  from segments_in_surviving [OF this assms(2,4)]
  have files: "map snd (surviving lost (crash keep d)) = map (\<lambda>es. segment_header @ frames crc es) ?ess @ (if lost path then [] else [?last])"
    and segs: "segments_in listing = map snd (surviving lost (crash keep d))"
    using surviving_closed [of lost keep crc segs] by (simp_all add: assms(3)) (simp_all add: crash_def)
  have "(\<exists>bs \<in> snd ` set (surviving lost (crash keep d)). length bs < 8) \<longleftrightarrow> \<not> lost path \<and> length ?last < 8"
    unfolding set_map [symmetric] files by auto
  moreover have "for_each_segment crc collect [?last] (concat ?ess) =
      (if length ?last < 8 then Inl (WalIo UnexpectedEof) else Inr (), concat ?ess @ es)"
    using assms(5)
  proof (elim disjE exE conjE)
    fix tail
    assume "?last = segment_header @ frames crc es @ tail" "read_record crc tail = Inr None"
    then show ?thesis using read_loop_frames [of crc tail collect es] fold_collect by (simp add: open_segment)
  qed (simp add: reader_open_def read_exact_def)
  ultimately show ?thesis
    unfolding for_each_record_dir_def segs files for_each_segment_frames
    using fold_collect [of "concat ?ess" "[]"] by simp
qed

section \<open>A crash inside an operation\<close>

text \<open>A file whose header is synced, with some entries synced after it and a part of others written.\<close>

lemma crash_pending:
  assumes "prefix pe (frames crc ps)"
  obtains m tail where "crash_file n \<lparr>f_durable = segment_header @ frames crc cs, f_pending = pe\<rparr> =
      segment_header @ frames crc (cs @ List.take m ps) @ tail" "read_record crc tail = Inr None"
proof -
  let ?j = "min n (length pe)"
  obtain zs where "frames crc ps = pe @ zs" using assms by (auto simp: prefix_def)
  then have "List.take n pe = List.take ?j (frames crc ps)" by (simp add: min_def)
  moreover obtain m tail where "List.take ?j (frames crc ps) = frames crc (List.take m ps) @ tail" "read_record crc tail = Inr None"
    using take_frames by blast
  ultimately show thesis by (intro that [of m tail]) (simp_all add: crash_file_def)
qed

text \<open>What is found at a crash: whatever prefix of the unsynced bytes is kept, the finished segments and the last file hold a
  prefix of the records with at least \<open>lo\<close> of them; a torn header only where one is being written.\<close>

definition crash_ok :: "(bytes \<Rightarrow> u32) \<Rightarrow> entry list \<Rightarrow> nat \<Rightarrow> bool \<Rightarrow> (string \<times> entry list) list \<Rightarrow> wal_file \<Rightarrow> bool" where
  "crash_ok crc ents lo creating segs f \<longleftrightarrow>
     (\<forall>n. \<exists>es m. concat (map snd segs) @ es = List.take m ents \<and> lo \<le> m \<and>
        (length (crash_file n f) < 8 \<and> es = [] \<and> creating \<or>
         (\<exists>tail. crash_file n f = segment_header @ frames crc es @ tail \<and> read_record crc tail = Inr None)))"

lemma crash_ok_settled:
  assumes "prefix (all_entries segs cs ps) ents" "lo \<le> durable_count segs cs" "prefix pe (frames crc ps)"
  shows "crash_ok crc ents lo creating segs \<lparr>f_durable = segment_header @ frames crc cs, f_pending = pe\<rparr>"
  unfolding crash_ok_def
proof
  fix n
  obtain m tail where m: "crash_file n \<lparr>f_durable = segment_header @ frames crc cs, f_pending = pe\<rparr> =
      segment_header @ frames crc (cs @ List.take m ps) @ tail" "read_record crc tail = Inr None"
    by (rule crash_pending [OF assms(3)])
  let ?m = "durable_count segs cs + min m (length ps)"
  have "concat (map snd segs) @ cs @ List.take m ps = List.take ?m ents"
    using assms(1) by (auto simp: prefix_def all_entries_def durable_count_def min_def)
  then show "\<exists>es m. concat (map snd segs) @ es = List.take m ents \<and> lo \<le> m \<and>
      (length (crash_file n \<lparr>f_durable = segment_header @ frames crc cs, f_pending = pe\<rparr>) < 8 \<and> es = [] \<and> creating \<or>
       (\<exists>tail. crash_file n \<lparr>f_durable = segment_header @ frames crc cs, f_pending = pe\<rparr> =
          segment_header @ frames crc es @ tail \<and> read_record crc tail = Inr None))"
    using m assms(2) by (intro exI [of _ "cs @ List.take m ps"] exI [of _ ?m]) auto
qed

lemma crash_ok_torn:
  assumes "prefix (concat (map snd segs)) ents" "lo \<le> length (concat (map snd segs))" "prefix pe segment_header" "creating"
  shows "crash_ok crc ents lo creating segs \<lparr>f_durable = [], f_pending = pe\<rparr>"
  unfolding crash_ok_def
proof
  fix n
  obtain rest where rest: "segment_header = List.take n pe @ rest"
    using assms(3) by (metis append.assoc append_take_drop_id prefix_def)
  have all: "concat (map snd segs) @ [] = List.take (length (concat (map snd segs))) ents"
    using assms(1) by (auto simp: prefix_def)
  have "length (List.take n pe) < 8 \<or> List.take n pe = segment_header @ frames crc [] @ []"
    using arg_cong [OF rest, of length] rest by (cases rest) auto
  then show "\<exists>es m. concat (map snd segs) @ es = List.take m ents \<and> lo \<le> m \<and>
      (length (crash_file n \<lparr>f_durable = [], f_pending = pe\<rparr>) < 8 \<and> es = [] \<and> creating \<or>
       (\<exists>tail. crash_file n \<lparr>f_durable = [], f_pending = pe\<rparr> =
          segment_header @ frames crc es @ tail \<and> read_record crc tail = Inr None))"
    using all assms(2,4) read_record_Nil [of crc]
    by (intro exI [of _ "[]"] exI [of _ "length (concat (map snd segs))"]) (auto simp: crash_file_def)
qed

text \<open>Whether a crash after the first \<open>k\<close> actions of an operation falls inside \<open>create_segment\<close>.\<close>

fun creating_segment :: "wal_op \<Rightarrow> wal_writer \<Rightarrow> nat \<Rightarrow> bool" where
  "creating_segment Commit w k \<longleftrightarrow> False"
| "creating_segment (Append rec) w k \<longleftrightarrow> rotates w (w_next_seq w, rec) \<and> 2 \<le> k \<and> k \<le> 4"

definition crash_shape :: "(bytes \<Rightarrow> u32) \<Rightarrow> entry list \<Rightarrow> nat \<Rightarrow> bool \<Rightarrow> nat \<Rightarrow> dir \<Rightarrow> bool" where
  "crash_shape crc ents lo creating mx d \<longleftrightarrow>
     (\<exists>segs path f. d = map (closed_file crc) segs @ [(path, f)] \<and> length segs \<le> mx \<and>
        map fst d = map segment_path (map of_nat [0..<Suc (length segs)]) \<and> crash_ok crc ents lo creating segs f)"

lemma crash_shape_inv:
  assumes "writer_inv crc [] 0 rs segs cs ps (w, d)" "w_rotation w \<noteq> None" "prefix (tagged rs) ents" "lo \<le> durable_count segs cs"
    "length segs \<le> mx"
  shows "crash_shape crc ents lo creating mx d"
  unfolding crash_shape_def
  using assms writer_inv_names [OF assms(1,2)] crash_ok_settled [of segs cs ps ents lo "frames crc ps" crc creating]
  by (intro exI [of _ segs] exI [of _ "w_path w"] exI [of _ "\<lparr>f_durable = segment_header @ frames crc cs, f_pending = frames crc ps\<rparr>"])
    (simp add: writer_inv_def)

lemma crash_shape_write:
  assumes inv: "writer_inv crc [] 0 rs segs cs ps (w, d)" "w_rotation w \<noteq> None" and "lo \<le> durable_count segs cs" "length segs \<le> mx"
  shows "\<exists>d'. fs_run (List.take j (map (WriteAll (w_path w))
      [u32_le (of_nat (length (entry_payload e))), u32_le (crc (entry_payload e)), entry_payload e])) d = Inr d' \<and>
    crash_shape crc (tagged rs @ [e]) lo creating mx d'"
proof -
  let ?d = "map (closed_file crc) segs"
  have d: "d = ?d @ [(w_path w, \<lparr>f_durable = segment_header @ frames crc cs, f_pending = frames crc ps\<rparr>)]"
    and new: "w_path w \<notin> fst ` set ?d" and all: "all_entries segs cs ps = tagged rs"
    using inv(1) by (simp_all add: writer_inv_def)
  obtain pe' where pe': "fs_run (List.take j (map (WriteAll (w_path w))
        [u32_le (of_nat (length (entry_payload e))), u32_le (crc (entry_payload e)), entry_payload e])) d =
      Inr (?d @ [(w_path w, \<lparr>f_durable = segment_header @ frames crc cs, f_pending = frames crc ps @ pe'\<rparr>)])"
    "prefix pe' (concat [u32_le (of_nat (length (entry_payload e))), u32_le (crc (entry_payload e)), entry_payload e])"
    unfolding d by (rule writes_prefix [OF new])
  have "prefix (frames crc ps @ pe') (frames crc (ps @ [e]))" using pe'(2) by (simp add: entry_frame_def)
  moreover have "all_entries segs cs (ps @ [e]) = tagged rs @ [e]" using all by (simp add: all_entries_def)
  ultimately have "crash_ok crc (tagged rs @ [e]) lo creating segs
      \<lparr>f_durable = segment_header @ frames crc cs, f_pending = frames crc ps @ pe'\<rparr>"
    using assms(3) by (intro crash_ok_settled [where ps = "ps @ [e]"]) simp_all
  then show ?thesis
    using pe'(1) writer_inv_names [OF inv] assms(4) unfolding crash_shape_def d by (simp add: comp_def del: upt_Suc) blast
qed

lemma fs_run_take_Suc: "fs_step a d = Inr d1 \<Longrightarrow> fs_run (List.take (Suc k) (a # as)) d = fs_run (List.take k as) d1"
  by simp

text \<open>Inside \<open>create_segment\<close>, on finished segments only.\<close>

lemma crash_shape_create:
  assumes "path \<notin> fst ` set (map (closed_file crc) segs)" "segs \<noteq> []" "path = segment_path (of_nat (length segs))"
    "map fst segs = map segment_path (map of_nat [0..<length segs])" "concat (map snd segs) = tagged rs" "lo \<le> length rs"
    "prefix (tagged rs) ents" "0 < k" "k \<le> 3" "length segs \<le> mx"
  shows "\<exists>d'. fs_run (List.take k (segment_actions path @ as)) (map (closed_file crc) segs) = Inr d' \<and> crash_shape crc ents lo True mx d'"
proof -
  let ?d = "map (closed_file crc) segs"
  have k: "k = 1 \<or> k = 2 \<or> k = 3" using assms(8,9) by auto
  obtain pe where pe: "fs_run (List.take k (segment_actions path @ as)) ?d = Inr (?d @ [(path, \<lparr>f_durable = [], f_pending = pe\<rparr>)])"
      "prefix pe segment_header"
  proof (rule that)
    show "fs_run (List.take k (segment_actions path @ as)) ?d =
        Inr (?d @ [(path, \<lparr>f_durable = [], f_pending = List.take (4 * (k - 1)) segment_header\<rparr>)])"
      using k assms(1) by (elim disjE) (simp_all add: segment_actions_def segment_header_def write_all_last)
    show "prefix (List.take (4 * (k - 1)) segment_header) segment_header" by (rule take_is_prefix)
  qed
  have "crash_ok crc ents lo True segs \<lparr>f_durable = [], f_pending = pe\<rparr>"
    using assms(5-7) pe(2) by (intro crash_ok_torn) simp_all
  moreover have "map fst (?d @ [(path, f)]) = map segment_path (map of_nat [0..<Suc (length segs)])" for f
    using assms(3,4) by (simp add: closed_file_def comp_def)
  ultimately show ?thesis using pe(1) assms(10) unfolding crash_shape_def by blast
qed

lemma crash_inside_rotation:
  assumes inv: "writer_inv crc [] 0 rs segs cs ps (w, d)" and rot: "w_rotation w = Some rot"
    and room: "Suc (length segs) < 2 ^ 64" and lo: "lo \<le> durable_count segs cs"
  defines "path \<equiv> segment_path (rot_next_index rot)"
  shows "\<exists>d'. fs_run (List.take k (SyncAll (w_path w) # segment_actions path @ map (WriteAll path)
      [u32_le (of_nat (length (entry_payload e))), u32_le (crc (entry_payload e)), entry_payload e])) d = Inr d' \<and>
    crash_shape crc (tagged rs @ [e]) lo (2 \<le> k \<and> k \<le> 4) (Suc (length segs)) d'"
proof -
  let ?segs = "segs @ [(w_path w, cs @ ps)]"
  let ?writes = "map (WriteAll path) [u32_le (of_nat (length (entry_payload e))), u32_le (crc (entry_payload e)), entry_payload e]"
  have all: "all_entries segs cs ps = tagged rs" using inv by (rule writer_inv_all)
  have lo': "lo \<le> length rs" using lo arg_cong [OF all, of length] by (simp add: all_entries_def durable_count_def)
  obtain d1 where d1: "wal_commit (w, d) = (w, d1)" by (simp add: wal_commit_def)
  then have sync: "fs_step (SyncAll (w_path w)) d = Inr d1" by (simp add: wal_commit_def)
  have inv1: "writer_inv crc [] 0 rs segs (cs @ ps) [] (w, d1)" using writer_inv_commit [OF inv] d1 by simp
  have closed: "d1 = map (closed_file crc) ?segs" using inv1 by (simp add: writer_inv_def closed_file_def)
  obtain d2 where r: "wal_rotate (w, d) = Inr (w\<lparr>w_path := path, w_bytes_written := 8,
        w_rotation := Some (rot\<lparr>rot_next_index := rot_next_index rot + 1\<rparr>)\<rparr>, d2)"
    and inv2: "writer_inv crc [] 0 rs ?segs [] [] (w\<lparr>w_path := path, w_bytes_written := 8,
        w_rotation := Some (rot\<lparr>rot_next_index := rot_next_index rot + 1\<rparr>)\<rparr>, d2)"
    unfolding path_def using room by (elim writer_inv_rotate [OF inv rot, rotated 2]) simp_all
  have create: "fs_run (segment_actions path) d1 = Inr d2"
    using r d1 rot unfolding wal_rotate_def path_def
    by (auto simp: create_segment_def wal_io_def Let_def try_bind_Inr_iff split: sum.splits)
  have "k = 0 \<or> k = 1 \<or> (\<exists>j. k = Suc j \<and> 0 < j \<and> j \<le> 3) \<or> (\<exists>j. k = Suc (4 + j))" by presburger
  then consider "k = 0" | "k = 1" | j where "k = Suc j" "0 < j" "j \<le> 3" | j where "k = Suc (4 + j)" by blast
  then show ?thesis
  proof cases
    case 1
    then show ?thesis using crash_shape_inv [OF inv, of "tagged rs @ [e]"] rot lo by simp
  next
    case 2
    then show ?thesis using sync crash_shape_inv [OF inv1, of "tagged rs @ [e]" lo "Suc (length segs)"] rot lo
      by (simp add: durable_count_def)
  next
    case (3 j)
    have names: "map fst ?segs = map segment_path (map of_nat [0..<length ?segs])" "path = segment_path (of_nat (length ?segs))"
      using inv2 by (simp_all add: writer_inv_def comp_def)
    have new: "path \<notin> fst ` set (map (closed_file crc) ?segs)" using writer_inv_fresh [OF inv2] by simp
    have "\<exists>d'. fs_run (List.take j (segment_actions path @ ?writes)) (map (closed_file crc) ?segs) = Inr d' \<and>
        crash_shape crc (tagged rs @ [e]) lo True (Suc (length segs)) d'"
      by (rule crash_shape_create [OF new _ names(2,1), where rs = rs]) (use 3 all lo' in \<open>simp_all add: all_entries_def\<close>)
    then show ?thesis unfolding 3(1) fs_run_take_Suc [OF sync] closed using 3 by simp
  next
    case (4 j)
    have "List.take (4 + j) (segment_actions path @ ?writes) = segment_actions path @ List.take j ?writes"
      by (simp add: segment_actions_def numeral_eq_Suc)
    then have run: "fs_run (List.take k (SyncAll (w_path w) # segment_actions path @ ?writes)) d = fs_run (List.take j ?writes) d2"
      unfolding 4 fs_run_take_Suc [OF sync] using create by (simp add: fs_run_append del: list.map)
    have "lo \<le> durable_count ?segs []" using lo by (simp add: durable_count_def)
    then show ?thesis
      using crash_shape_write [OF inv2, of lo "Suc (length segs)" j e "2 \<le> k \<and> k \<le> 4"] unfolding run by simp
  qed
qed

lemma crash_inside:
  assumes inv: "writer_inv crc [] 0 rs segs cs ps (w, d)" and rot: "w_rotation w \<noteq> None"
    and room: "Suc (length segs) < 2 ^ 64" and lo: "lo \<le> durable_count segs cs"
  shows "\<exists>d'. fs_run (List.take k (op_actions crc op w)) d = Inr d' \<and>
    crash_shape crc (tagged (rs @ appended [op])) lo (creating_segment op w k) (Suc (length segs)) d'"
proof (cases op)
  case (Append rec)
  let ?e = "(w_next_seq w, rec)"
  have ents: "tagged (rs @ appended [op]) = tagged rs @ [?e]"
    using inv Append by (simp add: writer_inv_def tagged_snoc)
  show ?thesis
  proof (cases "rotates w ?e")
    case True
    obtain r where r: "w_rotation w = Some r" using rot by auto
    show ?thesis
      using crash_inside_rotation [OF inv r room lo, of k ?e] True r Append unfolding ents by (simp add: Let_def)
  next
    case False
    then show ?thesis
      using crash_shape_write [OF inv rot lo, of "Suc (length segs)" k ?e "creating_segment op w k"] Append unfolding ents by (simp add: Let_def)
  qed
next
  case Commit
  obtain d1 where d1: "wal_commit (w, d) = (w, d1)" by (simp add: wal_commit_def)
  have inv1: "writer_inv crc [] 0 rs segs (cs @ ps) [] (w, d1)" using writer_inv_commit [OF inv] d1 by simp
  show ?thesis
    using Commit d1 crash_shape_inv [OF inv rot, of "tagged rs" lo "Suc (length segs)"]
      crash_shape_inv [OF inv1 rot, of "tagged rs" lo "Suc (length segs)"] lo
    by (cases k) (simp_all add: wal_commit_def durable_count_def)
qed

section \<open>Opening\<close>

lemma writer_inv_create:
  assumes "wal_create path d = Inr st"
  shows "writer_inv crc d k [] [] [] [] st" "w_rotation (fst st) = None" "w_path (fst st) = path"
proof -
  have new: "path \<notin> fst ` set d"
  proof
    assume "path \<in> fst ` set d"
    with assms show False by (simp add: wal_create_def create_segment_def segment_actions_def wal_io_def)
  qed
  with assms have "st = (\<lparr>w_path = path, w_next_seq = 1, w_bytes_written = 8, w_rotation = None\<rparr>,
      d @ [(path, \<lparr>f_durable = segment_header, f_pending = []\<rparr>)])"
    by (simp add: wal_create_def create_segment_new)
  with new show "writer_inv crc d k [] [] [] [] st" "w_rotation (fst st) = None" "w_path (fst st) = path"
    by (simp_all add: writer_inv_def all_entries_def tagged_def)
qed

lemma max_seen_ge: "max_seen (Some m) names = Some m' \<Longrightarrow> m \<le> m'"
proof (induction names arbitrary: m)
  case (Cons s names)
  show ?case
  proof (cases "segment_index s")
    case (Some j)
    with Cons.prems have "max m j \<le> m'" by (intro Cons.IH) simp
    then show ?thesis by simp
  qed (use Cons in simp)
qed simp

lemma max_seen_Some: "\<exists>m'. max_seen (Some m) names = Some m'"
  by (induction names arbitrary: m) (auto split: option.split)

lemma max_seen_bound:
  assumes "s \<in> set names" "segment_index s = Some j"
  shows "\<exists>m'. max_seen m names = Some m' \<and> j \<le> m'"
  using assms(1)
proof (induction names arbitrary: m)
  case (Cons s' names)
  show ?case
  proof (cases "s' = s")
    case True
    let ?m = "case m of None \<Rightarrow> j | Some m \<Rightarrow> max m j"
    obtain m' where m': "max_seen (Some ?m) names = Some m'" using max_seen_Some by blast
    then have "?m \<le> m'" by (rule max_seen_ge)
    then have "j \<le> m'" by (cases m) simp_all
    with m' True assms(2) show ?thesis by simp
  qed (use Cons in auto)
qed simp

lemma max_seen_member:
  "max_seen m names = Some m' \<Longrightarrow> m = Some m' \<or> (\<exists>s \<in> set names. segment_index s = Some m')"
proof (induction names arbitrary: m)
  case (Cons s names)
  then show ?case
    by (cases "segment_index s"; cases m) (fastforce simp: max_def split: if_splits)+
qed simp

lemma next_index_older:
  assumes "next_segment_index (map fst d) \<noteq> 0"
  shows "older d (next_segment_index (map fst d))"
  unfolding older_def
proof (intro ballI allI impI)
  fix s j
  assume "s \<in> fst ` set d" "segment_index s = Some j"
  then obtain m where m: "max_seen None (map fst d) = Some m" "j \<le> m"
    using max_seen_bound [of s "map fst d" j None] by auto
  then have "m + 1 \<noteq> 0" using assms by (simp add: next_segment_index_def)
  then have "m < m + 1" using unatSuc [of m] by (simp add: word_less_nat_alt add.commute)
  with m show "j < next_segment_index (map fst d)" by (simp add: next_segment_index_def)
qed

lemma writer_inv_open_dir:
  assumes "older d (next_segment_index (map fst d))"
  obtains st where "wal_open_dir max_bytes d = Inr st"
    "writer_inv crc d (next_segment_index (map fst d)) [] [] [] [] st" "w_rotation (fst st) \<noteq> None"
proof -
  let ?k = "next_segment_index (map fst d)"
  have new: "segment_path ?k \<notin> fst ` set d"
    using fresh_segment_path [OF assms, of "[]"] unsigned_less [of ?k, where 'a = nat] by simp
  show thesis
  proof (rule that)
    show "wal_open_dir max_bytes d = Inr (\<lparr>w_path = segment_path ?k, w_next_seq = 1, w_bytes_written = 8,
        w_rotation = Some \<lparr>rot_next_index = ?k + 1, rot_max_segment_bytes = max max_bytes 64\<rparr>\<rparr>,
        d @ [(segment_path ?k, \<lparr>f_durable = segment_header, f_pending = []\<rparr>)])"
      by (simp add: wal_open_dir_def create_segment_new [OF new] Let_def)
  qed (use new in \<open>simp_all add: writer_inv_def all_entries_def tagged_def\<close>)
qed

lemma next_index_after:
  assumes "map fst d = map segment_path (map of_nat [0..<Suc n])" "Suc n < 2 ^ 64"
  shows "older d (next_segment_index (map fst d))" "unat (next_segment_index (map fst d)) \<le> Suc n"
proof -
  have "segment_path 0 \<in> set (map fst d)" unfolding assms(1) by (simp del: upt_Suc) force
  then obtain m where m: "max_seen None (map fst d) = Some m"
    using max_seen_bound [of "segment_path 0" "map fst d" 0 None] by auto
  obtain j where "j < Suc n" "m = of_nat j"
    using max_seen_member [OF m] unfolding assms(1) by (auto simp del: upt_Suc)
  then have k: "unat (next_segment_index (map fst d)) = Suc j"
    using assms(2) m word_add_of_nat [of 1 j] by (simp add: next_segment_index_def add.commute)
  then show "unat (next_segment_index (map fst d)) \<le> Suc n" using \<open>j < Suc n\<close> by simp
  have "next_segment_index (map fst d) \<noteq> 0" using k by (metis nat.distinct(1) unat_0)
  then show "older d (next_segment_index (map fst d))" by (rule next_index_older)
qed

lemma committed_snoc: "committed (ops @ [Commit]) = length (appended ops)" "appended (ops @ [Commit]) = appended ops"
proof (induction ops)
  case (Cons op ops)
  { case 1 with Cons show ?case by (cases op) simp_all }
  { case 2 with Cons show ?case by (cases op) simp_all }
qed simp_all

lemma appended_append: "appended (ops @ ops') = appended ops @ appended ops'"
proof (induction ops)
  case (Cons op ops)
  then show ?case by (cases op) simp_all
qed simp

lemma next_index_Nil [simp]: "next_segment_index [] = 0"
  by (simp add: next_segment_index_def)

section \<open>Guarantees\<close>

lemma map_of_current:
  "path \<notin> fst ` set d \<Longrightarrow> map_of (crash keep (d @ [(path, f)])) path = Some (crash_file (keep path) f)"
  by (induction d) (auto simp: crash_def)

text \<open>What a crash leaves of a log file: the header, the frames of a prefix of the records, and a
  remainder that reads as the end of the log.\<close>

lemma crashed_log:
  assumes "wal_create path d = Inr st"
  obtains w d' n tail where "wal_run crc ops st = Inr (w, d')"
    "map_of (crash keep d') path = Some (segment_header @ frames crc (List.take n (tagged (appended ops))) @ tail)"
    "read_record crc tail = Inr None" "committed ops \<le> n" "n \<le> length (appended ops)"
proof -
  have rot: "w_rotation (fst st) = None" and path: "w_path (fst st) = path"
    and inv: "writer_inv crc d 0 [] [] [] [] st"
    using writer_inv_create [OF assms] by simp_all
  obtain st' segs cs ps where run: "wal_run crc ops st = Inr st'"
      "writer_inv crc d 0 ([] @ appended ops) segs cs ps st'"
      "(if Commit \<in> set ops then length ([] :: wal_record list) + committed ops else durable_count [] []) \<le> durable_count segs cs"
      "w_rotation (fst st') = None \<longleftrightarrow> w_rotation (fst st) = None"
    using wal_run_inv [OF inv, where ops = ops and mx = 0] rot by auto
  obtain w d' where st': "st' = (w, d')" by (cases st')
  have "segs = []" and d': "d' = d @ [(w_path w, \<lparr>f_durable = segment_header @ frames crc cs, f_pending = frames crc ps\<rparr>)]"
    and new: "w_path w \<notin> fst ` set d" and all: "cs @ ps = tagged (appended ops)"
    using run(2,4) rot st' by (auto simp: writer_inv_def all_entries_def)
  obtain m tail where m: "List.take (keep path) (frames crc ps) = frames crc (List.take m ps) @ tail"
      "read_record crc tail = Inr None"
    using take_frames by blast
  let ?n = "length cs + min m (length ps)"
  have w: "w_path w = path" using wal_run_path [OF run(1) rot] path st' by simp
  have take: "List.take ?n (tagged (appended ops)) = cs @ List.take m ps" by (simp add: min_def flip: all)
  show thesis
  proof (rule that)
    show "wal_run crc ops st = Inr (w, d')" using run(1) st' by simp
    show "map_of (crash keep d') path = Some (segment_header @ frames crc (List.take ?n (tagged (appended ops))) @ tail)"
      using map_of_current [OF new, of keep] by (simp only: take) (simp add: d' w crash_file_def m(1))
    show "committed ops \<le> ?n"
      using run(3) \<open>segs = []\<close> committed_no_commit [of ops] by (auto simp: durable_count_def split: if_splits)
    show "?n \<le> length (appended ops)" using arg_cong [OF all, of length] by simp
  qed (rule m(2))
qed

lemma for_each_log:
  "read_record crc tail = Inr None \<Longrightarrow>
     for_each_record crc f (segment_header @ frames crc es @ tail) s = (Inr (), fold (\<lambda>e. f (fst e) (snd e)) es s)"
  by (simp add: for_each_record_def open_segment read_loop_frames)

text \<open>C3. Committed records survive a crash. A log file that was created, appended to and committed in
  any order never reports an error; and if a crash then keeps what was synced and a prefix of what
  was only written (and the entry of the file in its directory), reading the file succeeds and yields, in order and numbered from 1, a prefix of
  the appended records that contains every record appended before the last commit.\<close>

theorem committed_records_survive_crash:
  assumes "wal_create path d = Inr st"
  shows "\<exists>w d' n contents. wal_run crc ops st = Inr (w, d') \<and> map_of (crash keep d') path = Some contents \<and>
    committed ops \<le> n \<and> n \<le> length (appended ops) \<and>
    for_each_record crc collect contents [] = (Inr (), List.take n (tagged (appended ops)))"
proof (rule crashed_log [OF assms, of crc ops keep])
  fix w d' n tail
  assume "wal_run crc ops st = Inr (w, d')" "committed ops \<le> n" "n \<le> length (appended ops)"
    "map_of (crash keep d') path = Some (segment_header @ frames crc (List.take n (tagged (appended ops))) @ tail)"
    "read_record crc tail = Inr None"
  then show ?thesis
    using for_each_log [of crc tail collect "List.take n (tagged (appended ops))" "[]"]
    unfolding fold_collect by auto
qed

theorem committed_records_survive_crash_witness:
  "\<exists>w d' n contents.
     wal_run (\<lambda>_. 0) [Append (WalCancel 1), Commit, Append (WalCancel 2)]
       (\<lparr>w_path = ''a'', w_next_seq = 1, w_bytes_written = 8, w_rotation = None\<rparr>,
        [(''a'', \<lparr>f_durable = segment_header, f_pending = []\<rparr>)]) = Inr (w, d') \<and>
     map_of (crash (\<lambda>_. 17) d') ''a'' = Some contents \<and> 1 \<le> n \<and> n \<le> 2 \<and>
     for_each_record (\<lambda>_. 0) collect contents [] = (Inr (), List.take n [(1, WalCancel 1), (2, WalCancel 2)])"
proof -
  have "wal_create ''a'' [] = Inr (\<lparr>w_path = ''a'', w_next_seq = 1, w_bytes_written = 8, w_rotation = None\<rparr>,
        [(''a'', \<lparr>f_durable = segment_header, f_pending = []\<rparr>)])" by code_simp
  from committed_records_survive_crash [OF this, where crc = "\<lambda>_. 0"
      and ops = "[Append (WalCancel 1), Commit, Append (WalCancel 2)]" and keep = "\<lambda>_. 17"]
  show ?thesis by (simp add: tagged_def numeral_2_eq_2 del: wal_run.simps)
qed

text \<open>A run in a directory that may hold older segments.\<close>

lemma dir_run:
  fixes d0 :: dir
  defines "k \<equiv> next_segment_index (map fst d0)"
  assumes "older d0 k" "unat k + length ops < 2 ^ 64"
  obtains st w d segs cs ps where "wal_open_dir max_bytes d0 = Inr st" "wal_run crc ops st = Inr (w, d)"
    "writer_inv crc d0 k (appended ops) segs cs ps (w, d)" "w_rotation w \<noteq> None"
    "committed ops \<le> durable_count segs cs" "length segs \<le> length ops"
    "unat (max max_bytes 64) + 64 < 2 ^ 64 \<longrightarrow> size_ok crc (max max_bytes 64) segs cs ps w"
proof -
  obtain st where st: "wal_open_dir max_bytes d0 = Inr st" "writer_inv crc d0 k [] [] [] [] st" "w_rotation (fst st) \<noteq> None"
    using writer_inv_open_dir [OF assms(2) [unfolded k_def], of max_bytes crc] unfolding k_def by blast
  then have size: "size_ok crc (max max_bytes 64) [] [] [] (fst st)"
    by (auto simp: wal_open_dir_def create_segment_def Let_def try_bind_Inr_iff size_ok_def
        word_le_nat_alt max_def split: if_splits)
  have mx: "64 \<le> unat (max max_bytes 64)" by (simp add: max_def word_le_nat_alt)
  have pre: "w_rotation (fst st) \<noteq> None \<longrightarrow> older d0 k \<and> unat k + length ([] :: (string \<times> entry list) list) + length ops < 2 ^ 64"
    using assms(2,3) by simp
  obtain st' segs cs ps where r: "wal_run crc ops st = Inr st'" "writer_inv crc d0 k ([] @ appended ops) segs cs ps st'"
    "(if Commit \<in> set ops then length ([] :: wal_record list) + committed ops else durable_count [] []) \<le> durable_count segs cs"
    "w_rotation (fst st') = None \<longleftrightarrow> w_rotation (fst st) = None"
    "length segs \<le> length ([] :: (string \<times> entry list) list) + length ops"
    "size_ok crc (max max_bytes 64) [] [] [] (fst st) \<and> 64 \<le> unat (max max_bytes 64) \<and> unat (max max_bytes 64) + 64 < 2 ^ 64 \<longrightarrow>
       size_ok crc (max max_bytes 64) segs cs ps (fst st')"
    using wal_run_inv [OF st(2) pre, of "max max_bytes 64"] by (elim exE conjE) (rule that)
  obtain w d where "st' = (w, d)" by (cases st')
  with r st size mx committed_no_commit [of ops] show thesis
    by (intro that [of st w d segs cs ps]) (simp_all split: if_splits)
qed

lemma for_each_segment_append:
  "for_each_segment crc f (xs @ ys) s =
     (case for_each_segment crc f xs s of (Inl e, s') \<Rightarrow> (Inl e, s') | (Inr _, s') \<Rightarrow> for_each_segment crc f ys s')"
  by (induction xs arbitrary: s) (simp_all split: sum.split prod.split)



text \<open>C30. Reopening a log directory starts the record numbers over: a writer that opens a directory
  already holding committed records numbers its own from 1 again, so that reading the directory
  yields every number of the first run a second time. (The numbers do not identify records across
  restarts, and a recovery that skips records up to a marker skips the new ones as well.)\<close>

theorem reopening_restarts_numbering:
  assumes "length ops + length ops' < 2 ^ 63"
  shows "\<exists>st w d st' w' d'.
    wal_open_dir max_bytes [] = Inr st \<and> wal_run crc (ops @ [Commit]) st = Inr (w, d) \<and>
    wal_open_dir max_bytes' d = Inr st' \<and> wal_run crc (ops' @ [Commit]) st' = Inr (w', d') \<and>
    (\<forall>listing. mset listing = mset (crash keep d') \<longrightarrow>
       for_each_record_dir crc collect listing [] = (Inr (), tagged (appended ops) @ tagged (appended ops')))"
proof -
  obtain st w d segs cs ps where r: "wal_open_dir max_bytes [] = Inr st" "wal_run crc (ops @ [Commit]) st = Inr (w, d)"
      and inv: "writer_inv crc [] (next_segment_index (map fst ([] :: dir))) (appended (ops @ [Commit])) segs cs ps (w, d)"
      and rot: "w_rotation w \<noteq> None" and c: "committed (ops @ [Commit]) \<le> durable_count segs cs"
      and len: "length segs \<le> length (ops @ [Commit])"
    by (rule dir_run [of "[]" "ops @ [Commit]" max_bytes crc]) (use assms in simp_all)
  have inv: "writer_inv crc [] 0 (appended ops) segs cs ps (w, d)" using inv by (simp add: committed_snoc)
  have names: "map fst d = map segment_path (map of_nat [0..<Suc (length segs)])"
    using writer_inv_names [OF inv rot] by simp
  have bound: "Suc (length segs) < 2 ^ 64" using len assms by simp
  note nxt = next_index_after [OF names bound]
  obtain st' w' d' segs' cs' ps' where r': "wal_open_dir max_bytes' d = Inr st'" "wal_run crc (ops' @ [Commit]) st' = Inr (w', d')"
      and inv': "writer_inv crc d (next_segment_index (map fst d)) (appended (ops' @ [Commit])) segs' cs' ps' (w', d')"
      and rot': "w_rotation w' \<noteq> None" and c': "committed (ops' @ [Commit]) \<le> durable_count segs' cs'"
      and len': "length segs' \<le> length (ops' @ [Commit])"
    by (rule dir_run [of d "ops' @ [Commit]" max_bytes' crc]) (use assms nxt len in simp_all)
  have inv': "writer_inv crc d (next_segment_index (map fst d)) (appended ops') segs' cs' ps' (w', d')"
    using inv' by (simp add: committed_snoc)
  obtain n where n: "durable_count segs cs \<le> n" "n \<le> length (appended ops)"
    "for_each_segment crc collect (crashed_segments crc segs cs ps (keep (w_path w))) [] =
       (Inr (), fold (\<lambda>e. collect (fst e) (snd e)) (List.take n (tagged (appended ops))) [])"
    by (rule read_crashed_segments [OF writer_inv_all [OF inv]])
  obtain n' where n': "durable_count segs' cs' \<le> n'" "n' \<le> length (appended ops')"
    "for_each_segment crc collect (crashed_segments crc segs' cs' ps' (keep (w_path w'))) (tagged (appended ops)) =
       (Inr (), fold (\<lambda>e. collect (fst e) (snd e)) (List.take n' (tagged (appended ops'))) (tagged (appended ops)))"
    by (rule read_crashed_segments [OF writer_inv_all [OF inv']])
  have full: "n = length (appended ops)" "n' = length (appended ops')"
    using n(1,2) n'(1,2) c c' by (simp_all add: committed_snoc)
  have sorted: "sorted_wrt (<) (map fst (indexed (crash keep d)))"
    using bound by (intro indexed_crash_sorted [OF inv rot]) (simp_all add: crash_def)
  have first: "map snd (indexed (crash keep d)) = crashed_segments crc segs cs ps (keep (w_path w))"
    using indexed_crash [OF inv rot, of keep] by (simp add: crash_def del: upt_Suc)
  have "for_each_record_dir crc collect listing [] = (Inr (), tagged (appended ops) @ tagged (appended ops'))"
    if "mset listing = mset (crash keep d')" for listing
  proof -
    have "segments_in listing = map snd (indexed (crash keep d)) @ crashed_segments crc segs' cs' ps' (keep (w_path w'))"
      using that sorted nxt len len' assms by (intro segments_in_crashed [OF inv' rot']) simp_all
    then show ?thesis
      using n(3) n'(3) unfolding fold_collect full first
      by (simp add: for_each_record_dir_def for_each_segment_append)
  qed
  with r r' show ?thesis by blast
qed

theorem reopening_restarts_numbering_witness:
  "\<exists>st w d st' w' d'. wal_open_dir 64 [] = Inr st \<and> wal_run (\<lambda>_. 0) [Append (WalCancel 7), Commit] st = Inr (w, d) \<and>
     wal_open_dir 64 d = Inr st' \<and> wal_run (\<lambda>_. 0) [Append (WalCancel 8), Commit] st' = Inr (w', d') \<and>
     (\<forall>listing. mset listing = mset (crash (\<lambda>_. 0) d') \<longrightarrow>
        for_each_record_dir (\<lambda>_. 0) collect listing [] = (Inr (), [(1, WalCancel 7), (1, WalCancel 8)]))"
  using reopening_restarts_numbering [of "[Append (WalCancel 7)]" "[Append (WalCancel 8)]" 64 "\<lambda>_. 0" 64 "\<lambda>_. 0"]
  by (simp add: tagged_def del: wal_run.simps)

text \<open>C32. A segment whose header was torn stops the whole directory. If the machine stops while a new
  segment is being created, its file may hold fewer than the 8 bytes of the header; reading the
  directory then delivers every record of the segments before it, but reports an unexpected end of
  file instead of the clean end that a torn record gets, and never looks at later segments.\<close>

theorem torn_header_stops_directory:
  assumes "segments_in listing = map (\<lambda>es. segment_header @ frames crc es) ess @ torn # later" "length torn < 8"
  shows "for_each_record_dir crc collect listing [] = (Inl (WalIo UnexpectedEof), concat ess)"
proof -
  have "reader_open torn = Inl (WalIo UnexpectedEof)"
    using assms(2) by (simp add: reader_open_def read_exact_def)
  then show ?thesis
    using fold_collect [of "concat ess" "[]"] by (simp add: for_each_record_dir_def assms(1) for_each_segment_frames)
qed

theorem torn_header_stops_directory_witness:
  "for_each_record_dir (\<lambda>_. 0) collect
     [(segment_path 1, List.take 5 segment_header), (segment_path 0, segment_header @ frames (\<lambda>_. 0) [(1, WalCancel 7)])] [] =
   (Inl (WalIo UnexpectedEof), [(1, WalCancel 7)])"
proof -
  have "segments_in [(segment_path 1, List.take 5 segment_header), (segment_path 0, segment_header @ frames (\<lambda>_. 0) [(1, WalCancel 7)])] =
      map (\<lambda>es. segment_header @ frames (\<lambda>_. 0) es) [[(1, WalCancel 7)]] @ List.take 5 segment_header # []"
    by (simp add: segments_in_def map_filter_simps)
  from torn_header_stops_directory [OF this] show ?thesis by (simp add: segment_header_def)
qed

text \<open>C31. Corruption is detected where it is: if the payload of one record has been replaced by other
  bytes with another checksum, reading the log delivers every record before it and then reports the
  mismatch, whatever follows.\<close>

theorem corruption_detected:
  assumes "length payload = length (entry_payload e)" "crc payload \<noteq> crc (entry_payload e)"
  shows "for_each_record crc collect
    (segment_header @ frames crc es @
     u32_le (of_nat (length (entry_payload e))) @ u32_le (crc (entry_payload e)) @ payload @ rest) [] =
    (Inl CrcMismatch, es)"
proof -
  let ?bad = "u32_le (of_nat (length (entry_payload e))) @ u32_le (crc (entry_payload e)) @ payload @ rest"
  have "read_exact 8 ?bad =
      Inr (u32_le (of_nat (length (entry_payload e))) @ u32_le (crc (entry_payload e)), payload @ rest)"
    by (simp add: read_exact_def)
  moreover have "read_exact (length (entry_payload e)) (payload @ rest) = Inr (payload, rest)"
    using assms(1) by (simp add: read_exact_def)
  ultimately have bad: "read_record crc ?bad = Inl CrcMismatch"
    using assms(2) by (simp add: read_record_def Let_def)
  have "read_loop crc collect (frames crc es @ ?bad) out = (Inl CrcMismatch, out @ es)" for out
  proof (induction es arbitrary: out)
    case Nil
    then show ?case using bad by (simp add: read_loop.simps)
  next
    case (Cons e' es)
    have "read_record crc (frames crc (e' # es) @ ?bad) = Inr (Some ((fst e', snd e'), frames crc es @ ?bad))"
      by (simp add: read_entry_frame)
    with Cons [of "out @ [e']"] show ?case by (subst read_loop.simps) (simp add: split_beta)
  qed
  then show ?thesis by (simp add: for_each_record_def open_segment)
qed

theorem corruption_detected_witness:
  "for_each_record (\<lambda>bs. ucast (hd bs)) collect
     (segment_header @ u32_le (of_nat (length (entry_payload (1, WalCancel 7)))) @ u32_le (ucast (hd (entry_payload (1, WalCancel 7)))) @
      (2 # tl (entry_payload (1, WalCancel 7)))) [] = (Inl CrcMismatch, [])"
proof -
  have p: "entry_payload (1, WalCancel 7) = [1, 0, 0, 0, 0, 0, 0, 0, 1, 2, 7, 0, 0, 0, 0, 0, 0, 0]" by code_simp
  show ?thesis
    using corruption_detected [of "2 # tl (entry_payload (1, WalCancel 7))" "(1, WalCancel 7)" "\<lambda>bs. ucast (hd bs)" "[]" "[]"]
    by (simp add: p)
qed

end
