(* ===== verification/Volume.thy ===== *)
theory Volume
  imports Wal_Correct
begin

text \<open>
  What a power failure can do to the names of files. The actions of \<open>fs_step\<close> give the directory as programs see it; on
  the disk a file is found through a directory entry, and \<open>fsync\<close> of a file does not write the directory. A volume has
  its files by number, the entries as programs see them, and the earlier states of the entries: as nothing in the
  repository syncs a directory, a power failure may bring back, for each name, any entry it ever had. The files
  themselves keep what was synced and a prefix of what was not, as in \<open>crash_file\<close>.
\<close>

section \<open>Volumes\<close>

record volume =
  v_files :: "wal_file list"
  v_names :: "(string \<times> nat) list"
  v_past :: "(string \<times> nat) list list"

definition visible :: "volume \<Rightarrow> dir" where
  "visible v = map (\<lambda>e. (fst e, v_files v ! snd e)) (v_names v)"

definition set_names :: "(string \<times> nat) list \<Rightarrow> volume \<Rightarrow> volume" where
  "set_names ns v = v\<lparr>v_names := ns, v_past := v_names v # v_past v\<rparr>"

definition on_file :: "string \<Rightarrow> (wal_file \<Rightarrow> wal_file) \<Rightarrow> volume \<Rightarrow> volume" where
  "on_file p g v = (case map_of (v_names v) p of None \<Rightarrow> v | Some i \<Rightarrow> v\<lparr>v_files := (v_files v)[i := g (v_files v ! i)]\<rparr>)"

fun vol_step :: "fs_action \<Rightarrow> volume \<Rightarrow> io_error + volume" where
  "vol_step (RemoveFile p) v = Inr (set_names (dir_remove p (v_names v)) v)"
| "vol_step (CreateNew p) v =
     (if p \<in> fst ` set (v_names v) then Inl AlreadyExists
      else Inr (set_names (v_names v @ [(p, length (v_files v))])
                  (v\<lparr>v_files := v_files v @ [\<lparr>f_durable = [], f_pending = []\<rparr>]\<rparr>)))"
| "vol_step (WriteAll p bs) v = Inr (on_file p (\<lambda>f. f\<lparr>f_pending := f_pending f @ bs\<rparr>) v)"
| "vol_step (SyncAll p) v = Inr (on_file p (\<lambda>f. \<lparr>f_durable = f_durable f @ f_pending f, f_pending = []\<rparr>) v)"
| "vol_step (Rename p q) v =
     (case map_of (v_names v) p of
        None \<Rightarrow> Inl NotFound
      | Some i \<Rightarrow> Inr (set_names (dir_remove q (dir_remove p (v_names v)) @ [(q, i)]) v))"

fun vol_run :: "fs_action list \<Rightarrow> volume \<Rightarrow> io_error + volume" where
  "vol_run [] v = Inr v"
| "vol_run (a # as) v = try_bind (vol_step a v) (vol_run as)"

text \<open>What the disk may hold under a name after a power failure.\<close>

definition disk_state :: "(nat \<Rightarrow> nat) \<Rightarrow> volume \<Rightarrow> string \<Rightarrow> (string \<times> nat) list \<Rightarrow> bytes option" where
  "disk_state keep v q ns = map_option (\<lambda>i. crash_file (keep i) (v_files v ! i)) (map_of ns q)"

definition disk_states :: "(nat \<Rightarrow> nat) \<Rightarrow> volume \<Rightarrow> string \<Rightarrow> bytes option set" where
  "disk_states keep v q = disk_state keep v q ` set (v_names v # v_past v)"

section \<open>Well-formed volumes\<close>

text \<open>Every entry, past or present, is of a file; no two present ones have the same name or file.\<close>

definition volume_ok :: "volume \<Rightarrow> bool" where
  "volume_ok v \<longleftrightarrow> distinct (map fst (v_names v)) \<and> distinct (map snd (v_names v)) \<and>
     (\<forall>ns \<in> set (v_names v # v_past v). \<forall>e \<in> set ns. snd e < length (v_files v))"

lemma map_of_dir_remove: "map_of (dir_remove p d) q = (if q = p then None else map_of d q)"
  by (induction d) (auto simp: dir_remove_def)

lemma dir_remove_absent [simp]: "p \<notin> fst ` set (dir_remove p d)"
  by (auto simp: dir_remove_def)

lemma dir_remove_map: "dir_remove p (map (\<lambda>e. (fst e, h e)) ns) = map (\<lambda>e. (fst e, h e)) (dir_remove p ns)"
  by (simp add: dir_remove_def filter_map comp_def)

lemma map_of_visible: "map_of (visible v) p = map_option ((!) (v_files v)) (map_of (v_names v) p)"
proof -
  have "map_of (map (\<lambda>e. (fst e, v_files v ! snd e)) ns) p = map_option ((!) (v_files v)) (map_of ns p)" for ns
    by (induction ns) auto
  then show ?thesis by (simp add: visible_def)
qed

lemma on_file_names [simp]: "v_names (on_file p g v) = v_names v" "v_past (on_file p g v) = v_past v"
  "length (v_files (on_file p g v)) = length (v_files v)"
  by (simp_all add: on_file_def split: option.split)

lemma visible_on_file:
  assumes "distinct (map fst (v_names v))" "distinct (map snd (v_names v))" "\<forall>e \<in> set (v_names v). snd e < length (v_files v)"
  shows "visible (on_file p g v) = dir_update p g (visible v)"
proof (cases "map_of (v_names v) p")
  case None
  have "p \<notin> fst ` set d \<Longrightarrow> dir_update p g d = d" for d by (induction d) auto
  moreover have "p \<notin> fst ` set (visible v)" using None by (auto simp: visible_def map_of_eq_None_iff image_iff)
  ultimately show ?thesis using None by (simp add: on_file_def)
next
  case (Some i)
  have "map (\<lambda>e. (fst e, (v_files v)[i := g (v_files v ! i)] ! snd e)) ns = dir_update p g (map (\<lambda>e. (fst e, v_files v ! snd e)) ns)"
    if "distinct (map fst ns)" "distinct (map snd ns)" "map_of ns p = Some i" "\<forall>e \<in> set ns. snd e < length (v_files v)" for ns
    using that
  proof (induction ns)
    case (Cons e ns)
    have "i \<noteq> snd e'" if "fst e = p" "e' \<in> set ns" for e'
      using that Cons.prems(2,3) by (auto simp: rev_image_eqI)
    moreover have "i \<noteq> snd e" if "fst e \<noteq> p"
      using that Cons.prems(2,3) map_of_SomeD [of ns p i] by (force simp: image_iff)
    ultimately show ?case using Cons by (cases "fst e = p") auto
  qed simp
  then show ?thesis using Some assms by (simp add: visible_def on_file_def)
qed

text \<open>What programs see of a volume is the directory of \<open>fs_step\<close>.\<close>

lemma visible_step:
  assumes "volume_ok v"
  shows "map_sum id visible (vol_step a v) = fs_step a (visible v)"
proof (cases a)
  case (CreateNew p)
  have "fst ` set (visible v) = fst ` set (v_names v)" by (force simp: visible_def)
  moreover have "map (\<lambda>e. (fst e, (v_files v @ fs) ! snd e)) (v_names v) = visible v" for fs
    using assms by (auto simp: volume_ok_def visible_def nth_append)
  ultimately show ?thesis using CreateNew by (simp add: set_names_def) (simp add: visible_def)
next
  case (Rename p q)
  have "visible (set_names (dir_remove q (dir_remove p (v_names v)) @ [(q, i)]) v) =
      dir_remove q (dir_remove p (visible v)) @ [(q, v_files v ! i)]" for i
    by (simp add: visible_def set_names_def dir_remove_map)
  then show ?thesis using Rename by (simp add: map_of_visible split: option.split)
qed (use assms in \<open>simp_all add: visible_on_file volume_ok_def write_all_def sync_all_def\<close>,
    simp add: visible_def set_names_def dir_remove_map)

lemma distinct_dir_remove:
  "distinct (map f ns) \<Longrightarrow> distinct (map f (dir_remove p ns))"
  by (simp add: dir_remove_def distinct_map_filter)

lemma set_dir_remove: "set (dir_remove p ns) \<subseteq> set ns"
  by (auto simp: dir_remove_def)

lemma volume_ok_step: "volume_ok v \<Longrightarrow> vol_step a v = Inr v' \<Longrightarrow> volume_ok v'"
proof (cases a)
  case (CreateNew p)
  assume "volume_ok v" "vol_step a v = Inr v'"
  then show ?thesis using CreateNew by (fastforce simp: volume_ok_def set_names_def split: if_splits)
next
  case (Rename p q)
  assume v: "volume_ok v" and "vol_step a v = Inr v'"
  then obtain i where i: "map_of (v_names v) p = Some i" "v' = set_names (dir_remove q (dir_remove p (v_names v)) @ [(q, i)]) v"
    using Rename by (auto split: option.splits)
  have "i \<notin> snd ` set (dir_remove p (v_names v))"
    using v map_of_SomeD [OF i(1)] by (fastforce simp: volume_ok_def dir_remove_def distinct_map inj_on_def)
  with v i show ?thesis
    using set_dir_remove [of q "dir_remove p (v_names v)"] set_dir_remove [of p "v_names v"] map_of_SomeD [OF i(1)]
    by (auto simp: volume_ok_def set_names_def distinct_dir_remove)
next
  case (RemoveFile p)
  assume "volume_ok v" "vol_step a v = Inr v'"
  then show ?thesis using RemoveFile set_dir_remove [of p "v_names v"]
    by (fastforce simp: volume_ok_def set_names_def distinct_dir_remove)
qed (simp_all add: volume_ok_def, (elim sym [THEN ssubst], simp)+)

lemma visible_run: "volume_ok v \<Longrightarrow> map_sum id visible (vol_run as v) = fs_run as (visible v)"
proof (induction as arbitrary: v)
  case (Cons a as)
  have step: "map_sum id visible (vol_step a v) = fs_step a (visible v)" using Cons.prems by (rule visible_step)
  show ?case
  proof (cases "vol_step a v")
    case (Inr v')
    then show ?thesis using step Cons.IH [OF volume_ok_step [OF Cons.prems Inr]] by (simp flip: step)
  qed (simp flip: step)
qed simp

lemma vol_run_append: "vol_run (as @ as') v = try_bind (vol_run as v) (vol_run as')"
  by (induction as arbitrary: v) (auto simp: try_bind_def split: sum.splits)

section \<open>Work on one file\<close>

text \<open>Actions on one name, whose file is not found under any other, leave the disk as it was for all others.\<close>

fun only_on :: "string \<Rightarrow> fs_action \<Rightarrow> bool" where
  "only_on p (RemoveFile q) \<longleftrightarrow> q = p"
| "only_on p (CreateNew q) \<longleftrightarrow> q = p"
| "only_on p (WriteAll q bs) \<longleftrightarrow> q = p"
| "only_on p (SyncAll q) \<longleftrightarrow> q = p"
| "only_on p (Rename q q') \<longleftrightarrow> False"

definition unshared :: "string \<Rightarrow> volume \<Rightarrow> bool" where
  "unshared p v \<longleftrightarrow> (\<forall>i q. map_of (v_names v) p = Some i \<and> q \<noteq> p \<longrightarrow> (\<forall>ns \<in> set (v_names v # v_past v). map_of ns q \<noteq> Some i))"

lemma disk_states_on_file:
  assumes "unshared p v" "q \<noteq> p"
  shows "disk_states keep (on_file p g v) q = disk_states keep v q"
proof -
  have "disk_state keep (on_file p g v) q ns = disk_state keep v q ns" if "ns \<in> set (v_names v # v_past v)" for ns
  proof (cases "map_of (v_names v) p")
    case (Some i)
    then have "map_of ns q \<noteq> Some i" using assms that unfolding unshared_def by blast
    with Some show ?thesis by (cases "map_of ns q") (auto simp: disk_state_def on_file_def)
  qed (simp add: on_file_def)
  then show ?thesis by (simp add: disk_states_def)
qed

lemma disk_states_set_names:
  "disk_states keep (set_names ns v) q = insert (disk_state keep v q ns) (disk_states keep v q)"
  by (auto simp: disk_states_def set_names_def disk_state_def)

lemma disk_states_same: "map_of ns q = map_of (v_names v) q \<Longrightarrow> disk_states keep (set_names ns v) q = disk_states keep v q"
  unfolding disk_states_set_names by (auto simp: disk_states_def disk_state_def)

lemma map_of_file: "volume_ok v \<Longrightarrow> ns \<in> set (v_names v # v_past v) \<Longrightarrow> map_of ns q = Some i \<Longrightarrow> i < length (v_files v)"
  unfolding volume_ok_def by (metis map_of_SomeD snd_conv)

lemma disk_states_new_file:
  assumes "volume_ok v"
  shows "disk_states keep (v\<lparr>v_files := v_files v @ fs\<rparr>) q = disk_states keep v q"
proof -
  have "disk_state keep (v\<lparr>v_files := v_files v @ fs\<rparr>) q ns = disk_state keep v q ns" if "ns \<in> set (v_names v # v_past v)" for ns
    using map_of_file [OF assms that] by (cases "map_of ns q") (auto simp: disk_state_def nth_append)
  then show ?thesis by (simp add: disk_states_def)
qed

lemma unshared_on_file: "unshared p v \<Longrightarrow> unshared p (on_file q g v)"
  by (simp only: unshared_def on_file_names)

lemma only_on_step:
  assumes "volume_ok v" "vol_step a v = Inr v'" "only_on p a" "a = RemoveFile p \<or> unshared p v"
  shows "unshared p v'" "q \<noteq> p \<Longrightarrow> disk_states keep v' q = disk_states keep v q"
proof -
  have "unshared p v' \<and> (q \<noteq> p \<longrightarrow> disk_states keep v' q = disk_states keep v q)"
  proof (cases a)
    case (RemoveFile p')
    with assms have "p' = p" "v' = set_names (dir_remove p (v_names v)) v" by simp_all
    then show ?thesis
      by (simp add: disk_states_same map_of_dir_remove) (simp add: unshared_def set_names_def map_of_dir_remove)
  next
    case (CreateNew p')
    with assms have v': "p \<notin> fst ` set (v_names v)" "v' = set_names (v_names v @ [(p, length (v_files v))])
        (v\<lparr>v_files := v_files v @ [\<lparr>f_durable = [], f_pending = []\<rparr>]\<rparr>)"
      by (simp_all split: if_splits)
    have "map_of (v_names v) p = None" using v'(1) by (simp add: map_of_eq_None_iff)
    moreover have "map_of ns q' \<noteq> Some (length (v_files v))" if "ns \<in> set (v_names v # v_past v)" for ns q'
      using map_of_file [OF assms(1) that, of q' "length (v_files v)"] by auto
    ultimately have "unshared p v'"
      unfolding unshared_def v'(2) by (auto simp: set_names_def map_add_def split: option.splits)
    moreover have "disk_states keep v' q = disk_states keep v q" if "q \<noteq> p"
      unfolding v'(2) using that disk_states_new_file [OF assms(1)]
      by (subst disk_states_same) (simp_all add: map_add_def split: option.split)
    ultimately show ?thesis by simp
  next
    case (WriteAll p' bs)
    with assms obtain g where "v' = on_file p g v" "unshared p v" by auto
    then show ?thesis by (simp add: disk_states_on_file unshared_on_file)
  next
    case (SyncAll p')
    with assms obtain g where "v' = on_file p g v" "unshared p v" by auto
    then show ?thesis by (simp add: disk_states_on_file unshared_on_file)
  qed (use assms(3) in simp)
  then show "unshared p v'" "q \<noteq> p \<Longrightarrow> disk_states keep v' q = disk_states keep v q" by simp_all
qed

lemma only_on_run:
  assumes "volume_ok v" "vol_run as v = Inr v'" "\<forall>a \<in> set as. only_on p a" "as \<noteq> [] \<longrightarrow> hd as = RemoveFile p \<or> unshared p v"
  shows "volume_ok v'" "q \<noteq> p \<Longrightarrow> disk_states keep v' q = disk_states keep v q"
proof -
  have "volume_ok v' \<and> (q \<noteq> p \<longrightarrow> disk_states keep v' q = disk_states keep v q)"
    using assms
  proof (induction as arbitrary: v)
    case (Cons a as)
    then obtain v1 where v1: "vol_step a v = Inr v1" "vol_run as v1 = Inr v'" by (auto simp: try_bind_Inr_iff)
    note step = only_on_step [OF Cons.prems(1) v1(1)]
    have a: "only_on p a" "a = RemoveFile p \<or> unshared p v" using Cons.prems(3,4) by simp_all
    have "volume_ok v' \<and> (q \<noteq> p \<longrightarrow> disk_states keep v' q = disk_states keep v1 q)"
      using step(1) [OF a] Cons.prems(3) by (intro Cons.IH [OF volume_ok_step [OF Cons.prems(1) v1(1)] v1(2)]) simp_all
    then show ?case using step(2) [OF a] by simp
  qed simp
  then show "volume_ok v'" "q \<noteq> p \<Longrightarrow> disk_states keep v' q = disk_states keep v q" by simp_all
qed

end
