(* ===== verification/Snapshot_Correct.thy ===== *)
theory Snapshot_Correct
  imports Snapshot Volume
begin

text \<open>
  What writing a snapshot guarantees: whatever the action a power failure falls after, the disk has at its path the old
  file or the complete new one, never a torn one, and, as the directory is not synced, possibly the old one even after
  the writer has returned; and what was written reads back exactly.
\<close>

section \<open>The actions, one by one\<close>

lemma tmp_neq [simp]: "with_tmp_suffix path \<noteq> path" "path \<noteq> with_tmp_suffix path"
  by (simp_all add: with_tmp_suffix_def)

section \<open>The whole write\<close>

definition synced :: "bytes \<Rightarrow> wal_file" where
  "synced bs = \<lparr>f_durable = bs, f_pending = []\<rparr>"

lemma snapshot_write_result:
  "snapshot_write b ms ws path d =
     Inr (dir_remove path (dir_remove (with_tmp_suffix path) d) @ [(path, synced (snapshot_bytes b ms ws))])"
proof -
  let ?tmp = "with_tmp_suffix path"
  let ?d = "dir_remove ?tmp d"
  have gone: "dir_remove ?tmp (?d @ [(?tmp, f)]) = ?d" for f by (auto simp: dir_remove_def)
  have "map_of (?d @ [(?tmp, f)]) ?tmp = Some f" for f
    by (simp add: map_add_def map_of_dir_remove)
  then show ?thesis
    using fs_run_writes [of ?tmp ?d "snapshot_chunks b ms ws" "[]" "[]"] sync_all_last [of ?tmp ?d "[]"]
    by (simp add: snapshot_write_def snap_io_def snapshot_actions_def Let_def fs_run_append gone snapshot_bytes_def synced_def)
qed

lemma map_of_crash: "map_of (crash keep d) p = map_option (crash_file (keep p)) (map_of d p)"
  by (induction d) (auto simp: crash_def)

lemma crash_synced: "map_of d p = Some (synced bs) \<Longrightarrow> map_of (crash keep d) p = Some bs"
  by (simp add: map_of_crash crash_file_def synced_def)

lemma snapshot_write_file:
  "snapshot_write b ms ws path d = Inr d' \<Longrightarrow> map_of d' path = Some (synced (snapshot_bytes b ms ws))"
  by (auto simp: snapshot_write_result map_add_def map_of_dir_remove)

text \<open>Everything before the rename happens to the temporary file.\<close>

lemma snapshot_actions_split:
  obtains as where "snapshot_actions b ms ws path = RemoveFile (with_tmp_suffix path) # as @ [Rename (with_tmp_suffix path) path]"
    "\<forall>a \<in> set as. only_on (with_tmp_suffix path) a"
  by (rule that [of "CreateNew (with_tmp_suffix path) # map (WriteAll (with_tmp_suffix path)) (snapshot_chunks b ms ws) @
      [SyncAll (with_tmp_suffix path)]"]) (auto simp: snapshot_actions_def Let_def)

lemma vol_run_snapshot:
  assumes "volume_ok v"
  obtains v' where "vol_run (snapshot_actions b ms ws path) v = Inr v'" "snapshot_write b ms ws path (visible v) = Inr (visible v')"
  using visible_run [OF assms, of "snapshot_actions b ms ws path"] snapshot_write_result [of b ms ws path "visible v"]
  by (cases "vol_run (snapshot_actions b ms ws path) v") (auto simp: snapshot_write_def snap_io_def split: sum.splits)

lemma vol_run_prefix: "vol_run (as @ as') v = Inr v' \<Longrightarrow> \<exists>v1. vol_run as v = Inr v1 \<and> vol_run as' v1 = Inr v'"
  by (simp add: vol_run_append try_bind_Inr_iff)

text \<open>C33. Replacing a snapshot is atomic, but its effect is not made durable. Stop the writer after any number of its
  file-system actions and cut the power: no action has failed; as long as the rename is not done the disk has at the
  path what it could have had before; after it, that or the complete new snapshot, both of which can happen, and never
  anything in between; and of any other name but the temporary one what it could have had before.\<close>

theorem snapshot_write_atomic:
  assumes "volume_ok v"
  shows "\<exists>v'. vol_run (List.take n (snapshot_actions b ms ws path)) v = Inr v' \<and>
     disk_states keep v' path = disk_states keep v path \<union>
       (if n < length (snapshot_actions b ms ws path) then {} else {Some (snapshot_bytes b ms ws)}) \<and>
     (\<forall>q. q \<noteq> path \<and> q \<noteq> with_tmp_suffix path \<longrightarrow> disk_states keep v' q = disk_states keep v q)"
proof -
  let ?as = "snapshot_actions b ms ws path" and ?tmp = "with_tmp_suffix path"
  obtain as where as: "?as = RemoveFile ?tmp # as @ [Rename ?tmp path]" "\<forall>a \<in> set as. only_on ?tmp a"
    by (rule snapshot_actions_split)
  obtain full where full: "vol_run ?as v = Inr full" "snapshot_write b ms ws path (visible v) = Inr (visible full)"
    by (rule vol_run_snapshot [OF assms])
  have before: "\<exists>v'. vol_run as' v = Inr v' \<and> volume_ok v' \<and> (\<forall>q. q \<noteq> ?tmp \<longrightarrow> disk_states keep v' q = disk_states keep v q)"
    if as': "prefix as' (RemoveFile ?tmp # as)" for as'
  proof -
    obtain rest where rest: "?as = as' @ rest" using as' as(1) by (metis append.assoc append_Cons prefix_def)
    obtain v' where v': "vol_run as' v = Inr v'" using vol_run_prefix [of as' rest v full] full(1) rest by auto
    have "\<forall>a \<in> set as'. only_on ?tmp a" using as' as(2) set_mono_prefix [OF as'] by auto
    moreover have "as' \<noteq> [] \<longrightarrow> hd as' = RemoveFile ?tmp \<or> unshared ?tmp v" using as' by (cases as') auto
    ultimately show ?thesis using only_on_run [OF assms v'] v' by blast
  qed
  show ?thesis
  proof (cases "n < length ?as")
    case True
    then have "List.take n ?as = List.take n (RemoveFile ?tmp # as)" by (simp add: as(1) take_Cons')
    then show ?thesis using before [OF take_is_prefix, of n] True by auto
  next
    case False
    obtain v1 where v1: "vol_run (RemoveFile ?tmp # as) v = Inr v1" "volume_ok v1"
      "\<And>q. q \<noteq> ?tmp \<Longrightarrow> disk_states keep v1 q = disk_states keep v q"
      using before [of "RemoveFile ?tmp # as"] by auto
    have "vol_run [Rename ?tmp path] v1 = Inr full"
      using vol_run_prefix [of "RemoveFile ?tmp # as" "[Rename ?tmp path]" v full] full(1) v1(1) by (simp add: as(1))
    then obtain i where i: "full = set_names (dir_remove path (dir_remove ?tmp (v_names v1)) @ [(path, i)]) v1"
      by (auto split: option.splits)
    have "map_of (visible full) path = Some (v_files v1 ! i)"
      unfolding i map_of_visible by (simp add: set_names_def map_add_def map_of_dir_remove)
    then have contents: "v_files v1 ! i = synced (snapshot_bytes b ms ws)" using snapshot_write_file [OF full(2)] by simp
    have "disk_states keep full path = insert (Some (snapshot_bytes b ms ws)) (disk_states keep v1 path)"
      unfolding i disk_states_set_names
      by (simp add: disk_state_def map_add_def map_of_dir_remove contents crash_file_def synced_def)
    moreover have "disk_states keep full q = disk_states keep v1 q" if "q \<noteq> path" "q \<noteq> ?tmp" for q
      unfolding i using that by (intro disk_states_same) (simp add: map_add_def map_of_dir_remove split: option.split)
    ultimately show ?thesis using full(1) v1(3) False by (intro exI [of _ full]) simp
  qed
qed

definition sample_volume :: volume where
  "sample_volume = \<lparr>v_files = [synced [7]], v_names = [(''s'', 0)], v_past = []\<rparr>"

theorem snapshot_write_atomic_witness:
  "\<exists>v'. vol_run (List.take 9 (snapshot_actions book_new 1 0 ''s'')) sample_volume = Inr v' \<and>
     disk_states (\<lambda>_. 0) v' ''s'' = {Some [7], Some (snapshot_bytes book_new 1 0)} \<and>
     (\<forall>q. q \<noteq> ''s'' \<and> q \<noteq> with_tmp_suffix ''s'' \<longrightarrow> disk_states (\<lambda>_. 0) v' q = disk_states (\<lambda>_. 0) sample_volume q)"
proof -
  have "volume_ok sample_volume" by (simp add: volume_ok_def sample_volume_def)
  moreover have "\<not> 9 < length (snapshot_actions book_new 1 0 ''s'')"
    by (simp add: snapshot_actions_def Let_def snapshot_chunks_def) code_simp
  moreover have "disk_states (\<lambda>_. 0) sample_volume ''s'' = {Some [7]}"
    by (simp add: disk_states_def disk_state_def sample_volume_def crash_file_def synced_def)
  ultimately show ?thesis
    using snapshot_write_atomic [of sample_volume 9 book_new 1 0 "''s''" "\<lambda>_. 0"] by (simp add: insert_commute)
qed

text \<open>C34. A snapshot reads back exactly: writing a well-formed book with its markers never fails on
  any directory, and afterwards the file at the path, all of it synced, gives back that very
  book with the matcher's sequence and the log marker, through each of the three readers; and the file
  cut short anywhere is refused as truncated rather than read as a smaller book.\<close>

theorem snapshot_round_trip:
  assumes "book_inv b" "book_len b < 2 ^ 64"
  shows "\<exists>d' contents. snapshot_write b ms ws path d = Inr d' \<and>
    map_of d' path = Some \<lparr>f_durable = contents, f_pending = []\<rparr> \<and>
    read_full contents = Inr (b, ms, ws) \<and> snapshot_read contents = Inr (b, ms) \<and> read_wal_marker contents = Inr ws \<and>
    (\<forall>n < length contents. read_full (List.take n contents) = Inl SnapTruncated)"
proof -
  obtain d' where d': "snapshot_write b ms ws path d = Inr d'" by (simp add: snapshot_write_result)
  moreover have "map_of d' path = Some \<lparr>f_durable = snapshot_bytes b ms ws, f_pending = []\<rparr>"
    using snapshot_write_file [OF d'] by (simp add: synced_def)
  ultimately show ?thesis
    using read_full_bytes [OF assms] read_full_truncated [OF assms] read_wal_marker_bytes
    by (intro exI [of _ d'] exI [of _ "snapshot_bytes b ms ws"]) (simp add: snapshot_read_def)
qed

theorem snapshot_round_trip_witness:
  "\<exists>d' contents. snapshot_write (snd (book_add 7 Sell (Price 100) 5 3 book_new)) 4 9 ''s'' [] = Inr d' \<and>
    map_of d' ''s'' = Some \<lparr>f_durable = contents, f_pending = []\<rparr> \<and>
    read_full contents = Inr (snd (book_add 7 Sell (Price 100) 5 3 book_new), 4, 9) \<and>
    snapshot_read contents = Inr (snd (book_add 7 Sell (Price 100) 5 3 book_new), 4) \<and> read_wal_marker contents = Inr 9 \<and>
    (\<forall>n < length contents. read_full (List.take n contents) = Inl SnapTruncated)"
proof (rule snapshot_round_trip)
  show "book_inv (snd (book_add 7 Sell (Price 100) 5 3 book_new))" by (simp add: inv_intros)
  have "book_len (snd (book_add 7 Sell (Price 100) 5 3 book_new)) = 1" by code_simp
  then show "book_len (snd (book_add 7 Sell (Price 100) 5 3 book_new)) < 2 ^ 64" by simp
qed

end
