(* ===== verification/Replay.thy ===== *)
theory Replay
  imports Snapshot_Correct Market_Laws
begin

text \<open>
  Recovery, \<^verbatim>\<open>bourse-replay/src/main.rs\<close>: the arguments, the matcher rebuilt from a snapshot and
  the tail of the log or from the whole log, and the summary printed at the end. Where the tool
  panics (\<open>expect\<close>) the model returns the error it panics with. The standard library's
  \<open>DefaultHasher\<close> is unspecified and a parameter of the state hash.
\<close>

section \<open>Arguments\<close>

datatype replay_args = UsageExit | Run "string option" string

text \<open>The loop over the arguments, with the paths seen so far.\<close>

fun replay_arg_loop :: "string list \<Rightarrow> string option \<Rightarrow> string option \<Rightarrow> replay_args" where
  "replay_arg_loop [] snap wal = (case wal of None \<Rightarrow> UsageExit | Some p \<Rightarrow> Run snap p)"
| "replay_arg_loop [a] snap wal =
     (if a = ''--snapshot'' then replay_arg_loop [] None wal
      else if a = ''--wal'' then replay_arg_loop [] snap None
      else UsageExit)"
| "replay_arg_loop (a # v # args) snap wal =
     (if a = ''--snapshot'' then replay_arg_loop args (Some v) wal
      else if a = ''--wal'' then replay_arg_loop args snap (Some v)
      else UsageExit)"

definition replay_args_of :: "string list \<Rightarrow> replay_args" where
  "replay_args_of args = replay_arg_loop args None None"

section \<open>Recovery\<close>

datatype replay_error = SnapshotFailed snapshot_error | WalFailed wal_error

record replay_state =
  rp_engine :: "matcher \<times> event list"
  rp_replayed :: u64
  rp_last_seq :: sequence

definition replay_start :: "bytes option \<Rightarrow> replay_error + (matcher \<times> sequence)" where
  "replay_start snap =
     (case snap of
        Some contents \<Rightarrow>
          (case snapshot_read contents of
             Inl e \<Rightarrow> Inl (SnapshotFailed e)
           | Inr (b, matcher_seq) \<Rightarrow>
               (case read_wal_marker contents of
                  Inl e \<Rightarrow> Inl (SnapshotFailed e)
                | Inr wal_marker \<Rightarrow> Inr (with_book b matcher_seq, wal_marker)))
      | None \<Rightarrow> Inr (matcher_new, 0))"

fun apply_record :: "wal_record \<Rightarrow> matcher \<times> event list \<Rightarrow> matcher \<times> event list" where
  "apply_record (WalNewOrder no) st = accept no st"
| "apply_record (WalCancel i) st = matcher_cancel i st"

text \<open>The callback of \<open>for_each_record\<close>.\<close>

definition replay_record :: "sequence \<Rightarrow> sequence \<Rightarrow> wal_record \<Rightarrow> replay_state \<Rightarrow> replay_state" where
  "replay_record skip_marker sq rec s =
     (if sq \<le> skip_marker then s
      else s\<lparr>rp_last_seq := sq, rp_engine := apply_record rec (rp_engine s), rp_replayed := rp_replayed s + 1\<rparr>)"

definition recover :: "(bytes \<Rightarrow> u32) \<Rightarrow> bytes option \<Rightarrow> bytes \<Rightarrow> replay_error + replay_state" where
  "recover crc32c snap wal =
     try_bind (replay_start snap) (\<lambda>(m, skip_marker).
       case for_each_record crc32c (replay_record skip_marker) wal
              \<lparr>rp_engine = (m, []), rp_replayed = 0, rp_last_seq = 0\<rparr> of
         (Inl e, s) \<Rightarrow> Inl (WalFailed e)
       | (Inr _, s) \<Rightarrow> Inr s)"

section \<open>The state hash and the summary\<close>

type_synonym hash_tuple = "u64 \<times> u8 \<times> i64 \<times> u64 \<times> u64"

definition hash_order :: "(hash_tuple \<Rightarrow> u64) \<Rightarrow> resting_order \<Rightarrow> u64" where
  "hash_order hash r = hash (r_id r, side_discr (r_side r), price_raw (r_price r), r_qty r, r_seq r)"

definition state_hash :: "(hash_tuple \<Rightarrow> u64) \<Rightarrow> book \<Rightarrow> u64" where
  "state_hash hash b = fold (\<lambda>r acc. xor acc (hash_order hash r)) (iter_resting b) 0"

record replay_summary =
  sm_replayed :: u64
  sm_last_seq :: sequence
  sm_resting :: nat
  sm_best_bid :: "price option"
  sm_best_ask :: "price option"
  sm_hash :: u64

definition summary :: "(hash_tuple \<Rightarrow> u64) \<Rightarrow> replay_state \<Rightarrow> replay_summary" where
  "summary hash s =
     (let b = m_book (fst (rp_engine s))
      in \<lparr>sm_replayed = rp_replayed s, sm_last_seq = rp_last_seq s, sm_resting = book_len b,
          sm_best_bid = best_bid b, sm_best_ask = best_ask b, sm_hash = state_hash hash b\<rparr>)"

section \<open>The tool\<close>

text \<open>How a run ends: with the usage and exit code 2, in a panic, or with the summary and success. \<open>files\<close> are
  the contents of the files by path.\<close>

datatype replay_outcome = ExitUsage | Panicked replay_error | Reported replay_summary

definition read_files :: "(string \<rightharpoonup> bytes) \<Rightarrow> string option \<Rightarrow> string \<Rightarrow> replay_error + (bytes option \<times> bytes)" where
  "read_files files snap wal =
     try_bind (case snap of
         None \<Rightarrow> Inr None
       | Some p \<Rightarrow> (case files p of None \<Rightarrow> Inl (SnapshotFailed (SnapIo NotFound)) | Some bs \<Rightarrow> Inr (Some bs)))
       (\<lambda>sn. case replay_start sn of
          Inl e \<Rightarrow> Inl e
        | Inr _ \<Rightarrow> (case files wal of None \<Rightarrow> Inl (WalFailed (WalIo NotFound)) | Some bs \<Rightarrow> Inr (sn, bs)))"

definition replay_main :: "(bytes \<Rightarrow> u32) \<Rightarrow> (hash_tuple \<Rightarrow> u64) \<Rightarrow> (string \<rightharpoonup> bytes) \<Rightarrow> string list \<Rightarrow> replay_outcome" where
  "replay_main crc32c hash files args =
     (case replay_args_of args of
        UsageExit \<Rightarrow> ExitUsage
      | Run snap wal \<Rightarrow>
          (case try_bind (read_files files snap wal) (\<lambda>(sn, log). recover crc32c sn log) of
             Inl e \<Rightarrow> Panicked e
           | Inr s \<Rightarrow> Reported (summary hash s)))"

section \<open>Records are commands\<close>

fun record_command :: "wal_record \<Rightarrow> command" where
  "record_command (WalNewOrder no) = New no"
| "record_command (WalCancel i) = Cancel i"

lemma apply_record_command: "apply_record rec st = apply_command (record_command rec) st"
  by (cases rec) simp_all

text \<open>The matcher after a list of logged operations, which is what a recovery should give back.\<close>

definition live :: "wal_record list \<Rightarrow> matcher" where
  "live rs = fst (run_commands (map record_command rs) (matcher_new, []))"

definition live_events :: "wal_record list \<Rightarrow> event list" where
  "live_events rs = snd (run_commands (map record_command rs) (matcher_new, []))"

lemma live_append:
  "live (rs @ rs') = fst (run_commands (map record_command rs') (live rs, []))"
  using after_run_commands [of "map record_command rs'" "live_events rs" "(live rs, [])"]
  by (simp add: live_def live_events_def after_def)

lemma fold_apply_record: "fold apply_record rs st = run_commands (map record_command rs) st"
  by (induction rs arbitrary: st) (simp_all add: apply_record_command)

section \<open>A live matcher can be written to a snapshot\<close>

text \<open>An event opens at most one order, so the book holds no more orders than there were events.\<close>

lemma card_observe:
  "observe e op = Some op' \<Longrightarrow> finite (dom op) \<Longrightarrow> finite (dom op') \<and> card (dom op') \<le> Suc (card (dom op))"
proof (cases e)
  case (Trade t m p q sq)
  assume "observe e op = Some op'" "finite (dom op)"
  with Trade have "dom op' = dom op" by (auto split: option.splits if_splits)
  with \<open>finite (dom op)\<close> show ?thesis by simp
qed (auto simp: card_insert_if card_Diff_singleton_if split: if_splits)

lemma card_lifecycle:
  "lifecycle es op = Some op' \<Longrightarrow> finite (dom op) \<Longrightarrow> card (dom op') \<le> card (dom op) + length es"
proof (induction es arbitrary: op)
  case (Cons e es)
  then show ?case
    using card_observe [of e op] by (fastforce split: option.splits)
qed simp

lemma live_book_len: "book_len (m_book (live rs)) \<le> length (live_events rs)"
proof -
  let ?b = "m_book (live rs)"
  have inv: "book_inv ?b" by (simp add: live_def)
  have "Mapping.keys (index ?b) = dom (market_open (priority ?b))"
    using contains_listed [OF inv]
    by (subst dom_market_open) (simp add: keys_dom_lookup book_contains_def dom_def)
  then have "book_len ?b = card (dom (market_open (priority ?b)))"
    by (simp add: book_len_def Mapping.size_def)
  also have "\<dots> \<le> length (live_events rs)"
    using card_lifecycle [OF run_lifecycle [of "map record_command rs"]] by (simp add: live_def live_events_def)
  finally show ?thesis .
qed

lemma live_peek_seq: "peek_seq (live rs) = of_nat (Suc (length (live_events rs)))"
  using emits_run_commands [of "(matcher_new, [])" "map record_command rs"]
  by (auto simp: emits_def live_def live_events_def matcher_new_def sequence_generator_new_def peek_seq_def seq_peek_def)

text \<open>The snapshot of a live matcher starts the recovery where the matcher stood.\<close>

lemma replay_start_live:
  assumes "length (live_events rs) < 2 ^ 64 - 1"
  shows "replay_start (Some (snapshot_bytes (m_book (live rs)) (peek_seq (live rs)) ws)) = Inr (live rs, ws)"
proof -
  have inv: "book_inv (m_book (live rs))" by (simp add: live_def)
  have len: "book_len (m_book (live rs)) < 2 ^ 64" using live_book_len [of rs] assms by linarith
  have "unat (peek_seq (live rs)) = Suc (length (live_events rs))"
    unfolding live_peek_seq using assms by (subst unat_of_nat) simp
  then have "peek_seq (live rs) \<noteq> 0" by (metis nat.distinct(1) unat_0)
  then have "with_book (m_book (live rs)) (peek_seq (live rs)) = live rs"
    by (simp add: with_book_def starting_at_def peek_seq_def seq_peek_def)
  then show ?thesis
    by (simp add: replay_start_def snapshot_read_def read_full_bytes [OF inv len] read_wal_marker_bytes)
qed

section \<open>Replaying numbered records\<close>

lemma map_snd_tagged [simp]: "map snd (tagged rs) = rs"
  by (simp add: tagged_def)

lemma tagged_nth: "i < length rs \<Longrightarrow> tagged rs ! i = (of_nat (Suc i), rs ! i)"
  by (simp add: tagged_def)

lemma tagged_number:
  assumes "length rs < 2 ^ 64" "i < length rs"
  shows "unat (fst (tagged rs ! i)) = Suc i"
  using assms by (simp add: tagged_nth unat_of_nat del: of_nat_Suc)

lemma replay_skips:
  "(\<forall>e \<in> set es. fst e \<le> mk) \<Longrightarrow> fold (\<lambda>e. replay_record mk (fst e) (snd e)) es s = s"
  by (induction es) (simp_all add: replay_record_def)

lemma replay_applies:
  "(\<forall>e \<in> set es. mk < fst e) \<Longrightarrow>
     fold (\<lambda>e. replay_record mk (fst e) (snd e)) es s =
       \<lparr>rp_engine = run_commands (map (record_command \<circ> snd) es) (rp_engine s),
        rp_replayed = rp_replayed s + of_nat (length es),
        rp_last_seq = (if es = [] then rp_last_seq s else fst (last es))\<rparr>"
  by (induction es arbitrary: s) (auto simp: replay_record_def apply_record_command)

text \<open>Of the first \<open>n\<close> records, those after the marker \<open>j\<close> are applied.\<close>

lemma replay_tagged:
  assumes "length rs < 2 ^ 64" "n \<le> length rs" "j \<le> length rs"
  shows "fold (\<lambda>e. replay_record (of_nat j) (fst e) (snd e)) (List.take n (tagged rs)) s =
    \<lparr>rp_engine = run_commands (map record_command (drop j (List.take n rs))) (rp_engine s),
     rp_replayed = rp_replayed s + of_nat (n - j),
     rp_last_seq = (if n \<le> j then rp_last_seq s else of_nat n)\<rparr>"
proof -
  let ?es = "List.take n (tagged rs)"
  have j: "unat (of_nat j :: u64) = j" using assms by (simp add: unat_of_nat)
  have old: "\<forall>e \<in> set (List.take j ?es). fst e \<le> of_nat j"
    using tagged_number [OF assms(1)] assms j
    by (auto simp: in_set_conv_nth word_le_nat_alt) (metis Suc_leI fst_conv order_less_le_trans)
  have new: "\<forall>e \<in> set (drop j ?es). of_nat j < fst e"
  proof
    fix e
    assume "e \<in> set (drop j ?es)"
    then obtain i where i: "i < n - j" "e = tagged rs ! (j + i)" using assms(2) by (auto simp: in_set_conv_nth)
    then have "unat (fst e) = Suc (j + i)" using tagged_number [OF assms(1)] assms(2) by simp
    then show "of_nat j < fst e" using j by (simp add: word_less_nat_alt)
  qed
  have last: "fst (last (drop j ?es)) = of_nat n" if "\<not> n \<le> j"
    using that assms by (simp add: last_conv_nth tagged_nth del: of_nat_Suc)
  have split: "fold f ?es s = fold f (drop j ?es) (fold f (List.take j ?es) s)" for f
    by (metis append_take_drop_id fold_append comp_apply)
  have "map (record_command \<circ> snd) (drop j ?es) = map record_command (drop j (List.take n rs))"
    by (simp flip: drop_map take_map map_map)
  with old new last show ?thesis
    unfolding split by (simp add: replay_skips replay_applies assms)
qed

lemma live_tail: "live rs = fst (run_commands (map record_command (drop j rs)) (live (List.take j rs), []))"
  using live_append [of "List.take j rs" "drop j rs"] by simp

text \<open>What recovery makes of the files left by a crash.\<close>

lemma recover_crashed:
  assumes "wal_create path d = Inr st" "length (appended ops) < 2 ^ 64" "j \<le> length (appended ops)"
    "length (live_events (List.take j (appended ops))) < 2 ^ 64 - 1"
    "snapshot_write (m_book (live (List.take j (appended ops)))) (peek_seq (live (List.take j (appended ops)))) (of_nat j) spath sd = Inr sd'"
  shows "\<exists>w d' n log snap s. wal_run crc ops st = Inr (w, d') \<and> map_of (crash keep d') path = Some log \<and>
    map_of (crash keep sd') spath = Some snap \<and> committed ops \<le> n \<and> n \<le> length (appended ops) \<and>
    recover crc (Some snap) log = Inr s \<and> fst (rp_engine s) = live (List.take (max j n) (appended ops)) \<and>
    rp_replayed s = of_nat (n - j) \<and> rp_last_seq s = (if n \<le> j then 0 else of_nat n)"
proof (rule crashed_log [OF assms(1), of crc ops keep])
  fix w d' n tail
  let ?rs = "appended ops"
  let ?log = "segment_header @ frames crc (List.take n (tagged ?rs)) @ tail"
  let ?snap = "snapshot_bytes (m_book (live (List.take j ?rs))) (peek_seq (live (List.take j ?rs))) (of_nat j)"
  assume log: "wal_run crc ops st = Inr (w, d')" "map_of (crash keep d') path = Some ?log"
    "committed ops \<le> n" "n \<le> length ?rs" and tail: "read_record crc tail = Inr None"
  have snap: "map_of (crash keep sd') spath = Some ?snap"
    using snapshot_write_file [OF assms(5)] by (rule crash_synced)
  let ?s = "\<lparr>rp_engine = run_commands (map record_command (drop j (List.take n ?rs))) (live (List.take j ?rs), []),
     rp_replayed = of_nat (n - j), rp_last_seq = (if n \<le> j then 0 else of_nat n)\<rparr>"
  have r: "recover crc (Some ?snap) ?log = Inr ?s"
    by (simp add: recover_def replay_start_live [OF assms(4)] for_each_log [OF tail] replay_tagged [OF assms(2) log(4) assms(3)])
  have m: "fst (rp_engine ?s) = live (List.take (max j n) ?rs)"
  proof -
    have "drop j (List.take (max j n) ?rs) = drop j (List.take n ?rs)" by (cases "j \<le> n") simp_all
    then show ?thesis using live_tail [of "List.take (max j n) ?rs" j] by simp
  qed
  have c: "rp_replayed ?s = of_nat (n - j)" "rp_last_seq ?s = (if n \<le> j then 0 else of_nat n)" by simp_all
  show ?thesis by (intro exI conjI) (rule log snap r m c)+
qed

lemma replay_main_reports:
  assumes "recover crc (Some snap) log = Inr s" "files path = Some log" "files spath = Some snap"
  shows "replay_main crc hash files [''--snapshot'', spath, ''--wal'', path] = Reported (summary hash s)"
proof -
  obtain m k where "replay_start (Some snap) = Inr (m, k)"
    using assms(1) by (auto simp: recover_def try_bind_Inr_iff)
  then show ?thesis using assms by (simp add: replay_main_def replay_args_of_def read_files_def)
qed

text \<open>C4. Recovery from a snapshot and the log, as the tool does it. Let a log file be created, appended to and
  committed in any order, and let a snapshot be taken of the matcher that has executed the first \<open>j\<close>
  logged operations, with \<open>j\<close> as its log marker. Whatever prefix of the unsynced bytes a crash
  keeps, as long as the directory entries of the two files survive it (if it undoes the rename of the snapshot, the same holds of the
  older one and its marker), recovery from the two files succeeds and reaches exactly the matcher (book and sequence number) of a live run
  of the first \<open>max j n\<close> operations, where \<open>n\<close>, the number of records that survived, covers every record
  appended before the last commit; and the tool, given the paths, reports the size, best prices and hash of that
  matcher's book and the \<open>n - j\<close> records it replayed.\<close>

theorem replay_tool_recovers:
  assumes "wal_create path d = Inr st" "length (appended ops) < 2 ^ 64" "j \<le> length (appended ops)"
    "length (live_events (List.take j (appended ops))) < 2 ^ 64 - 1"
    "snapshot_write (m_book (live (List.take j (appended ops)))) (peek_seq (live (List.take j (appended ops)))) (of_nat j) spath sd = Inr sd'"
  shows "\<exists>w d' n log snap s. wal_run crc ops st = Inr (w, d') \<and> map_of (crash keep d') path = Some log \<and>
    map_of (crash keep sd') spath = Some snap \<and> committed ops \<le> n \<and> n \<le> length (appended ops) \<and>
    recover crc (Some snap) log = Inr s \<and> fst (rp_engine s) = live (List.take (max j n) (appended ops)) \<and>
    (\<forall>files. files path = Some log \<longrightarrow> files spath = Some snap \<longrightarrow>
       replay_main crc hash files [''--snapshot'', spath, ''--wal'', path] =
         (let b = m_book (live (List.take (max j n) (appended ops)))
          in Reported \<lparr>sm_replayed = of_nat (n - j), sm_last_seq = (if n \<le> j then 0 else of_nat n), sm_resting = book_len b,
               sm_best_bid = best_bid b, sm_best_ask = best_ask b, sm_hash = state_hash hash b\<rparr>))"
proof -
  obtain w d' n log snap s where r: "wal_run crc ops st = Inr (w, d')" "map_of (crash keep d') path = Some log"
    "map_of (crash keep sd') spath = Some snap" "committed ops \<le> n" "n \<le> length (appended ops)"
    "recover crc (Some snap) log = Inr s" "fst (rp_engine s) = live (List.take (max j n) (appended ops))"
    and c: "rp_replayed s = of_nat (n - j)" "rp_last_seq s = (if n \<le> j then 0 else of_nat n)"
    using recover_crashed [OF assms, of crc keep] by (elim exE conjE) (rule that)
  have "replay_main crc hash files [''--snapshot'', spath, ''--wal'', path] =
      (let b = m_book (live (List.take (max j n) (appended ops)))
       in Reported \<lparr>sm_replayed = of_nat (n - j), sm_last_seq = (if n \<le> j then 0 else of_nat n), sm_resting = book_len b,
            sm_best_bid = best_bid b, sm_best_ask = best_ask b, sm_hash = state_hash hash b\<rparr>)"
    if "files path = Some log" "files spath = Some snap" for files
    using replay_main_reports [OF r(6) that] r(7) c by (simp add: summary_def Let_def)
  with r show ?thesis by blast
qed

definition sample_order :: new_order where
  "sample_order = \<lparr>no_id = 1, no_side = Buy, no_qty = 5, no_kind = Limit (Price 100), no_timestamp = 0\<rparr>"

definition sample_ops :: "wal_op list" where
  "sample_ops = [Append (WalNewOrder sample_order), Commit, Append (WalCancel 1)]"

definition sample_log :: "wal_writer \<times> dir" where
  "sample_log = (\<lparr>w_path = ''a'', w_next_seq = 1, w_bytes_written = 8, w_rotation = None\<rparr>,
     [(''a'', \<lparr>f_durable = segment_header, f_pending = []\<rparr>)])"

lemma sample_facts:
  "wal_create ''a'' [] = Inr sample_log"
  "appended sample_ops = [WalNewOrder sample_order, WalCancel 1]" "committed sample_ops = 1"
  by (code_simp, simp_all add: sample_ops_def)

theorem replay_tool_recovers_witness:
  "\<exists>sd' w d' n log snap s.
     snapshot_write (m_book (live [WalNewOrder sample_order])) (peek_seq (live [WalNewOrder sample_order])) 1 ''s'' [] = Inr sd' \<and>
     wal_run (\<lambda>_. 0) sample_ops sample_log = Inr (w, d') \<and>
     map_of (crash (\<lambda>_. 17) d') ''a'' = Some log \<and> map_of (crash (\<lambda>_. 17) sd') ''s'' = Some snap \<and>
     1 \<le> n \<and> n \<le> Suc 1 \<and> recover (\<lambda>_. 0) (Some snap) log = Inr s \<and>
     fst (rp_engine s) = live (List.take (max 1 n) [WalNewOrder sample_order, WalCancel 1])"
proof -
  have ev: "live_events [WalNewOrder sample_order] = [Accepted 1 5 1]" by code_simp
  obtain sd' where sd': "snapshot_write (m_book (live [WalNewOrder sample_order]))
      (peek_seq (live [WalNewOrder sample_order])) 1 ''s'' [] = Inr sd'"
    by (simp add: snapshot_write_result)
  have one: "List.take 1 (appended sample_ops) = [WalNewOrder sample_order]" by (simp add: sample_facts)
  have "length (appended sample_ops) < 2 ^ 64" "1 \<le> length (appended sample_ops)"
    "length (live_events (List.take 1 (appended sample_ops))) < 2 ^ 64 - 1"
    "snapshot_write (m_book (live (List.take 1 (appended sample_ops)))) (peek_seq (live (List.take 1 (appended sample_ops)))) (of_nat 1) ''s'' [] = Inr sd'"
    unfolding one using sd' by (simp_all add: sample_facts ev)
  note r = replay_tool_recovers [OF sample_facts(1) this, of "\<lambda>_. 0" "\<lambda>_. 17" "\<lambda>_. 0"]
  have len: "length (appended sample_ops) = Suc 1" by (simp add: sample_facts)
  from r [unfolded len] sd' show ?thesis unfolding sample_facts(2,3) by blast
qed

text \<open>Recovery from the log alone: replaying a log file that went through any appends, commits
  and a crash succeeds and gives exactly the matcher and the events of a live run of the surviving records,
  which include every record appended before the last commit, and reports the number of
  the last record.\<close>

theorem log_recovers:
  assumes "wal_create path d = Inr st" "length (appended ops) < 2 ^ 64"
  shows "\<exists>w d' n log s. wal_run crc ops st = Inr (w, d') \<and> map_of (crash keep d') path = Some log \<and>
    committed ops \<le> n \<and> n \<le> length (appended ops) \<and> recover crc None log = Inr s \<and>
    rp_engine s = run_commands (map record_command (List.take n (appended ops))) (matcher_new, []) \<and>
    rp_replayed s = of_nat n \<and> rp_last_seq s = of_nat n"
proof (rule crashed_log [OF assms(1), of crc ops keep])
  fix w d' n tail
  let ?rs = "appended ops"
  let ?log = "segment_header @ frames crc (List.take n (tagged ?rs)) @ tail"
  let ?s = "\<lparr>rp_engine = run_commands (map record_command (List.take n ?rs)) (matcher_new, []),
     rp_replayed = of_nat n, rp_last_seq = of_nat n\<rparr>"
  assume log: "wal_run crc ops st = Inr (w, d')" "map_of (crash keep d') path = Some ?log"
    "committed ops \<le> n" "n \<le> length ?rs" and tail: "read_record crc tail = Inr None"
  have r: "recover crc None ?log = Inr ?s"
    using replay_tagged [OF assms(2) log(4), of 0]
    by (simp add: recover_def replay_start_def for_each_log [OF tail])
  have c: "rp_engine ?s = run_commands (map record_command (List.take n ?rs)) (matcher_new, [])"
    "rp_replayed ?s = of_nat n" "rp_last_seq ?s = of_nat n" by simp_all
  show ?thesis by (intro exI conjI) (rule log r c)+
qed

theorem log_recovers_witness:
  "\<exists>w d' n log s. wal_run (\<lambda>_. 0) sample_ops sample_log = Inr (w, d') \<and> map_of (crash (\<lambda>_. 17) d') ''a'' = Some log \<and>
    1 \<le> n \<and> n \<le> Suc 1 \<and> recover (\<lambda>_. 0) None log = Inr s \<and>
    rp_engine s = run_commands (map record_command (List.take n [WalNewOrder sample_order, WalCancel 1])) (matcher_new, []) \<and>
    rp_replayed s = of_nat n \<and> rp_last_seq s = of_nat n"
  using log_recovers [OF sample_facts(1), of sample_ops "\<lambda>_. 0" "\<lambda>_. 17"]
  by (simp add: sample_facts)

section \<open>The state hash\<close>

text \<open>The state hash depends only on which orders rest, not on how the book stores them: two
  well-formed books with the same resting orders have the same hash, whatever the hash function.\<close>

theorem state_hash_order_independent:
  assumes "book_inv b" "book_inv b'" "set (iter_resting b) = set (iter_resting b')"
  shows "state_hash hash b = state_hash hash b'"
proof -
  have "distinct (iter_resting c)" if "book_inv c" for c
    using iter_resting_ids_distinct [OF that] by (simp add: distinct_map)
  then have "mset (iter_resting b) = mset (iter_resting b')"
    using assms by (intro set_eq_iff_mset_eq_distinct [THEN iffD1])
  then have "fold (\<lambda>r acc. xor acc (hash_order hash r)) (iter_resting b) = fold (\<lambda>r acc. xor acc (hash_order hash r)) (iter_resting b')"
    by (intro fold_multiset_equiv) (simp_all add: fun_eq_iff ac_simps)
  then show ?thesis by (simp add: state_hash_def)
qed

definition sample_book :: "order_id \<Rightarrow> order_id \<Rightarrow> book" where
  "sample_book i j = snd (book_add j Buy (Price 9) 5 j (snd (book_add i Buy (Price 9) 5 i book_new)))"

theorem state_hash_order_independent_witness:
  "sample_book 1 2 \<noteq> sample_book 2 1 \<and> state_hash (\<lambda>(i, _). i) (sample_book 1 2) = state_hash (\<lambda>(i, _). i) (sample_book 2 1)"
proof
  show "sample_book 1 2 \<noteq> sample_book 2 1" by code_simp
  have "book_inv (sample_book 1 2)" "book_inv (sample_book 2 1)"
    by (simp_all add: sample_book_def inv_intros)
  moreover have "set (iter_resting (sample_book 1 2)) = set (iter_resting (sample_book 2 1))" by code_simp
  ultimately show "state_hash (\<lambda>(i, _). i) (sample_book 1 2) = state_hash (\<lambda>(i, _). i) (sample_book 2 1)"
    by (rule state_hash_order_independent)
qed

end
