(* ===== verification/Spsc.thy ===== *)
theory Spsc
  imports Prelude Machine
begin

unbundle bit_operations_syntax

text \<open>
  The single-producer single-consumer ring of \<^verbatim>\<open>bourse-core/src/spsc.rs\<close>. First the operations as
  functions, one call at a time; then the same operations cut into their atomic accesses, so that
  the producer's and the consumer's steps interleave in every possible way.

  A slot is \<open>None\<close> until it is written (\<open>MaybeUninit::uninit\<close>); reading it before that is undefined
  behaviour in the code and a state of its own in the model. \<open>usize\<close> has 64 bits. The accesses to
  the shared words and slots are interleaved sequentially: what the code needs \<open>Acquire\<close> and
  \<open>Release\<close> for, that a slot written before the tail is published is seen by whoever sees that tail, is
  what this memory gives.
\<close>

section \<open>The queue\<close>

record 'a inner =
  in_tail :: u64
  in_head :: u64
  in_buffer :: "'a option list"
  in_mask :: u64
  in_capacity :: u64

record producer =
  p_cached_head :: u64

record consumer =
  c_cached_tail :: u64

text \<open>\<open>usize::next_power_of_two\<close>, which wraps to 0 beyond \<open>2^63\<close>.\<close>

function pow2_from :: "nat \<Rightarrow> nat \<Rightarrow> nat" where
  "pow2_from p n = (if p = 0 \<or> n \<le> p then p else pow2_from (2 * p) n)"
  by pat_completeness auto
termination
  by (relation "measure (\<lambda>(p, n). n - p)") auto

declare pow2_from.simps [simp del]

definition next_power_of_two :: "u64 \<Rightarrow> u64" where
  "next_power_of_two n = of_nat (pow2_from 1 (unat n))"

definition channel :: "u64 \<Rightarrow> 'a inner \<times> producer \<times> consumer" where
  "channel min_capacity =
     (let capacity = next_power_of_two (max min_capacity 2);
          mask = capacity - 1
      in (\<lparr>in_tail = 0, in_head = 0, in_buffer = replicate (unat capacity) None, in_mask = mask, in_capacity = capacity\<rparr>,
          \<lparr>p_cached_head = 0\<rparr>, \<lparr>c_cached_tail = 0\<rparr>))"

definition ring_capacity :: "'a inner \<Rightarrow> u64" where
  "ring_capacity q = in_capacity q"

definition slot :: "'a inner \<Rightarrow> u64 \<Rightarrow> nat" where
  "slot q i = unat (i AND in_mask q)"

definition write_slot :: "u64 \<Rightarrow> 'a \<Rightarrow> 'a inner \<Rightarrow> 'a inner" where
  "write_slot i v q = q\<lparr>in_buffer := (in_buffer q)[slot q i := Some v]\<rparr>"

definition read_slot :: "u64 \<Rightarrow> 'a inner \<Rightarrow> 'a option" where
  "read_slot i q = in_buffer q ! slot q i"

section \<open>Operations\<close>

definition try_push :: "'a \<Rightarrow> 'a inner \<times> producer \<Rightarrow> ('a + unit) \<times> 'a inner \<times> producer" where
  "try_push v st =
     (let (q, p) = st;
          tail = in_tail q;
          p = (if tail - p_cached_head p \<ge> in_capacity q then p\<lparr>p_cached_head := in_head q\<rparr> else p)
      in if tail - p_cached_head p \<ge> in_capacity q then (Inl v, q, p)
         else (Inr (), (write_slot tail v q)\<lparr>in_tail := tail + 1\<rparr>, p))"

text \<open>The value popped is \<open>None\<close> when the queue is empty; reading an unwritten slot is the error.\<close>

definition try_pop :: "'a inner \<times> consumer \<Rightarrow> unit + ('a option \<times> 'a inner \<times> consumer)" where
  "try_pop st =
     (let (q, c) = st;
          head = in_head q;
          c = (if head = c_cached_tail c then c\<lparr>c_cached_tail := in_tail q\<rparr> else c)
      in if head = c_cached_tail c then Inr (None, q, c)
         else case read_slot head q of
           None \<Rightarrow> Inl ()
         | Some v \<Rightarrow> Inr (Some v, q\<lparr>in_head := head + 1\<rparr>, c))"

text \<open>The loop of \<open>drop\<close>: the values dropped, from the head on.\<close>

function drop_from :: "u64 \<Rightarrow> 'a inner \<Rightarrow> 'a option list" where
  "drop_from h q = (if h = in_tail q then [] else read_slot h q # drop_from (h + 1) q)"
  by pat_completeness auto
termination
proof (relation "measure (\<lambda>(h, q). unat (in_tail q - h))")
  fix h :: u64 and q :: "'a inner"
  assume "h \<noteq> in_tail q"
  then have "unat (in_tail q - h - 1) = unat (in_tail q - h) - 1" "in_tail q - h \<noteq> 0"
    by (simp_all add: unat_minus_one)
  then show "((h + 1, q), (h, q)) \<in> measure (\<lambda>(h, q). unat (in_tail q - h))"
    by (simp add: diff_diff_eq unat_gt_0 flip: diff_diff_add)
qed simp

declare drop_from.simps [simp del]

definition ring_drop :: "'a inner \<Rightarrow> 'a option list" where
  "ring_drop q = drop_from (in_head q) q"

text \<open>A whole channel: what the two halves share and what each owns.\<close>

type_synonym 'a spsc = "'a inner \<times> producer \<times> consumer"

definition spsc_push :: "'a \<Rightarrow> 'a spsc \<Rightarrow> ('a + unit) \<times> 'a spsc" where
  "spsc_push v st = (case st of (q, p, c) \<Rightarrow> case try_push v (q, p) of (r, q', p') \<Rightarrow> (r, q', p', c))"

definition spsc_pop :: "'a spsc \<Rightarrow> unit + ('a option \<times> 'a spsc)" where
  "spsc_pop st = (case st of (q, p, c) \<Rightarrow> try_bind (try_pop (q, c)) (\<lambda>(v, q', c'). Inr (v, q', p, c')))"

section \<open>Interleaved steps\<close>

text \<open>Where each side is in its operation, with its local variables.\<close>

datatype 'a push_pc = PushIdle | PushRefresh 'a u64 | PushWrite 'a u64 | PushPublish 'a u64
datatype 'a pop_pc = PopIdle | PopRefresh u64 | PopRead u64 | PopPublish 'a u64 | PopUndefined

record 'a ring =
  r_inner :: "'a inner"
  r_producer :: producer
  r_consumer :: consumer
  r_push :: "'a push_pc"
  r_pop :: "'a pop_pc"

text \<open>What a step shows: the return of a call with its result, or nothing.\<close>

datatype 'a ring_label = Silent | Pushed 'a | PushFull 'a | Popped 'a | PopEmpty

definition push_start :: "'a \<Rightarrow> 'a ring \<Rightarrow> 'a ring" where
  "push_start v s =
     (let tail = in_tail (r_inner s)
      in s\<lparr>r_push := if tail - p_cached_head (r_producer s) \<ge> in_capacity (r_inner s)
                     then PushRefresh v tail else PushWrite v tail\<rparr>)"

fun push_step :: "'a push_pc \<Rightarrow> 'a ring \<Rightarrow> ('a ring_label \<times> 'a ring) option" where
  "push_step PushIdle s = None"
| "push_step (PushRefresh v tail) s =
     (let head = in_head (r_inner s);
          s = s\<lparr>r_producer := (r_producer s)\<lparr>p_cached_head := head\<rparr>\<rparr>
      in if tail - head \<ge> in_capacity (r_inner s) then Some (PushFull v, s\<lparr>r_push := PushIdle\<rparr>)
         else Some (Silent, s\<lparr>r_push := PushWrite v tail\<rparr>))"
| "push_step (PushWrite v tail) s =
     Some (Silent, s\<lparr>r_inner := write_slot tail v (r_inner s), r_push := PushPublish v tail\<rparr>)"
| "push_step (PushPublish v tail) s =
     Some (Pushed v, s\<lparr>r_inner := (r_inner s)\<lparr>in_tail := tail + 1\<rparr>, r_push := PushIdle\<rparr>)"

definition pop_start :: "'a ring \<Rightarrow> 'a ring" where
  "pop_start s =
     (let head = in_head (r_inner s)
      in s\<lparr>r_pop := if head = c_cached_tail (r_consumer s) then PopRefresh head else PopRead head\<rparr>)"

fun pop_step :: "'a pop_pc \<Rightarrow> 'a ring \<Rightarrow> ('a ring_label \<times> 'a ring) option" where
  "pop_step PopIdle s = None"
| "pop_step (PopRefresh head) s =
     (let tail = in_tail (r_inner s);
          s = s\<lparr>r_consumer := (r_consumer s)\<lparr>c_cached_tail := tail\<rparr>\<rparr>
      in if head = tail then Some (PopEmpty, s\<lparr>r_pop := PopIdle\<rparr>)
         else Some (Silent, s\<lparr>r_pop := PopRead head\<rparr>))"
| "pop_step (PopRead head) s =
     (case read_slot head (r_inner s) of
        None \<Rightarrow> Some (Silent, s\<lparr>r_pop := PopUndefined\<rparr>)
      | Some v \<Rightarrow> Some (Silent, s\<lparr>r_pop := PopPublish v head\<rparr>))"
| "pop_step (PopPublish v head) s =
     Some (Popped v, s\<lparr>r_inner := (r_inner s)\<lparr>in_head := head + 1\<rparr>, r_pop := PopIdle\<rparr>)"
| "pop_step PopUndefined s = None"

inductive ring_step :: "'a ring \<Rightarrow> 'a ring_label \<Rightarrow> 'a ring \<Rightarrow> bool" where
  call_push: "r_push s = PushIdle \<Longrightarrow> ring_step s Silent (push_start v s)"
| push: "push_step (r_push s) s = Some (l, s') \<Longrightarrow> ring_step s l s'"
| call_pop: "r_pop s = PopIdle \<Longrightarrow> ring_step s Silent (pop_start s)"
| pop: "pop_step (r_pop s) s = Some (l, s') \<Longrightarrow> ring_step s l s'"

inductive_cases ring_stepE: "ring_step s l s'"

definition ring_start :: "u64 \<Rightarrow> 'a ring" where
  "ring_start min_capacity =
     (let (q, p, c) = channel min_capacity
      in \<lparr>r_inner = q, r_producer = p, r_consumer = c, r_push = PushIdle, r_pop = PopIdle\<rparr>)"

end
