(* ===== verification/Spsc_Correct.thy ===== *)
theory Spsc_Correct
  imports Spsc
begin

unbundle bit_operations_syntax

text \<open>
  The ring is a bounded first-in first-out queue. Indices run over all 64-bit words and wrap; what
  the proofs use is the distance between two of them. The same facts about one write and one
  publication serve the sequential operations and the interleaved ones.
\<close>

section \<open>Distances and slots\<close>

abbreviation gap :: "u64 \<Rightarrow> u64 \<Rightarrow> nat" where
  "gap a b \<equiv> unat (a - b)"

abbreviation size_of :: "'a inner \<Rightarrow> nat" where
  "size_of q \<equiv> unat (in_capacity q)"

abbreviation count :: "'a inner \<Rightarrow> nat" where
  "count q \<equiv> gap (in_tail q) (in_head q)"

definition shape :: "'a inner \<Rightarrow> bool" where
  "shape q \<longleftrightarrow> (\<exists>k. 1 \<le> k \<and> k \<le> 63 \<and> size_of q = 2 ^ k) \<and> in_mask q = in_capacity q - 1 \<and>
     length (in_buffer q) = size_of q"

lemma shapeD:
  assumes "shape q"
  shows "2 \<le> size_of q" "size_of q dvd 2 ^ 64" "size_of q \<le> 2 ^ 63" "length (in_buffer q) = size_of q"
proof -
  obtain k where k: "1 \<le> k" "k \<le> 63" "size_of q = 2 ^ k" using assms by (auto simp: shape_def)
  show "2 \<le> size_of q" using power_increasing [of 1 k "2 :: nat"] k by simp
  show "size_of q dvd 2 ^ 64" unfolding k(3) by (rule le_imp_power_dvd) (use k in simp)
  show "size_of q \<le> 2 ^ 63" unfolding k(3) by (rule power_increasing) (use k in simp_all)
  show "length (in_buffer q) = size_of q" using assms by (simp add: shape_def)
qed

lemma and_mask_mod:
  fixes c i :: u64
  assumes "unat c = 2 ^ k" "k \<le> 63"
  shows "unat (i AND (c - 1)) = unat i mod unat c"
proof -
  have "(2 :: nat) ^ k < 2 ^ 64" using assms(2) by (intro power_strict_increasing) simp_all
  then have "unat (2 ^ k :: u64) = 2 ^ k" using unat_of_nat [where 'a = 64, of "2 ^ k"] by simp
  then have "c = 2 ^ k" using assms(1) by (metis word_unat_eq_iff)
  then have "unat (i AND (c - 1)) = unat (take_bit k i)" by (simp add: take_bit_eq_mask mask_eq_exp_minus_1)
  also have "\<dots> = take_bit k (unat i)" by (rule unsigned_take_bit_eq)
  finally show ?thesis by (simp add: take_bit_eq_mod assms(1))
qed

lemma slot_mod: "shape q \<Longrightarrow> slot q i = unat i mod size_of q"
  using and_mask_mod [of "in_capacity q" _ i] by (auto simp: shape_def slot_def)

lemma slot_less: "shape q \<Longrightarrow> slot q i < size_of q"
  using shapeD(1) [of q] by (simp add: slot_mod)

lemma slot_add: "shape q \<Longrightarrow> slot q (h + of_nat a) = (unat h + a) mod size_of q"
  using shapeD(2) [of q]
  by (simp add: slot_mod unat_word_ariths unat_of_nat mod_mod_cancel mod_simps)

lemma mod_add_inj:
  assumes "a < n" "b < (n :: nat)" "(h + a) mod n = (h + b) mod n"
  shows "a = b"
proof -
  have "x = y" if "x \<le> y" "y < n" "(h + x) mod n = (h + y) mod n" for x y
  proof -
    have "n dvd y - x" using that mod_eq_dvd_iff_nat [of "h + x" "h + y" n] by simp
    then have "y - x = 0" using that(2) by (metis less_imp_diff_less nat_dvd_not_less neq0_conv)
    with that(1) show ?thesis by simp
  qed
  with assms show ?thesis by (metis nat_le_linear)
qed

lemma slot_add_inj:
  "shape q \<Longrightarrow> a < size_of q \<Longrightarrow> b < size_of q \<Longrightarrow> slot q (h + of_nat a) = slot q (h + of_nat b) \<longleftrightarrow> a = b"
  using mod_add_inj [of a "size_of q" b "unat h"] by (auto simp: slot_add)

section \<open>What the ring holds\<close>

definition held :: "'a inner \<Rightarrow> 'a option list" where
  "held q = map (\<lambda>k. read_slot (in_head q + of_nat k) q) [0..<count q]"

definition contents :: "'a inner \<Rightarrow> 'a list" where
  "contents q = map the (held q)"

definition ring_ok :: "'a inner \<Rightarrow> bool" where
  "ring_ok q \<longleftrightarrow> shape q \<and> count q \<le> size_of q \<and> None \<notin> set (held q)"

lemma length_held [simp]: "length (held q) = count q"
  by (simp add: held_def)

lemma length_contents [simp]: "length (contents q) = count q"
  by (simp add: contents_def)

lemma ring_okD: "ring_ok q \<Longrightarrow> shape q" "ring_ok q \<Longrightarrow> count q \<le> size_of q" "ring_ok q \<Longrightarrow> None \<notin> set (held q)"
  by (simp_all add: ring_ok_def)

lemma held_contents: "ring_ok q \<Longrightarrow> held q = map Some (contents q)"
  by (auto simp: contents_def ring_ok_def intro!: nth_equalityI) (metis length_held nth_mem option.exhaust_sel)

lemma gap_Suc: "gap a b < 2 ^ 64 - 1 \<Longrightarrow> gap (a + 1) b = Suc (gap a b)"
proof -
  assume "gap a b < 2 ^ 64 - 1"
  moreover have "a + 1 - b = (a - b) + 1" by simp
  ultimately show ?thesis by (simp only: unat_word_ariths) simp
qed

lemma gap_Suc_right: "a \<noteq> b \<Longrightarrow> Suc (gap a (b + 1)) = gap a b"
proof -
  assume "a \<noteq> b"
  then have "a - b \<noteq> 0" "a - (b + 1) = (a - b) - 1" by simp_all
  then show ?thesis using unat_minus_one [of "a - b"] unat_gt_0 [of "a - b"] by (simp add: diff_diff_eq)
qed

lemma gap_0 [simp]: "gap a b = 0 \<longleftrightarrow> a = b"
  by (simp add: unat_eq_zero)

lemma tail_eq: "in_head q + of_nat (count q) = in_tail q"
  by simp

lemma ring_update_simps [simp]:
  "slot (q\<lparr>in_tail := t\<rparr>) i = slot q i" "slot (q\<lparr>in_head := h\<rparr>) i = slot q i"
  "read_slot i (q\<lparr>in_tail := t\<rparr>) = read_slot i q" "read_slot i (q\<lparr>in_head := h\<rparr>) = read_slot i q"
  "shape (q\<lparr>in_tail := t\<rparr>) = shape q" "shape (q\<lparr>in_head := h\<rparr>) = shape q"
  by (simp_all add: slot_def read_slot_def shape_def)

lemma write_slot_simps [simp]:
  "in_tail (write_slot i v q) = in_tail q" "in_head (write_slot i v q) = in_head q"
  "in_capacity (write_slot i v q) = in_capacity q" "in_mask (write_slot i v q) = in_mask q"
  "slot (write_slot i v q) j = slot q j" "shape (write_slot i v q) = shape q"
  by (simp_all add: write_slot_def slot_def shape_def)

lemma read_write_slot:
  "shape q \<Longrightarrow> read_slot i (write_slot j v q) = (if slot q i = slot q j then Some v else read_slot i q)"
  using slot_less [of q j] shapeD(4) [of q] by (simp add: read_slot_def) (simp add: write_slot_def nth_list_update)

text \<open>Writing the slot at the tail touches nothing the ring holds.\<close>

lemma held_write:
  assumes "ring_ok q" "count q < size_of q"
  shows "held (write_slot (in_tail q) v q) = held q"
proof -
  have "slot q (in_head q + of_nat k) \<noteq> slot q (in_tail q)" if "k < count q" for k
    using slot_add_inj [OF ring_okD(1) [OF assms(1)], of k "count q" "in_head q"] assms that by simp
  then show ?thesis by (simp add: held_def read_write_slot [OF ring_okD(1) [OF assms(1)]])
qed

lemma ring_ok_write:
  "ring_ok q \<Longrightarrow> count q < size_of q \<Longrightarrow> ring_ok (write_slot (in_tail q) v q)"
  using held_write [of q v] by (simp add: ring_ok_def)

lemma gap_within: "ring_ok q \<Longrightarrow> n < size_of q \<Longrightarrow> n < 2 ^ 64 - 1"
  using shapeD(3) [OF ring_okD(1)] by fastforce

lemma count_publish: "ring_ok q \<Longrightarrow> count q < size_of q \<Longrightarrow> gap (in_tail q + 1) (in_head q) = Suc (count q)"
  by (intro gap_Suc gap_within)

lemma held_publish:
  "ring_ok q \<Longrightarrow> count q < size_of q \<Longrightarrow> held (q\<lparr>in_tail := in_tail q + 1\<rparr>) = held q @ [read_slot (in_tail q) q]"
  by (simp add: held_def count_publish)

lemma ring_ok_publish:
  assumes "ring_ok q" "count q < size_of q" "read_slot (in_tail q) q = Some v"
  shows "ring_ok (q\<lparr>in_tail := in_tail q + 1\<rparr>)" "contents (q\<lparr>in_tail := in_tail q + 1\<rparr>) = contents q @ [v]"
proof -
  note h = held_publish [OF assms(1,2)]
  show "contents (q\<lparr>in_tail := in_tail q + 1\<rparr>) = contents q @ [v]"
    by (simp add: contents_def h assms(3))
  show "ring_ok (q\<lparr>in_tail := in_tail q + 1\<rparr>)"
    using assms count_publish [OF assms(1,2)] by (simp add: ring_ok_def h)
qed

lemma held_advance:
  assumes "in_head q \<noteq> in_tail q"
  shows "held q = read_slot (in_head q) q # held (q\<lparr>in_head := in_head q + 1\<rparr>)"
proof -
  have "count q = Suc (gap (in_tail q) (in_head q + 1))"
    using gap_Suc_right [of "in_tail q" "in_head q"] assms by simp
  then have "held q = map (\<lambda>k. read_slot (in_head q + of_nat k) q) (0 # map Suc [0..<gap (in_tail q) (in_head q + 1)])"
    by (simp only: held_def upt_conv_Cons [of 0 "Suc _"] map_Suc_upt zero_less_Suc)
  then show ?thesis by (simp add: held_def comp_def ac_simps)
qed

lemma ring_ok_advance:
  assumes "ring_ok q" "in_head q \<noteq> in_tail q"
  obtains v where "read_slot (in_head q) q = Some v" "ring_ok (q\<lparr>in_head := in_head q + 1\<rparr>)"
    "contents q = v # contents (q\<lparr>in_head := in_head q + 1\<rparr>)"
proof -
  note h = held_advance [OF assms(2)]
  obtain v where v: "read_slot (in_head q) q = Some v"
    using ring_okD(3) [OF assms(1)] h by (cases "read_slot (in_head q) q") auto
  moreover have "ring_ok (q\<lparr>in_head := in_head q + 1\<rparr>)"
    using assms(1) h gap_Suc_right [OF assms(2) [symmetric]] by (simp add: ring_ok_def)
  ultimately show thesis using h by (intro that) (simp_all add: contents_def)
qed

section \<open>The cached indices\<close>

text \<open>The producer's copy of the head lags behind the head by no more than the free room, and the
  consumer's copy of the tail lies between head and tail.\<close>

definition lags :: "producer \<Rightarrow> 'a inner \<Rightarrow> bool" where
  "lags p q \<longleftrightarrow> gap (in_tail q) (p_cached_head p) = count q + gap (in_head q) (p_cached_head p) \<and>
     gap (in_tail q) (p_cached_head p) \<le> size_of q"

definition within :: "consumer \<Rightarrow> 'a inner \<Rightarrow> bool" where
  "within c q \<longleftrightarrow> gap (c_cached_tail c) (in_head q) \<le> count q"

lemma lags_refresh: "ring_ok q \<Longrightarrow> lags (p\<lparr>p_cached_head := in_head q\<rparr>) q"
  by (simp add: lags_def ring_okD)

lemma within_refresh: "within (c\<lparr>c_cached_tail := in_tail q\<rparr>) q"
  by (simp add: within_def)

lemma lags_room: "lags p q \<Longrightarrow> gap (in_tail q) (p_cached_head p) < size_of q \<Longrightarrow> count q < size_of q"
  by (simp add: lags_def)

lemma within_nonempty: "within c q \<Longrightarrow> in_head q \<noteq> c_cached_tail c \<Longrightarrow> in_head q \<noteq> in_tail q"
  by (auto simp: within_def)

lemma lags_write [simp]: "lags p (write_slot i v q) = lags p q"
  by (simp add: lags_def)

lemma within_write [simp]: "within c (write_slot i v q) = within c q"
  by (simp add: within_def)

lemma lags_publish:
  assumes "ring_ok q" "lags p q" "gap (in_tail q) (p_cached_head p) < size_of q"
  shows "lags p (q\<lparr>in_tail := in_tail q + 1\<rparr>)"
  using assms count_publish [OF assms(1) lags_room [OF assms(2,3)]] gap_Suc [OF gap_within [OF assms(1,3)]]
  by (simp add: lags_def)

lemma within_publish:
  "ring_ok q \<Longrightarrow> count q < size_of q \<Longrightarrow> within c q \<Longrightarrow> within c (q\<lparr>in_tail := in_tail q + 1\<rparr>)"
  using count_publish [of q] by (simp add: within_def)

lemma lags_advance:
  assumes "ring_ok q" "lags p q" "in_head q \<noteq> in_tail q"
  shows "lags p (q\<lparr>in_head := in_head q + 1\<rparr>)"
proof -
  have "Suc (gap (in_tail q) (in_head q + 1)) = count q" using assms(3) by (intro gap_Suc_right) simp
  moreover from this have "gap (in_head q) (p_cached_head p) < size_of q" using assms(2) by (simp add: lags_def)
  then have "gap (in_head q + 1) (p_cached_head p) = Suc (gap (in_head q) (p_cached_head p))"
    by (intro gap_Suc gap_within [OF assms(1)])
  ultimately show ?thesis using assms(2) by (simp add: lags_def)
qed

lemma within_advance:
  assumes "within c q" "in_head q \<noteq> c_cached_tail c"
  shows "within c (q\<lparr>in_head := in_head q + 1\<rparr>)"
  using assms gap_Suc_right [of "in_tail q" "in_head q"] gap_Suc_right [of "c_cached_tail c" "in_head q"]
    within_nonempty [OF assms] by (simp add: within_def)

section \<open>A bounded queue\<close>

text \<open>What a client of a bounded queue relies on.\<close>

locale bounded_queue =
  fixes inv :: "'q \<Rightarrow> bool"
    and items :: "'q \<Rightarrow> 'a list"
    and cap :: "'q \<Rightarrow> nat"
    and push :: "'a \<Rightarrow> 'q \<Rightarrow> ('a + unit) \<times> 'q"
    and pop :: "'q \<Rightarrow> 'e + ('a option \<times> 'q)"
  assumes bounded: "inv q \<Longrightarrow> length (items q) \<le> cap q"
    and push_room: "inv q \<Longrightarrow> length (items q) < cap q \<Longrightarrow>
      \<exists>q'. push v q = (Inr (), q') \<and> inv q' \<and> items q' = items q @ [v] \<and> cap q' = cap q"
    and push_full: "inv q \<Longrightarrow> length (items q) = cap q \<Longrightarrow>
      \<exists>q'. push v q = (Inl v, q') \<and> inv q' \<and> items q' = items q \<and> cap q' = cap q"
    and pop_some: "inv q \<Longrightarrow> items q = v # vs \<Longrightarrow> \<exists>q'. pop q = Inr (Some v, q') \<and> inv q' \<and> items q' = vs \<and> cap q' = cap q"
    and pop_none: "inv q \<Longrightarrow> items q = [] \<Longrightarrow> \<exists>q'. pop q = Inr (None, q') \<and> inv q' \<and> items q' = [] \<and> cap q' = cap q"
begin

lemma push_cases:
  assumes "inv q"
  obtains (Room) q' where "push v q = (Inr (), q')" "inv q'" "items q' = items q @ [v]" "cap q' = cap q" "length (items q) < cap q"
  | (Full) q' where "push v q = (Inl v, q')" "inv q'" "items q' = items q" "cap q' = cap q" "length (items q) = cap q"
  using bounded [OF assms] push_room [OF assms, of v] push_full [OF assms, of v] by (metis le_neq_implies_less)

lemma pop_cases:
  assumes "inv q"
  obtains (Some) v q' where "pop q = Inr (Some v, q')" "inv q'" "items q = v # items q'" "cap q' = cap q"
  | (None) q' where "pop q = Inr (None, q')" "inv q'" "items q = []" "items q' = []" "cap q' = cap q"
  using pop_some [OF assms] pop_none [OF assms] by (cases "items q") blast+

end

section \<open>The operations, one call at a time\<close>

definition spsc_inv :: "'a spsc \<Rightarrow> bool" where
  "spsc_inv st \<longleftrightarrow> (case st of (q, p, c) \<Rightarrow> ring_ok q \<and> lags p q \<and> within c q)"

definition spsc_items :: "'a spsc \<Rightarrow> 'a list" where
  "spsc_items st = contents (fst st)"

definition spsc_cap :: "'a spsc \<Rightarrow> nat" where
  "spsc_cap st = size_of (fst st)"

text \<open>A push that finds room, wherever it learnt of it, and a pop that finds a value.\<close>

lemma push_finishes:
  fixes q :: "'a inner" and v :: 'a
  assumes "ring_ok q" "lags p q" "within c q" "gap (in_tail q) (p_cached_head p) < size_of q"
  defines "q' \<equiv> (write_slot (in_tail q) v q)\<lparr>in_tail := in_tail q + 1\<rparr>"
  shows "spsc_inv (q', p, c)" "contents q' = contents q @ [v]" "size_of q' = size_of q"
proof -
  let ?w = "write_slot (in_tail q) v q"
  have room: "count q < size_of q" using assms(2,4) by (rule lags_room)
  have w: "ring_ok ?w" "held ?w = held q" using assms(1) room by (auto intro: ring_ok_write held_write)
  have v: "read_slot (in_tail ?w) ?w = Some v" using read_write_slot [OF ring_okD(1) [OF assms(1)]] by simp
  have "ring_ok q'" "contents q' = contents ?w @ [v]"
    using ring_ok_publish [OF w(1) _ v] room by (simp_all add: q'_def)
  moreover have "lags p q'" "within c q'"
    using lags_publish [OF w(1), of p] within_publish [OF w(1), of c] assms(2-4) room by (simp_all add: q'_def)
  ultimately show "spsc_inv (q', p, c)" "contents q' = contents q @ [v]" "size_of q' = size_of q"
    by (simp_all add: spsc_inv_def contents_def w(2)) (simp add: q'_def)
qed

lemma spsc_push_eq:
  assumes "spsc_inv (q, p, c)"
  obtains p' where "lags p' q" "gap (in_tail q) (p_cached_head p') < size_of q \<longleftrightarrow> count q < size_of q"
    "spsc_push v (q, p, c) = (if count q < size_of q
       then (Inr (), (write_slot (in_tail q) v q)\<lparr>in_tail := in_tail q + 1\<rparr>, p', c) else (Inl v, q, p', c))"
proof -
  let ?p = "if in_capacity q \<le> in_tail q - p_cached_head p then p\<lparr>p_cached_head := in_head q\<rparr> else p"
  have inv: "ring_ok q" "lags p q" using assms by (simp_all add: spsc_inv_def)
  show thesis
  proof (rule that [of ?p])
    show "lags ?p q" using inv by (simp add: lags_refresh)
    show iff: "gap (in_tail q) (p_cached_head ?p) < size_of q \<longleftrightarrow> count q < size_of q"
      using inv(2) lags_room [of p q] by (auto simp: word_le_nat_alt not_le)
    show "spsc_push v (q, p, c) = (if count q < size_of q
       then (Inr (), (write_slot (in_tail q) v q)\<lparr>in_tail := in_tail q + 1\<rparr>, ?p, c) else (Inl v, q, ?p, c))"
      using iff by (auto simp: spsc_push_def try_push_def Let_def word_le_nat_alt)
  qed
qed

lemma spsc_pop_eq:
  assumes "spsc_inv (q, p, c)"
  shows "\<exists>c'. within c' q \<and> (in_head q = c_cached_tail c' \<longleftrightarrow> in_head q = in_tail q) \<and>
    spsc_pop (q, p, c) = (if in_head q = in_tail q then Inr (None, q, p, c')
      else case read_slot (in_head q) q of None \<Rightarrow> Inl () | Some v \<Rightarrow> Inr (Some v, q\<lparr>in_head := in_head q + 1\<rparr>, p, c'))"
proof -
  let ?c = "if in_head q = c_cached_tail c then c\<lparr>c_cached_tail := in_tail q\<rparr> else c"
  have "within c q" using assms by (simp add: spsc_inv_def)
  then show ?thesis
    using within_nonempty [of c q]
    by (intro exI [of _ ?c])
      (auto simp: spsc_pop_def try_pop_def Let_def within_refresh split: option.split)
qed

interpretation ring: bounded_queue spsc_inv spsc_items spsc_cap spsc_push spsc_pop
proof unfold_locales
  fix st :: "'a spsc" and v :: 'a and vs
  assume inv: "spsc_inv st"
  obtain q p c where st: "st = (q, p, c)" by (cases st)
  note ok = inv [unfolded st spsc_inv_def, simplified]
  show "length (spsc_items st) \<le> spsc_cap st" using ok by (simp add: st spsc_items_def spsc_cap_def ring_okD)
  show "\<exists>st'. spsc_push v st = (Inr (), st') \<and> spsc_inv st' \<and> spsc_items st' = spsc_items st @ [v] \<and> spsc_cap st' = spsc_cap st"
    if "length (spsc_items st) < spsc_cap st"
    using spsc_push_eq [OF inv [unfolded st], of v] that push_finishes [of q _ c v] ok
    by (fastforce simp: st spsc_items_def spsc_cap_def)
  show "\<exists>st'. spsc_push v st = (Inl v, st') \<and> spsc_inv st' \<and> spsc_items st' = spsc_items st \<and> spsc_cap st' = spsc_cap st"
    if "length (spsc_items st) = spsc_cap st"
    using spsc_push_eq [OF inv [unfolded st], of v] that ok
    by (fastforce simp: st spsc_items_def spsc_cap_def spsc_inv_def)
  show "\<exists>st'. spsc_pop st = Inr (Some v, st') \<and> spsc_inv st' \<and> spsc_items st' = vs \<and> spsc_cap st' = spsc_cap st"
    if items: "spsc_items st = v # vs"
  proof -
    have ne: "in_head q \<noteq> in_tail q" using items by (auto simp: st spsc_items_def contents_def held_def)
    obtain w where "read_slot (in_head q) q = Some w" "ring_ok (q\<lparr>in_head := in_head q + 1\<rparr>)"
        "contents q = w # contents (q\<lparr>in_head := in_head q + 1\<rparr>)"
      using ok ne by (auto elim: ring_ok_advance)
    with spsc_pop_eq [OF inv [unfolded st]] items ne ok show ?thesis
      by (auto simp: st spsc_items_def spsc_cap_def spsc_inv_def intro: lags_advance within_advance)
  qed
  show "\<exists>st'. spsc_pop st = Inr (None, st') \<and> spsc_inv st' \<and> spsc_items st' = [] \<and> spsc_cap st' = spsc_cap st"
    if "spsc_items st = []"
    using spsc_pop_eq [OF inv [unfolded st]] that ok
    by (auto simp: st spsc_items_def spsc_cap_def spsc_inv_def contents_def held_def)
qed

section \<open>Producer and consumer interleaved\<close>

definition push_ok :: "'a push_pc \<Rightarrow> producer \<Rightarrow> 'a inner \<Rightarrow> bool" where
  "push_ok pc p q \<longleftrightarrow>
     (case pc of
        PushIdle \<Rightarrow> True
      | PushRefresh v t \<Rightarrow> t = in_tail q
      | PushWrite v t \<Rightarrow> t = in_tail q \<and> gap (in_tail q) (p_cached_head p) < size_of q
      | PushPublish v t \<Rightarrow> t = in_tail q \<and> gap (in_tail q) (p_cached_head p) < size_of q \<and> read_slot t q = Some v)"

definition pop_ok :: "'a pop_pc \<Rightarrow> consumer \<Rightarrow> 'a inner \<Rightarrow> bool" where
  "pop_ok pc c q \<longleftrightarrow>
     (case pc of
        PopIdle \<Rightarrow> True
      | PopRefresh h \<Rightarrow> h = in_head q
      | PopRead h \<Rightarrow> h = in_head q \<and> h \<noteq> c_cached_tail c
      | PopPublish v h \<Rightarrow> h = in_head q \<and> h \<noteq> c_cached_tail c \<and> read_slot h q = Some v
      | PopUndefined \<Rightarrow> False)"

definition ring_inv :: "'a ring \<Rightarrow> bool" where
  "ring_inv s \<longleftrightarrow> spsc_inv (r_inner s, r_producer s, r_consumer s) \<and>
     push_ok (r_push s) (r_producer s) (r_inner s) \<and> pop_ok (r_pop s) (r_consumer s) (r_inner s)"

definition ring_items :: "'a ring \<Rightarrow> 'a list" where
  "ring_items s = contents (r_inner s)"

text \<open>The specification: an atomic queue of \<open>n\<close> places whose calls return as the labels say.\<close>

fun queue_step :: "nat \<Rightarrow> 'a list \<Rightarrow> 'a ring_label \<Rightarrow> 'a list \<Rightarrow> bool" where
  "queue_step n q Silent q' \<longleftrightarrow> q' = q"
| "queue_step n q (Pushed v) q' \<longleftrightarrow> length q < n \<and> q' = q @ [v]"
| "queue_step n q (PushFull v) q' \<longleftrightarrow> length q = n \<and> q' = q"
| "queue_step n q (Popped v) q' \<longleftrightarrow> q = v # q'"
| "queue_step n q PopEmpty q' \<longleftrightarrow> q = [] \<and> q' = []"

text \<open>The head slot is not the one a push in progress writes.\<close>

lemma head_tail_slots:
  assumes "ring_ok q" "count q < size_of q" "in_head q \<noteq> in_tail q"
  shows "slot q (in_head q) \<noteq> slot q (in_tail q)"
  using slot_add_inj [OF ring_okD(1) [OF assms(1)], of 0 "count q" "in_head q"] assms by auto

lemma ring_push_step:
  assumes "ring_inv s" "push_step (r_push s) s = Some (l, s')"
  shows "ring_inv s' \<and> size_of (r_inner s') = size_of (r_inner s) \<and>
    queue_step (size_of (r_inner s)) (ring_items s) l (ring_items s')"
proof -
  obtain q p c where s: "r_inner s = q" "r_producer s = p" "r_consumer s = c" by blast
  have inv: "ring_ok q" "lags p q" "within c q" "push_ok (r_push s) p q" "pop_ok (r_pop s) c q"
    using assms(1) s by (simp_all add: ring_inv_def spsc_inv_def)
  show ?thesis
  proof (cases "r_push s")
    case PushIdle
    with assms(2) show ?thesis by simp
  next
    case (PushRefresh v t)
    moreover have "count q = size_of q" if "\<not> count q < size_of q" using that ring_okD(2) [OF inv(1)] by simp
    ultimately show ?thesis
      using assms(2) inv s lags_refresh [OF inv(1), of p]
      by (auto simp: ring_inv_def spsc_inv_def push_ok_def ring_items_def Let_def word_le_nat_alt split: if_splits)
  next
    case (PushWrite v t)
    then have t: "t = in_tail q" "gap (in_tail q) (p_cached_head p) < size_of q" using inv(4) by (simp_all add: push_ok_def)
    have room: "count q < size_of q" using lags_room [OF inv(2) t(2)] .
    note w = ring_ok_write [OF inv(1) room, of v] held_write [OF inv(1) room, of v] read_write_slot [OF ring_okD(1) [OF inv(1)]]
    have "pop_ok (r_pop s) c (write_slot t v q)"
      using inv(5) head_tail_slots [OF inv(1) room] within_nonempty [OF inv(3)] t
      by (auto simp: pop_ok_def w(3) split: pop_pc.splits)
    then show ?thesis
      using assms(2) inv s t PushWrite w
      by (auto simp: ring_inv_def spsc_inv_def push_ok_def ring_items_def contents_def)
  next
    case (PushPublish v t)
    then have t: "t = in_tail q" "gap (in_tail q) (p_cached_head p) < size_of q" "read_slot (in_tail q) q = Some v"
      using inv(4) by (auto simp: push_ok_def)
    have room: "count q < size_of q" using lags_room [OF inv(2) t(2)] .
    have "pop_ok (r_pop s) c (q\<lparr>in_tail := in_tail q + 1\<rparr>)"
      using inv(5) by (auto simp: pop_ok_def split: pop_pc.splits)
    then show ?thesis
      using assms(2) inv s t PushPublish room ring_ok_publish [OF inv(1) room t(3)] lags_publish [OF inv(1,2) t(2)]
        within_publish [OF inv(1) room inv(3)]
      by (auto simp: ring_inv_def spsc_inv_def push_ok_def ring_items_def)
  qed
qed

lemma ring_pop_step:
  assumes "ring_inv s" "pop_step (r_pop s) s = Some (l, s')"
  shows "ring_inv s' \<and> size_of (r_inner s') = size_of (r_inner s) \<and>
    queue_step (size_of (r_inner s)) (ring_items s) l (ring_items s')"
proof -
  obtain q p c where s: "r_inner s = q" "r_producer s = p" "r_consumer s = c" by blast
  have inv: "ring_ok q" "lags p q" "within c q" "push_ok (r_push s) p q" "pop_ok (r_pop s) c q"
    using assms(1) s by (simp_all add: ring_inv_def spsc_inv_def)
  show ?thesis
  proof (cases "r_pop s")
    case (PopRefresh h)
    then show ?thesis
      using assms(2) inv s within_refresh [where c = c and q = q]
      by (auto simp: ring_inv_def spsc_inv_def pop_ok_def ring_items_def Let_def contents_def held_def split: if_splits)
  next
    case (PopRead h)
    then have h: "h = in_head q" "in_head q \<noteq> c_cached_tail c" using inv(5) by (auto simp: pop_ok_def)
    obtain v where "read_slot (in_head q) q = Some v"
      using ring_ok_advance [OF inv(1) within_nonempty [OF inv(3) h(2)]] by blast
    then show ?thesis
      using assms(2) inv s h PopRead by (auto simp: ring_inv_def spsc_inv_def pop_ok_def ring_items_def)
  next
    case (PopPublish v h)
    then have h: "h = in_head q" "in_head q \<noteq> c_cached_tail c" "read_slot (in_head q) q = Some v"
      using inv(5) by (auto simp: pop_ok_def)
    note ne = within_nonempty [OF inv(3) h(2)]
    obtain w where w: "read_slot (in_head q) q = Some w" "ring_ok (q\<lparr>in_head := in_head q + 1\<rparr>)"
      "contents q = w # contents (q\<lparr>in_head := in_head q + 1\<rparr>)"
      by (rule ring_ok_advance [OF inv(1) ne])
    have "push_ok (r_push s) p (q\<lparr>in_head := in_head q + 1\<rparr>)"
      using inv(4) by (auto simp: push_ok_def split: push_pc.splits)
    then show ?thesis
      using assms(2) inv s h PopPublish w lags_advance [OF inv(1,2) ne] within_advance [OF inv(3) h(2)]
      by (auto simp: ring_inv_def spsc_inv_def pop_ok_def ring_items_def)
  qed (use assms(2) in simp_all)
qed

lemma ring_call:
  assumes "ring_inv s"
  shows "r_push s = PushIdle \<Longrightarrow> ring_inv (push_start v s)" "r_pop s = PopIdle \<Longrightarrow> ring_inv (pop_start s)"
  using assms
  by (auto simp: ring_inv_def push_start_def pop_start_def push_ok_def pop_ok_def Let_def word_le_nat_alt not_le)

text \<open>The size of the ring never changes, so it can be a parameter of the specification.\<close>

definition sized_inv :: "nat \<Rightarrow> 'a ring \<Rightarrow> bool" where
  "sized_inv n s \<longleftrightarrow> ring_inv s \<and> size_of (r_inner s) = n"

lemma sized_step:
  assumes "sized_inv n s" "ring_step s l s'"
  shows "sized_inv n s' \<and> queue_step n (ring_items s) l (ring_items s')"
  using assms(2)
proof cases
  case (call_push v)
  with assms(1) ring_call(1) [of s v] show ?thesis
    by (auto simp: sized_inv_def push_start_def ring_items_def Let_def)
next
  case push
  with assms(1) ring_push_step [of s l s'] show ?thesis by (simp add: sized_inv_def)
next
  case call_pop
  with assms(1) ring_call(2) [of s] show ?thesis
    by (auto simp: sized_inv_def pop_start_def ring_items_def Let_def)
next
  case pop
  with assms(1) ring_pop_step [of s l s'] show ?thesis by (simp add: sized_inv_def)
qed

interpretation rs: step_simulation ring_step "sized_inv n" "queue_step n" ring_items for n
  by unfold_locales (simp_all add: sized_step)

section \<open>A fresh ring\<close>

lemma pow2_from_bounds:
  assumes "0 < p"
  shows "\<exists>k. pow2_from p n = p * 2 ^ k \<and> n \<le> p * 2 ^ k \<and> (k = 0 \<or> p * 2 ^ k < 2 * n)"
  using assms
proof (induction p n rule: pow2_from.induct)
  case (1 p n)
  show ?case
  proof (cases "n \<le> p")
    case True
    then show ?thesis by (intro exI [of _ 0]) (simp add: pow2_from.simps)
  next
    case False
    obtain k where k: "pow2_from (2 * p) n = 2 * p * 2 ^ k" "n \<le> 2 * p * 2 ^ k" "k = 0 \<or> 2 * p * 2 ^ k < 2 * n"
      using 1 False by auto
    have "2 * p * 2 ^ k < 2 * n" using k(3) False by auto
    with k(1,2) False \<open>0 < p\<close> show ?thesis
      by (intro exI [of _ "Suc k"]) (subst pow2_from.simps, simp add: ac_simps)
  qed
qed

lemma channel_capacity:
  assumes "unat n \<le> 2 ^ 63"
  obtains k where "1 \<le> k" "k \<le> 63" "unat (next_power_of_two (max n 2)) = 2 ^ k" "unat n \<le> 2 ^ k" "2 ^ k < 2 * max (unat n) 2"
proof -
  have m: "unat (max n 2) = max (unat n) 2" by (simp add: max_def word_le_nat_alt)
  obtain k where k: "pow2_from 1 (max (unat n) 2) = 2 ^ k" "max (unat n) 2 \<le> 2 ^ k" "k = 0 \<or> 2 ^ k < 2 * max (unat n) 2"
    using pow2_from_bounds [of 1 "max (unat n) 2"] by auto
  have "k \<noteq> 0" using k(2) by (auto intro: ccontr)
  moreover have "(2 :: nat) ^ k < 2 ^ 64" using k(3) \<open>k \<noteq> 0\<close> assms by (simp add: max_def split: if_splits)
  then have "k \<le> 63" using power_less_imp_less_exp [of "2 :: nat" k 64] by simp
  moreover from \<open>(2 :: nat) ^ k < 2 ^ 64\<close> have "unat (next_power_of_two (max n 2)) = 2 ^ k"
    using unat_of_nat [where 'a = 64, of "2 ^ k"] k(1) by (simp add: next_power_of_two_def m)
  ultimately show thesis using k(2,3) by (intro that [of k]) auto
qed

lemma channel_inv:
  assumes "unat n \<le> 2 ^ 63"
  shows "spsc_inv (channel n)" "spsc_items (channel n) = []" "spsc_cap (channel n) = unat (next_power_of_two (max n 2))"
proof -
  obtain k where k: "1 \<le> k" "k \<le> 63" "unat (next_power_of_two (max n 2)) = 2 ^ k"
    using channel_capacity [OF assms] by metis
  then show "spsc_inv (channel n)"
    by (auto simp: channel_def Let_def spsc_inv_def ring_ok_def shape_def lags_def within_def held_def)
  show "spsc_items (channel n) = []" "spsc_cap (channel n) = unat (next_power_of_two (max n 2))"
    by (simp_all add: channel_def Let_def spsc_items_def spsc_cap_def contents_def held_def)
qed

lemma ring_start_inv:
  "unat n \<le> 2 ^ 63 \<Longrightarrow> sized_inv (unat (next_power_of_two (max n 2))) (ring_start n)"
  "ring_items (ring_start n) = []"
  using channel_inv(1,3) [of n]
  by (auto simp: sized_inv_def ring_inv_def ring_start_def channel_def Let_def push_ok_def pop_ok_def spsc_cap_def
      ring_items_def contents_def held_def)

section \<open>A sample run\<close>

text \<open>A push of 7, then a pop about to read its slot while a push of 8 is about to write the next.\<close>

definition sr1 :: "nat ring" where "sr1 = push_start 7 (ring_start 2)"
definition sr2 :: "nat ring" where "sr2 = snd (the (push_step (r_push sr1) sr1))"
definition sr3 :: "nat ring" where "sr3 = snd (the (push_step (r_push sr2) sr2))"
definition sr4 :: "nat ring" where "sr4 = pop_start sr3"
definition sr5 :: "nat ring" where "sr5 = snd (the (pop_step (r_pop sr4) sr4))"
definition sr6 :: "nat ring" where "sr6 = push_start 8 sr5"

lemma sample_ring_steps: "steps ring_step (ring_start 2) [Silent, Silent, Pushed 7, Silent, Silent, Silent] sr6"
proof (intro steps_Cons)
  have "r_push (ring_start 2 :: nat ring) = PushIdle" by code_simp
  then show "ring_step (ring_start 2) Silent sr1" unfolding sr1_def by (rule call_push)
  have "push_step (r_push sr1) sr1 = Some (Silent, sr2)" by code_simp
  then show "ring_step sr1 Silent sr2" by (rule push)
  have "push_step (r_push sr2) sr2 = Some (Pushed 7, sr3)" by code_simp
  then show "ring_step sr2 (Pushed 7) sr3" by (rule push)
  have "r_pop sr3 = PopIdle" by code_simp
  then show "ring_step sr3 Silent sr4" unfolding sr4_def by (rule call_pop)
  have "pop_step (r_pop sr4) sr4 = Some (Silent, sr5)" by code_simp
  then show "ring_step sr4 Silent sr5" by (rule pop)
  have "r_push sr5 = PushIdle" by code_simp
  then show "ring_step sr5 Silent sr6" unfolding sr6_def by (rule call_push)
qed (rule steps_refl)

section \<open>Guarantees\<close>

fun pushed :: "'a ring_label list \<Rightarrow> 'a list" where
  "pushed [] = []"
| "pushed (l # ls) = (case l of Pushed v \<Rightarrow> v # pushed ls | _ \<Rightarrow> pushed ls)"

fun popped :: "'a ring_label list \<Rightarrow> 'a list" where
  "popped [] = []"
| "popped (l # ls) = (case l of Popped v \<Rightarrow> v # popped ls | _ \<Rightarrow> popped ls)"

lemma pushed_append [simp]: "pushed (ls @ ls') = pushed ls @ pushed ls'"
  by (induction ls) (simp_all split: ring_label.split)

lemma popped_append [simp]: "popped (ls @ ls') = popped ls @ popped ls'"
  by (induction ls) (simp_all split: ring_label.split)

lemma queue_fifo: "steps (queue_step n) q ls q' \<Longrightarrow> q @ pushed ls = popped ls @ q'"
proof (induction rule: steps.induct)
  case (steps_step s ls s' l s'')
  then show ?case by (cases l) (auto simp flip: append_assoc)
qed simp

lemma drop_from_held: "drop_from h q = held (q\<lparr>in_head := h\<rparr>)"
proof (induction h q rule: drop_from.induct)
  case (1 h q)
  then show ?case
    using held_advance [of "q\<lparr>in_head := h\<rparr>"] by (subst drop_from.simps) (auto simp: held_def)
qed

lemma ring_drop_held: "ring_drop q = held q"
  by (simp add: ring_drop_def drop_from_held)

text \<open>C8. However the producer and the consumer interleave, the ring behaves as an atomic bounded queue:
  every run, from a channel of any requested capacity up to \<open>2^63\<close>, is a run of a first-in first-out queue
  with the same calls returning the same results, whose number of places is a power of two, at least 2, at
  least the requested capacity and less than twice it (or twice 2). A push is refused only when the queue is full and
  a pop returns nothing only when it is empty, at the step where the other side's index is read; and the values
  popped followed by those still held are exactly the values whose push succeeded, in that order.\<close>

theorem ring_refines_queue:
  assumes "steps ring_step (ring_start n) ls s" "unat n \<le> 2 ^ 63"
  shows "\<exists>k. unat n \<le> 2 ^ k \<and> 2 \<le> (2 :: nat) ^ k \<and> 2 ^ k < 2 * max (unat n) 2 \<and>
    steps (queue_step (2 ^ k)) [] ls (ring_items s) \<and> length (ring_items s) \<le> 2 ^ k \<and>
    popped ls @ ring_items s = pushed ls"
proof -
  obtain k where k: "1 \<le> k" "unat (next_power_of_two (max n 2)) = 2 ^ k" "unat n \<le> 2 ^ k" "2 ^ k < 2 * max (unat n) 2"
    using channel_capacity [OF assms(2)] by metis
  have inv: "sized_inv (2 ^ k) (ring_start n)" using ring_start_inv(1) [OF assms(2)] k(2) by simp
  have "(2 :: nat) \<le> 2 ^ k" using power_increasing [OF k(1), of "2 :: nat"] by simp
  moreover have run: "steps (queue_step (2 ^ k)) [] ls (ring_items s)"
    using rs.abs_steps [OF assms(1) inv] by (simp add: ring_start_inv(2))
  moreover have "length (ring_items s) \<le> 2 ^ k"
    using rs.inv_steps [OF assms(1) inv] by (auto simp: sized_inv_def ring_inv_def spsc_inv_def ring_items_def dest: ring_okD(2))
  ultimately show ?thesis using k queue_fifo [OF run] by (intro exI [of _ k]) simp
qed

theorem ring_refines_queue_witness:
  "\<exists>k. 2 \<le> (2 :: nat) ^ k \<and> (2 :: nat) ^ k < 4 \<and>
    steps (queue_step (2 ^ k)) [] [Silent, Silent, Pushed 7, Silent, Silent, Silent] (ring_items sr6) \<and>
    length (ring_items sr6) \<le> 2 ^ k \<and> ring_items sr6 = [7]"
  using ring_refines_queue [OF sample_ring_steps] by simp

text \<open>The unsafe blocks are safe: in no reachable state does the consumer read a slot that was never
  written, never is the producer about to write a slot that the consumer is about to read or has just read
  and not yet released, and dropping the ring drops exactly the values it holds.\<close>

theorem ring_memory_safe:
  assumes "steps ring_step (ring_start n) ls s" "unat n \<le> 2 ^ 63"
  shows "r_pop s \<noteq> PopUndefined \<and>
    (\<forall>v t w h. r_push s = PushWrite v t \<and> (r_pop s = PopRead h \<or> r_pop s = PopPublish w h) \<longrightarrow>
       slot (r_inner s) t \<noteq> slot (r_inner s) h) \<and>
    ring_drop (r_inner s) = map Some (ring_items s)"
proof -
  have inv: "ring_ok (r_inner s)" "lags (r_producer s) (r_inner s)" "within (r_consumer s) (r_inner s)"
    "push_ok (r_push s) (r_producer s) (r_inner s)" "pop_ok (r_pop s) (r_consumer s) (r_inner s)"
    using rs.inv_steps [OF assms(1) ring_start_inv(1) [OF assms(2)]]
    by (simp_all add: sized_inv_def ring_inv_def spsc_inv_def)
  then show ?thesis
    using head_tail_slots [OF inv(1) lags_room [OF inv(2)]] within_nonempty [OF inv(3)] held_contents [OF inv(1)]
    by (fastforce simp: push_ok_def pop_ok_def ring_drop_held ring_items_def)
qed

theorem ring_memory_safe_witness:
  "r_push sr6 = PushWrite 8 1 \<and> r_pop sr6 = PopRead 0 \<and> slot (r_inner sr6) 1 \<noteq> slot (r_inner sr6) 0 \<and>
    ring_drop (r_inner sr6) = map Some (ring_items sr6)"
proof -
  have "r_push sr6 = PushWrite 8 1" "r_pop sr6 = PopRead 0" by code_simp+
  with ring_memory_safe [OF sample_ring_steps] show ?thesis by simp
qed

fun push_rank :: "'a push_pc \<Rightarrow> nat" where
  "push_rank PushIdle = 0"
| "push_rank (PushPublish v t) = 1"
| "push_rank (PushWrite v t) = 2"
| "push_rank (PushRefresh v t) = 3"

fun pop_rank :: "'a pop_pc \<Rightarrow> nat" where
  "pop_rank (PopPublish v h) = 1"
| "pop_rank (PopRead h) = 2"
| "pop_rank (PopRefresh h) = 3"
| "pop_rank _ = 0"

text \<open>Neither side waits for the other: in every reachable state a call in progress has a next step of
  its own, which brings it strictly nearer to its return (at most three steps after the call) and leaves the
  other side where it was.\<close>

theorem ring_wait_free:
  assumes "steps ring_step (ring_start n) ls s" "unat n \<le> 2 ^ 63"
  shows "(r_push s \<noteq> PushIdle \<longrightarrow> (\<exists>l s'. push_step (r_push s) s = Some (l, s') \<and>
      push_rank (r_push s') < push_rank (r_push s) \<and> push_rank (r_push s) \<le> 3 \<and> r_pop s' = r_pop s)) \<and>
    (r_pop s \<noteq> PopIdle \<longrightarrow> (\<exists>l s'. pop_step (r_pop s) s = Some (l, s') \<and>
      pop_rank (r_pop s') < pop_rank (r_pop s) \<and> pop_rank (r_pop s) \<le> 3 \<and> r_push s' = r_push s))"
proof
  show "r_push s \<noteq> PushIdle \<longrightarrow> (\<exists>l s'. push_step (r_push s) s = Some (l, s') \<and>
      push_rank (r_push s') < push_rank (r_push s) \<and> push_rank (r_push s) \<le> 3 \<and> r_pop s' = r_pop s)"
    by (cases "r_push s") (auto simp: Let_def)
  have "pop_ok (r_pop s) (r_consumer s) (r_inner s)"
    using rs.inv_steps [OF assms(1) ring_start_inv(1) [OF assms(2)]] by (simp add: sized_inv_def ring_inv_def)
  then show "r_pop s \<noteq> PopIdle \<longrightarrow> (\<exists>l s'. pop_step (r_pop s) s = Some (l, s') \<and>
      pop_rank (r_pop s') < pop_rank (r_pop s) \<and> pop_rank (r_pop s) \<le> 3 \<and> r_push s' = r_push s)"
    by (cases "r_pop s") (auto simp: Let_def pop_ok_def split: option.split)
qed


lemma ring_update_commute:
  "s\<lparr>r_producer := p, r_inner := q\<rparr> = s\<lparr>r_inner := q, r_producer := p\<rparr>"
  "s\<lparr>r_consumer := c, r_inner := q\<rparr> = s\<lparr>r_inner := q, r_consumer := c\<rparr>"
  by simp_all

lemma push_finish_steps:
  assumes "r_push s = PushWrite v t"
  shows "steps ring_step s [Silent, Pushed v]
    (s\<lparr>r_inner := (write_slot t v (r_inner s))\<lparr>in_tail := t + 1\<rparr>, r_push := PushIdle\<rparr>)"
proof (rule steps_Cons)
  let ?s = "s\<lparr>r_inner := write_slot t v (r_inner s), r_push := PushPublish v t\<rparr>"
  show "ring_step s Silent ?s" using assms by (intro push) simp
  show "steps ring_step ?s [Pushed v] (s\<lparr>r_inner := (write_slot t v (r_inner s))\<lparr>in_tail := t + 1\<rparr>, r_push := PushIdle\<rparr>)"
    by (intro steps_one push) simp
qed

lemma push_call_steps:
  assumes "r_push s = PushIdle" "try_push v (r_inner s, r_producer s) = (r, q, p)"
  shows "\<exists>ls. steps ring_step s (ls @ [case r of Inl w \<Rightarrow> PushFull w | Inr _ \<Rightarrow> Pushed v])
    (s\<lparr>r_inner := q, r_producer := p, r_push := PushIdle\<rparr>)"
proof -
  let ?t = "in_tail (r_inner s)" and ?p = "(r_producer s)\<lparr>p_cached_head := in_head (r_inner s)\<rparr>"
  note call = call_push [OF assms(1), of v]
  show ?thesis
  proof (cases "in_capacity (r_inner s) \<le> ?t - p_cached_head (r_producer s)")
    case False
    then show ?thesis
      using steps_Cons [OF call push_finish_steps] assms(2)
      by (intro exI [of _ "[Silent, Silent]"]) (auto simp: push_start_def try_push_def Let_def)
  next
    case refresh: True
    let ?s = "push_start v s"
    have s: "r_push ?s = PushRefresh v ?t" using refresh by (simp add: push_start_def Let_def)
    show ?thesis
    proof (cases "in_capacity (r_inner s) \<le> ?t - in_head (r_inner s)")
      case True
      have "ring_step ?s (PushFull v) (s\<lparr>r_producer := ?p, r_push := PushIdle\<rparr>)"
        using True s by (intro push) (simp add: Let_def push_start_def)
      then show ?thesis
        using steps_two [of ring_step, OF call] assms(2) refresh True
        by (intro exI [of _ "[Silent]"]) (auto simp: try_push_def Let_def)
    next
      case False
      let ?s' = "s\<lparr>r_producer := ?p, r_push := PushWrite v ?t\<rparr>"
      have "ring_step ?s Silent ?s'" using False s by (intro push) (simp add: Let_def push_start_def)
      from steps_Cons [OF call steps_Cons [OF this push_finish_steps]] show ?thesis
        using assms(2) refresh False
        by (intro exI [of _ "[Silent, Silent, Silent]"]) (auto simp: try_push_def Let_def ring_update_commute)
    qed
  qed
qed

lemma pop_finish_steps:
  assumes "r_pop s = PopRead h" "read_slot h (r_inner s) = Some v"
  shows "steps ring_step s [Silent, Popped v] (s\<lparr>r_inner := (r_inner s)\<lparr>in_head := h + 1\<rparr>, r_pop := PopIdle\<rparr>)"
proof (rule steps_Cons)
  show "ring_step s Silent (s\<lparr>r_pop := PopPublish v h\<rparr>)" using assms by (intro pop) simp
  show "steps ring_step (s\<lparr>r_pop := PopPublish v h\<rparr>) [Popped v] (s\<lparr>r_inner := (r_inner s)\<lparr>in_head := h + 1\<rparr>, r_pop := PopIdle\<rparr>)"
    by (intro steps_one pop) simp
qed

lemma pop_call_steps:
  assumes "r_pop s = PopIdle" "try_pop (r_inner s, r_consumer s) = Inr (x, q, c)"
  shows "\<exists>ls. steps ring_step s (ls @ [case x of None \<Rightarrow> PopEmpty | Some w \<Rightarrow> Popped w])
    (s\<lparr>r_inner := q, r_consumer := c, r_pop := PopIdle\<rparr>)"
proof -
  let ?h = "in_head (r_inner s)" and ?c = "(r_consumer s)\<lparr>c_cached_tail := in_tail (r_inner s)\<rparr>"
  note call = call_pop [OF assms(1)]
  show ?thesis
  proof (cases "?h = c_cached_tail (r_consumer s)")
    case False
    then obtain v where v: "read_slot ?h (r_inner s) = Some v" "x = Some v" "q = (r_inner s)\<lparr>in_head := ?h + 1\<rparr>" "c = r_consumer s"
      using assms(2) by (auto simp: try_pop_def Let_def split: option.splits)
    then show ?thesis
      using False steps_Cons [OF call pop_finish_steps, of ?h v]
      by (intro exI [of _ "[Silent, Silent]"]) (simp add: pop_start_def Let_def)
  next
    case refresh: True
    let ?s = "pop_start s"
    have s: "r_pop ?s = PopRefresh ?h" using refresh by (simp add: pop_start_def Let_def)
    show ?thesis
    proof (cases "?h = in_tail (r_inner s)")
      case True
      have "ring_step ?s PopEmpty (s\<lparr>r_consumer := ?c, r_pop := PopIdle\<rparr>)"
        using True s by (intro pop) (simp add: Let_def pop_start_def)
      then show ?thesis
        using steps_two [of ring_step, OF call] assms(2) refresh True
        by (intro exI [of _ "[Silent]"]) (auto simp: try_pop_def Let_def)
    next
      case False
      let ?s' = "s\<lparr>r_consumer := ?c, r_pop := PopRead ?h\<rparr>"
      have s': "ring_step ?s Silent ?s'" using False s by (intro pop) (simp add: Let_def pop_start_def)
      obtain v where "read_slot ?h (r_inner s) = Some v" "x = Some v" "q = (r_inner s)\<lparr>in_head := ?h + 1\<rparr>" "c = ?c"
        using assms(2) refresh False by (auto simp: try_pop_def Let_def split: option.splits)
      then show ?thesis
        using steps_Cons [OF call steps_Cons [OF s' pop_finish_steps], of ?h v]
        by (intro exI [of _ "[Silent, Silent, Silent]"]) (simp add: ring_update_commute)
    qed
  qed
qed

theorem ring_wait_free_witness:
  "(\<exists>l s'. push_step (r_push sr6) sr6 = Some (l, s') \<and> push_rank (r_push s') < 2 \<and> r_pop s' = r_pop sr6) \<and>
    (\<exists>l s'. pop_step (r_pop sr6) sr6 = Some (l, s') \<and> pop_rank (r_pop s') < 2 \<and> r_push s' = r_push sr6)"
proof -
  have "r_push sr6 = PushWrite 8 1" "r_pop sr6 = PopRead 0" by code_simp+
  with ring_wait_free [OF sample_ring_steps] show ?thesis by simp
qed

text \<open>The operations are their steps: a call of \<open>try_push\<close> or \<open>try_pop\<close> with no step of the other side in
  between takes atomic steps that end with the result and in the state the function returns.\<close>

theorem calls_are_their_steps:
  assumes "r_push s = PushIdle" "r_pop s = PopIdle"
  shows "(\<forall>v r q p. try_push v (r_inner s, r_producer s) = (r, q, p) \<longrightarrow>
      (\<exists>ls. steps ring_step s (ls @ [case r of Inl w \<Rightarrow> PushFull w | Inr _ \<Rightarrow> Pushed v])
         (s\<lparr>r_inner := q, r_producer := p, r_push := PushIdle\<rparr>))) \<and>
    (\<forall>x q c. try_pop (r_inner s, r_consumer s) = Inr (x, q, c) \<longrightarrow>
      (\<exists>ls. steps ring_step s (ls @ [case x of None \<Rightarrow> PopEmpty | Some w \<Rightarrow> Popped w])
         (s\<lparr>r_inner := q, r_consumer := c, r_pop := PopIdle\<rparr>)))"
  using push_call_steps [OF assms(1)] pop_call_steps [OF assms(2)] by blast

theorem calls_are_their_steps_witness:
  "\<exists>r q p ls. try_push 8 (r_inner sr3, r_producer sr3) = (r, q, p) \<and>
     steps ring_step sr3 (ls @ [case r of Inl w \<Rightarrow> PushFull w | Inr _ \<Rightarrow> Pushed 8])
       (sr3\<lparr>r_inner := q, r_producer := p, r_push := PushIdle\<rparr>)"
proof -
  have "r_push sr3 = PushIdle" "r_pop sr3 = PopIdle" by code_simp+
  moreover obtain r q p where "try_push 8 (r_inner sr3, r_producer sr3) = (r, q, p)"
    by (cases "try_push 8 (r_inner sr3, r_producer sr3)")
  ultimately show ?thesis using calls_are_their_steps [of sr3] by blast
qed

end
