(* ===== verification/Spsc_Memory.thy ===== *)
theory Spsc_Memory
  imports Spsc_Correct "HOL-Library.Sublist"
begin

unbundle bit_operations_syntax

text \<open>
  The ring of \<^verbatim>\<open>bourse-core/src/spsc.rs\<close> under a memory with \<open>Relaxed\<close>, \<open>Acquire\<close> and \<open>Release\<close>. An
  atomic word is the history of its stores; a load may return any store that is not older than one the thread has
  already read there. A \<open>Release\<close> store carries what its thread has done so far, an \<open>Acquire\<close> load that reads
  it adds this to what the thread knows. A slot is plain memory: an access to it that conflicts
  with one of the other thread is a data race unless the thread knows of that access. The memory orderings are a
  parameter of the steps, so that the ones of the code can be compared with weaker ones.
\<close>

section \<open>Memory\<close>

datatype ordering = Relaxed | Acquire | Release

record orderings =
  o_tail_store :: ordering
  o_head_load :: ordering
  o_tail_load :: ordering
  o_head_store :: ordering

definition spsc_orderings :: orderings where
  "spsc_orderings = \<lparr>o_tail_store = Release, o_head_load = Acquire, o_tail_load = Acquire, o_head_store = Release\<rparr>"

text \<open>A store: the value, and the number of plain accesses of its thread that it publishes.\<close>

type_synonym store = "u64 \<times> nat"

text \<open>A thread: its cached copy of the other's index, the last store of that index it has read, how many plain
  accesses it has made, and how many of the other's it knows of.\<close>

record thread =
  th_cached :: u64
  th_seen :: nat
  th_clock :: nat
  th_knows :: nat

text \<open>A slot: its value, and when it was last written and last read, in accesses of the producer and of the
  consumer.\<close>

record 'a cell =
  cl_value :: "'a option"
  cl_written :: nat
  cl_read :: nat

definition atomic_load :: "ordering \<Rightarrow> nat \<Rightarrow> store list \<Rightarrow> thread \<Rightarrow> (u64 \<times> thread) option" where
  "atomic_load ord k hist th =
     (if th_seen th \<le> k \<and> k < length hist
      then Some (fst (hist ! k),
        th\<lparr>th_seen := k, th_knows := if ord = Acquire then max (th_knows th) (snd (hist ! k)) else th_knows th\<rparr>)
      else None)"

definition own_load :: "store list \<Rightarrow> u64" where
  "own_load hist = fst (last hist)"

definition atomic_store :: "ordering \<Rightarrow> u64 \<Rightarrow> thread \<Rightarrow> store list \<Rightarrow> store list" where
  "atomic_store ord v th hist = hist @ [(v, if ord = Release then th_clock th else 0)]"

definition plain_write :: "'a \<Rightarrow> thread \<Rightarrow> 'a cell \<Rightarrow> 'a cell option" where
  "plain_write v th c =
     (if cl_read c \<le> th_knows th then Some (c\<lparr>cl_value := Some v, cl_written := Suc (th_clock th)\<rparr>) else None)"

definition plain_read :: "thread \<Rightarrow> 'a cell \<Rightarrow> ('a \<times> 'a cell) option" where
  "plain_read th c =
     (case cl_value c of
        None \<Rightarrow> None
      | Some v \<Rightarrow> if cl_written c \<le> th_knows th then Some (v, c\<lparr>cl_read := Suc (th_clock th)\<rparr>) else None)"

section \<open>The ring\<close>

record 'a weak_ring =
  wr_tail :: "store list"
  wr_head :: "store list"
  wr_cells :: "'a cell list"
  wr_mask :: u64
  wr_capacity :: u64
  wr_producer :: thread
  wr_consumer :: thread
  wr_push :: "'a push_pc"
  wr_pop :: "'a pop_pc"
  wr_race :: bool

definition weak_start :: "u64 \<Rightarrow> 'a weak_ring" where
  "weak_start min_capacity =
     (let capacity = next_power_of_two (max min_capacity 2);
          th = \<lparr>th_cached = 0, th_seen = 0, th_clock = 0, th_knows = 0\<rparr>
      in \<lparr>wr_tail = [(0, 0)], wr_head = [(0, 0)],
          wr_cells = replicate (unat capacity) \<lparr>cl_value = None, cl_written = 0, cl_read = 0\<rparr>,
          wr_mask = capacity - 1, wr_capacity = capacity, wr_producer = th, wr_consumer = th,
          wr_push = PushIdle, wr_pop = PopIdle, wr_race = False\<rparr>)"

definition cell_at :: "u64 \<Rightarrow> 'a weak_ring \<Rightarrow> nat" where
  "cell_at i s = unat (i AND wr_mask s)"

definition weak_call_push :: "'a \<Rightarrow> 'a weak_ring \<Rightarrow> 'a weak_ring" where
  "weak_call_push v s =
     (let tail = own_load (wr_tail s)
      in s\<lparr>wr_push := if tail - th_cached (wr_producer s) \<ge> wr_capacity s then PushRefresh v tail else PushWrite v tail\<rparr>)"

text \<open>\<open>k\<close> chooses the store that a load reads.\<close>

fun weak_push :: "orderings \<Rightarrow> nat \<Rightarrow> 'a push_pc \<Rightarrow> 'a weak_ring \<Rightarrow> 'a ring_label \<times> 'a weak_ring" where
  "weak_push ord k PushIdle s = (Silent, s)"
| "weak_push ord k (PushRefresh v tail) s =
     (case atomic_load (o_head_load ord) k (wr_head s) (wr_producer s) of
        None \<Rightarrow> (Silent, s)
      | Some (head, th) \<Rightarrow>
          let s = s\<lparr>wr_producer := th\<lparr>th_cached := head\<rparr>\<rparr>
          in if tail - head \<ge> wr_capacity s then (PushFull v, s\<lparr>wr_push := PushIdle\<rparr>)
             else (Silent, s\<lparr>wr_push := PushWrite v tail\<rparr>))"
| "weak_push ord k (PushWrite v tail) s =
     (case plain_write v (wr_producer s) (wr_cells s ! cell_at tail s) of
        None \<Rightarrow> (Silent, s\<lparr>wr_race := True\<rparr>)
      | Some c \<Rightarrow>
          (Silent, s\<lparr>wr_cells := (wr_cells s)[cell_at tail s := c],
             wr_producer := (wr_producer s)\<lparr>th_clock := Suc (th_clock (wr_producer s))\<rparr>,
             wr_push := PushPublish v tail\<rparr>))"
| "weak_push ord k (PushPublish v tail) s =
     (Pushed v, s\<lparr>wr_tail := atomic_store (o_tail_store ord) (tail + 1) (wr_producer s) (wr_tail s), wr_push := PushIdle\<rparr>)"

definition weak_call_pop :: "'a weak_ring \<Rightarrow> 'a weak_ring" where
  "weak_call_pop s =
     (let head = own_load (wr_head s)
      in s\<lparr>wr_pop := if head = th_cached (wr_consumer s) then PopRefresh head else PopRead head\<rparr>)"

fun weak_pop :: "orderings \<Rightarrow> nat \<Rightarrow> 'a pop_pc \<Rightarrow> 'a weak_ring \<Rightarrow> 'a ring_label \<times> 'a weak_ring" where
  "weak_pop ord k PopIdle s = (Silent, s)"
| "weak_pop ord k PopUndefined s = (Silent, s)"
| "weak_pop ord k (PopRefresh head) s =
     (case atomic_load (o_tail_load ord) k (wr_tail s) (wr_consumer s) of
        None \<Rightarrow> (Silent, s)
      | Some (tail, th) \<Rightarrow>
          let s = s\<lparr>wr_consumer := th\<lparr>th_cached := tail\<rparr>\<rparr>
          in if head = tail then (PopEmpty, s\<lparr>wr_pop := PopIdle\<rparr>) else (Silent, s\<lparr>wr_pop := PopRead head\<rparr>))"
| "weak_pop ord k (PopRead head) s =
     (case plain_read (wr_consumer s) (wr_cells s ! cell_at head s) of
        None \<Rightarrow> (Silent, s\<lparr>wr_race := True\<rparr>)
      | Some (v, c) \<Rightarrow>
          (Silent, s\<lparr>wr_cells := (wr_cells s)[cell_at head s := c],
             wr_consumer := (wr_consumer s)\<lparr>th_clock := Suc (th_clock (wr_consumer s))\<rparr>,
             wr_pop := PopPublish v head\<rparr>))"
| "weak_pop ord k (PopPublish v head) s =
     (Popped v, s\<lparr>wr_head := atomic_store (o_head_store ord) (head + 1) (wr_consumer s) (wr_head s), wr_pop := PopIdle\<rparr>)"

section \<open>Schedules\<close>

datatype 'a weak_action = CallPush 'a | StepPush nat | CallPop | StepPop nat

fun weak_step :: "orderings \<Rightarrow> 'a weak_action \<Rightarrow> 'a weak_ring \<Rightarrow> 'a ring_label \<times> 'a weak_ring" where
  "weak_step ord (CallPush v) s = (Silent, if wr_push s = PushIdle then weak_call_push v s else s)"
| "weak_step ord (StepPush k) s = weak_push ord k (wr_push s) s"
| "weak_step ord CallPop s = (Silent, if wr_pop s = PopIdle then weak_call_pop s else s)"
| "weak_step ord (StepPop k) s = weak_pop ord k (wr_pop s) s"

text \<open>A state with the labels of the steps that led to it.\<close>

definition weak_exec :: "orderings \<Rightarrow> 'a weak_action \<Rightarrow> 'a weak_ring \<times> 'a ring_label list \<Rightarrow> 'a weak_ring \<times> 'a ring_label list" where
  "weak_exec ord a st = (case weak_step ord a (fst st) of (l, s) \<Rightarrow> (s, snd st @ [l]))"

definition weak_run :: "orderings \<Rightarrow> 'a weak_action list \<Rightarrow> u64 \<Rightarrow> 'a weak_ring \<times> 'a ring_label list" where
  "weak_run ord acts n = fold (weak_exec ord) acts (weak_start n, [])"

section \<open>Indices\<close>

text \<open>Both indices count: the number of stores after the initial one is the number of values pushed, or
  popped. A count stands for the word that the code computes with.\<close>

lemma mask_mod:
  assumes "unat c = 2 ^ k" "k \<le> 63"
  shows "unat (of_nat m AND (c - 1) :: u64) = m mod unat c"
proof -
  have "(2 :: nat) ^ k dvd 2 ^ 64" using assms(2) by (intro le_imp_power_dvd) simp
  then show ?thesis using and_mask_mod [OF assms, of "of_nat m"] by (simp add: unat_of_nat assms(1) mod_mod_cancel)
qed

lemma of_nat_gap: "i \<le> t \<Longrightarrow> t - i < 2 ^ 64 \<Longrightarrow> gap (of_nat t) (of_nat i) = t - i"
  using unat_of_nat [where 'a = 64, of "t - i"] by (simp add: of_nat_diff)

lemma of_nat_u64_eq: "h \<le> j \<Longrightarrow> j - h < 2 ^ 64 \<Longrightarrow> (of_nat h :: u64) = of_nat j \<longleftrightarrow> h = j"
  using of_nat_gap [of h j] by (metis diff_self diff_is_0_eq le_antisym unat_0)

lemma full_iff:
  fixes c :: u64
  assumes "i \<le> t" "t \<le> i + unat c" "unat c \<le> 2 ^ 63"
  shows "c \<le> of_nat t - of_nat i \<longleftrightarrow> t = i + unat c"
proof -
  have "t - i < 2 ^ 64" using assms(2,3) by simp
  note g = of_nat_gap [OF assms(1) this]
  have "n \<le> t - i \<longleftrightarrow> t = i + n" if "t \<le> i + n" for n using assms(1) that by arith
  from this [OF assms(2)] show ?thesis by (simp only: word_le_nat_alt g)
qed

section \<open>The invariant\<close>

definition counting :: "store list \<Rightarrow> nat \<Rightarrow> bool" where
  "counting hist n \<longleftrightarrow> hist = map (\<lambda>k. (of_nat k, k)) [0..<Suc n]"

lemma counting_simps:
  assumes "counting hist n"
  shows "length hist = Suc n" "own_load hist = of_nat n" "k \<le> n \<Longrightarrow> hist ! k = (of_nat k, k)"
  using assms by (simp_all add: counting_def own_load_def nth_append del: upt_Suc) (simp add: last_map)

lemma counting_store: "counting hist n \<Longrightarrow> th_clock th = Suc n \<Longrightarrow> counting (atomic_store Release (of_nat n + 1) th hist) (Suc n)"
  by (simp add: counting_def atomic_store_def add.commute)

text \<open>\<open>t\<close> values are published and \<open>h\<close> released; \<open>vs\<close> are the values written, those published first.\<close>

definition cells_ok :: "'a cell list \<Rightarrow> nat \<Rightarrow> 'a list \<Rightarrow> bool" where
  "cells_ok cells h vs \<longleftrightarrow>
     (\<forall>m. h \<le> m \<and> m < length vs \<longrightarrow>
        cl_value (cells ! (m mod length cells)) = Some (vs ! m) \<and> cl_written (cells ! (m mod length cells)) = Suc m)"

definition reads_ok :: "'a cell list \<Rightarrow> nat \<Rightarrow> bool" where
  "reads_ok cells r \<longleftrightarrow>
     (\<forall>x < length cells. cl_read (cells ! x) = 0 \<or> (\<exists>m < r. m mod length cells = x \<and> cl_read (cells ! x) = Suc m))"

definition sizes_ok :: "'a weak_ring \<Rightarrow> bool" where
  "sizes_ok s \<longleftrightarrow> (\<exists>k \<le> 63. unat (wr_capacity s) = 2 ^ k) \<and> wr_mask s = wr_capacity s - 1 \<and>
     length (wr_cells s) = unat (wr_capacity s)"

definition knows_upto :: "thread \<Rightarrow> nat \<Rightarrow> bool" where
  "knows_upto th n \<longleftrightarrow> th_cached th = of_nat (th_seen th) \<and> th_seen th \<le> th_knows th \<and> th_seen th \<le> n"

text \<open>The values written and not yet published, and the accesses of the consumer not yet released.\<close>

fun in_hand :: "'a push_pc \<Rightarrow> 'a list" where
  "in_hand (PushPublish v t) = [v]"
| "in_hand _ = []"

fun pushing :: "'a push_pc \<Rightarrow> nat \<Rightarrow> bool \<Rightarrow> bool" where
  "pushing PushIdle t room \<longleftrightarrow> True"
| "pushing (PushRefresh v x) t room \<longleftrightarrow> x = of_nat t"
| "pushing (PushWrite v x) t room \<longleftrightarrow> x = of_nat t \<and> room"
| "pushing (PushPublish v x) t room \<longleftrightarrow> x = of_nat t \<and> room"

fun popping :: "'a pop_pc \<Rightarrow> nat \<Rightarrow> bool \<Rightarrow> 'a list \<Rightarrow> bool" where
  "popping PopIdle h some vs \<longleftrightarrow> True"
| "popping (PopRefresh x) h some vs \<longleftrightarrow> x = of_nat h"
| "popping (PopRead x) h some vs \<longleftrightarrow> x = of_nat h \<and> some"
| "popping (PopPublish v x) h some vs \<longleftrightarrow> x = of_nat h \<and> some \<and> v = vs ! h"
| "popping PopUndefined h some vs \<longleftrightarrow> False"

fun reading :: "'a pop_pc \<Rightarrow> nat" where
  "reading (PopPublish v x) = 1"
| "reading _ = 0"

definition weak_at :: "nat \<Rightarrow> nat \<Rightarrow> 'a weak_ring \<times> 'a ring_label list \<Rightarrow> bool" where
  "weak_at t h st \<longleftrightarrow>
     (let (s, ls) = st; i = th_seen (wr_producer s); j = th_seen (wr_consumer s)
      in sizes_ok s \<and> \<not> wr_race s \<and>
         counting (wr_tail s) t \<and> counting (wr_head s) h \<and>
         knows_upto (wr_producer s) h \<and> knows_upto (wr_consumer s) t \<and> h \<le> j \<and> t \<le> i + length (wr_cells s) \<and>
         length (pushed ls) = t \<and> popped ls = List.take h (pushed ls) \<and>
         th_clock (wr_producer s) = t + length (in_hand (wr_push s)) \<and> th_clock (wr_consumer s) = h + reading (wr_pop s) \<and>
         pushing (wr_push s) t (t < i + length (wr_cells s)) \<and> popping (wr_pop s) h (h < j) (pushed ls) \<and>
         cells_ok (wr_cells s) h (pushed ls @ in_hand (wr_push s)) \<and> reads_ok (wr_cells s) (h + reading (wr_pop s)))"

definition weak_inv :: "'a weak_ring \<times> 'a ring_label list \<Rightarrow> bool" where
  "weak_inv st \<longleftrightarrow> (\<exists>t h. weak_at t h st)"

lemma sizes_okD:
  assumes "sizes_ok s"
  shows "unat (wr_capacity s) \<le> 2 ^ 63" "0 < length (wr_cells s)" "length (wr_cells s) = unat (wr_capacity s)"
    "cell_at (of_nat m) s = m mod length (wr_cells s)"
proof -
  obtain k where k: "k \<le> 63" "unat (wr_capacity s) = 2 ^ k" using assms by (auto simp: sizes_ok_def)
  show "unat (wr_capacity s) \<le> 2 ^ 63" unfolding k(2) using k(1) by (intro power_increasing) simp_all
  show "0 < length (wr_cells s)" "length (wr_cells s) = unat (wr_capacity s)" using assms k by (simp_all add: sizes_ok_def)
  show "cell_at (of_nat m) s = m mod length (wr_cells s)"
    using mask_mod [OF k(2,1)] assms by (simp add: cell_at_def sizes_ok_def)
qed

lemma weak_start_inv: "unat n \<le> 2 ^ 63 \<Longrightarrow> weak_at 0 0 (weak_start n, [])"
proof -
  assume "unat n \<le> 2 ^ 63"
  then obtain k where "1 \<le> k" "k \<le> 63" "unat (next_power_of_two (max n 2)) = 2 ^ k" using channel_capacity by metis
  then show ?thesis
    by (auto simp: weak_at_def weak_start_def Let_def sizes_ok_def counting_def knows_upto_def cells_ok_def reads_ok_def)
qed

text \<open>A load reads a count, and afterwards the thread knows that many accesses of the other.\<close>

lemma load_count:
  assumes "counting hist n" "knows_upto th m" "atomic_load Acquire k hist th = Some (v, th')"
  shows "v = of_nat k" "th_seen th \<le> k" "k \<le> n" "knows_upto (th'\<lparr>th_cached := v\<rparr>) n" "th_seen th' = k" "th_clock th' = th_clock th"
  using assms counting_simps [OF assms(1)]
  by (auto simp: atomic_load_def knows_upto_def split: if_splits)

lemma cells_write:
  assumes "cells_ok cells h vs" "h \<le> length vs" "length vs < h + length cells" "cl_value c = Some v" "cl_written c = Suc (length vs)"
  shows "cells_ok (cells[length vs mod length cells := c]) h (vs @ [v])"
  unfolding cells_ok_def
proof (intro allI impI)
  fix m
  let ?n = "length cells"
  assume m: "h \<le> m \<and> m < length (vs @ [v])"
  then have n: "length vs mod ?n < ?n" using assms(2,3) by (intro mod_less_divisor) linarith
  have "length vs - h < ?n" "m - h < ?n" using m assms(2,3) by auto
  from mod_add_inj [OF this, of h] have "length vs mod ?n = m mod ?n \<longleftrightarrow> m = length vs"
    using m assms(2) by auto
  then show "cl_value (cells[length vs mod length cells := c] ! (m mod length (cells[length vs mod length cells := c]))) = Some ((vs @ [v]) ! m) \<and>
      cl_written (cells[length vs mod length cells := c] ! (m mod length (cells[length vs mod length cells := c]))) = Suc m"
    using m n assms(1,4,5) by (auto simp: cells_ok_def nth_append)
qed

lemma reads_read:
  assumes "reads_ok cells r" "cl_read c = Suc r" "0 < length cells"
  shows "reads_ok (cells[r mod length cells := c]) (Suc r)"
  using assms by (auto simp: reads_ok_def nth_list_update less_Suc_eq)

lemma reads_write:
  assumes "reads_ok cells r" "cl_read c = cl_read (cells ! x)"
  shows "reads_ok (cells[x := c]) r"
  using assms by (cases "x < length cells") (auto simp: reads_ok_def nth_list_update list_update_beyond)

lemma cells_read:
  "cells_ok cells h vs \<Longrightarrow> cl_value c = cl_value (cells ! x) \<Longrightarrow> cl_written c = cl_written (cells ! x) \<Longrightarrow> cells_ok (cells[x := c]) h vs"
  by (cases "x < length cells") (auto simp: cells_ok_def nth_list_update list_update_beyond)

text \<open>The last read of the slot that the producer is about to write is one it knows of: the slot was used one
  turn of the ring ago.\<close>

lemma reads_known:
  assumes "reads_ok cells r" "r \<le> t" "t < i + length cells" "0 < length cells"
  shows "cl_read (cells ! (t mod length cells)) \<le> i"
proof -
  let ?n = "length cells"
  have "m < i" if "m < r" "m mod ?n = t mod ?n" for m
  proof -
    have "m < t" using that(1) assms(2) by simp
    then have "?n dvd t - m" using that(2) mod_eq_dvd_iff_nat [of m t ?n] by simp
    then have "?n \<le> t - m" using \<open>m < t\<close> by (intro dvd_imp_le) simp_all
    with \<open>m < t\<close> assms(3) show ?thesis by simp
  qed
  with assms(1) [unfolded reads_ok_def, rule_format, OF mod_less_divisor [OF assms(4), of t]] show ?thesis
    by (metis Suc_leI le0)
qed

section \<open>Every step keeps it\<close>

lemma weak_atD:
  assumes "weak_at t h (s, ls)"
  shows "sizes_ok s" "\<not> wr_race s" "counting (wr_tail s) t" "counting (wr_head s) h"
    "knows_upto (wr_producer s) h" "knows_upto (wr_consumer s) t" "h \<le> th_seen (wr_consumer s)"
    "t \<le> th_seen (wr_producer s) + length (wr_cells s)" "length (pushed ls) = t" "popped ls = List.take h (pushed ls)"
    "th_clock (wr_producer s) = t + length (in_hand (wr_push s))" "th_clock (wr_consumer s) = h + reading (wr_pop s)"
    "pushing (wr_push s) t (t < th_seen (wr_producer s) + length (wr_cells s))"
    "popping (wr_pop s) h (h < th_seen (wr_consumer s)) (pushed ls)"
    "cells_ok (wr_cells s) h (pushed ls @ in_hand (wr_push s))" "reads_ok (wr_cells s) (h + reading (wr_pop s))"
  using assms by (simp_all add: weak_at_def Let_def)

text \<open>The counts are in order: released, seen by the producer; published, seen by the consumer.\<close>

lemma weak_order:
  assumes "weak_at t h (s, ls)"
  shows "th_seen (wr_producer s) \<le> h" "h \<le> t" "th_seen (wr_consumer s) \<le> t" "t \<le> h + length (wr_cells s)"
  using weak_atD(5,6,7,8) [OF assms] by (auto simp: knows_upto_def)

lemma full_check:
  assumes "weak_at t h (s, ls)" "i \<le> h" "t \<le> i + length (wr_cells s)"
  shows "wr_capacity s \<le> of_nat t - of_nat i \<longleftrightarrow> t = i + length (wr_cells s)"
  using full_iff [of i t "wr_capacity s"] assms weak_order(2) [OF assms(1)] sizes_okD(1,3) [OF weak_atD(1) [OF assms(1)]] by simp

lemma empty_check:
  assumes "weak_at t h (s, ls)" "h \<le> j" "j \<le> t"
  shows "(of_nat h :: u64) = of_nat j \<longleftrightarrow> h = j"
proof (rule of_nat_u64_eq [OF assms(2)])
  have "unat (wr_capacity s) < 2 ^ 64" using sizes_okD(1) [OF weak_atD(1) [OF assms(1)]] by simp
  then show "j - h < 2 ^ 64"
    using assms(2,3) weak_order(4) [OF assms(1)] sizes_okD(3) [OF weak_atD(1) [OF assms(1)]] by linarith
qed

lemma weak_call_push_inv:
  assumes "weak_at t h (s, ls)" "wr_push s = PushIdle"
  shows "weak_at t h (weak_call_push v s, ls @ [Silent])"
  using assms weak_atD [OF assms(1)] counting_simps(2) [OF weak_atD(3) [OF assms(1)]]
    full_check [OF assms(1) weak_order(1) [OF assms(1)] weak_atD(8) [OF assms(1)]]
  by (auto simp: weak_at_def weak_call_push_def Let_def knows_upto_def sizes_ok_def)

lemma weak_call_pop_inv:
  assumes "weak_at t h (s, ls)" "wr_pop s = PopIdle"
  shows "weak_at t h (weak_call_pop s, ls @ [Silent])"
  using assms weak_atD [OF assms(1)] counting_simps(2) [OF weak_atD(4) [OF assms(1)]]
    empty_check [OF assms(1) weak_atD(7) [OF assms(1)] weak_order(3) [OF assms(1)]]
  by (auto simp: weak_at_def weak_call_pop_def Let_def knows_upto_def sizes_ok_def)

lemma spsc_orderings_simps [simp]:
  "o_tail_store spsc_orderings = Release" "o_head_load spsc_orderings = Acquire"
  "o_tail_load spsc_orderings = Acquire" "o_head_store spsc_orderings = Release"
  by (simp_all add: spsc_orderings_def)

lemma push_refresh_inv:
  assumes "weak_at t h (s, ls)" "wr_push s = PushRefresh v x" "weak_push spsc_orderings k (wr_push s) s = (l, s')"
  shows "weak_at t h (s', ls @ [l])"
proof (cases "atomic_load Acquire k (wr_head s) (wr_producer s)")
  case None
  then show ?thesis using assms by (auto simp: weak_at_def Let_def)
next
  case (Some r)
  obtain w th where r: "r = (w, th)" by (cases r)
  note ld = load_count [OF weak_atD(4,5) [OF assms(1)] Some [unfolded r]]
  have t: "t \<le> k + length (wr_cells s)" using ld(2) weak_atD(8) [OF assms(1)] by simp
  have x: "x = of_nat t" using weak_atD(13) [OF assms(1)] assms(2) by simp
  note full = full_check [OF assms(1) ld(3) t]
  show ?thesis
    using assms ld t x full weak_atD [OF assms(1)]
    by (auto simp: Some r weak_at_def Let_def knows_upto_def sizes_ok_def split: if_splits)
qed

lemma push_write_inv:
  assumes "weak_at t h (s, ls)" "wr_push s = PushWrite v x" "weak_push spsc_orderings k (wr_push s) s = (l, s')"
  shows "weak_at t h (s', ls @ [l])"
proof -
  note D = weak_atD [OF assms(1)]
  let ?n = "length (wr_cells s)" and ?p = "wr_producer s"
  have x: "x = of_nat t" and room: "t < th_seen ?p + ?n" using D(13) assms(2) by simp_all
  let ?c = "wr_cells s ! (t mod ?n)"
  have "h + reading (wr_pop s) \<le> t" using D(14) weak_order(2,3) [OF assms(1)] by (cases "wr_pop s") auto
  then have known: "cl_read ?c \<le> th_knows ?p"
    using reads_known [OF D(16) _ room sizes_okD(2) [OF D(1)]] D(5) by (auto simp: knows_upto_def)
  have clock: "th_clock ?p = t" using D(11) assms(2) by simp
  let ?c' = "?c\<lparr>cl_value := Some v, cl_written := Suc t\<rparr>"
  have s': "s' = s\<lparr>wr_cells := (wr_cells s)[t mod ?n := ?c'], wr_producer := ?p\<lparr>th_clock := Suc t\<rparr>, wr_push := PushPublish v x\<rparr>" "l = Silent"
    using assms(3) known by (auto simp: assms(2) plain_write_def x sizes_okD(4) [OF D(1)] clock)
  have "cells_ok ((wr_cells s)[t mod ?n := ?c']) h (pushed ls @ [v])"
    using cells_write [of "wr_cells s" h "pushed ls" ?c' v] D(9,15) weak_order [OF assms(1)] room assms(2) by simp
  moreover have "reads_ok ((wr_cells s)[t mod ?n := ?c']) (h + reading (wr_pop s))"
    using D(16) by (rule reads_write) simp
  ultimately show ?thesis
    using D x room by (simp add: s' weak_at_def Let_def sizes_ok_def knows_upto_def)
qed

lemma push_publish_inv:
  assumes "weak_at t h (s, ls)" "wr_push s = PushPublish v x" "weak_push spsc_orderings k (wr_push s) s = (l, s')"
  shows "weak_at (Suc t) h (s', ls @ [l])"
proof -
  note D = weak_atD [OF assms(1)]
  have x: "x = of_nat t" using D(13) assms(2) by simp
  have s': "s' = s\<lparr>wr_tail := atomic_store Release (of_nat t + 1) (wr_producer s) (wr_tail s), wr_push := PushIdle\<rparr>" "l = Pushed v"
    using assms(3) by (auto simp: assms(2) x)
  moreover have "counting (atomic_store Release (of_nat t + 1) (wr_producer s) (wr_tail s)) (Suc t)"
    using D(3,11) assms(2) by (intro counting_store) simp_all
  moreover have "popping (wr_pop s) h (h < th_seen (wr_consumer s)) (pushed ls @ [v])"
    using D(14,9) weak_order(3) [OF assms(1)] by (cases "wr_pop s") (auto simp: nth_append)
  ultimately show ?thesis
    using D assms(2) weak_order [OF assms(1)] by (auto simp: weak_at_def Let_def sizes_ok_def knows_upto_def)
qed

lemma pop_refresh_inv:
  assumes "weak_at t h (s, ls)" "wr_pop s = PopRefresh x" "weak_pop spsc_orderings k (wr_pop s) s = (l, s')"
  shows "weak_at t h (s', ls @ [l])"
proof (cases "atomic_load Acquire k (wr_tail s) (wr_consumer s)")
  case None
  then show ?thesis using assms by (auto simp: weak_at_def Let_def)
next
  case (Some r)
  obtain w th where r: "r = (w, th)" by (cases r)
  note ld = load_count [OF weak_atD(3,6) [OF assms(1)] Some [unfolded r]]
  have h: "h \<le> k" using ld(2) weak_atD(7) [OF assms(1)] by simp
  have x: "x = of_nat h" using weak_atD(14) [OF assms(1)] assms(2) by simp
  note empty = empty_check [OF assms(1) h ld(3)]
  show ?thesis
    using assms ld h x empty weak_atD [OF assms(1)]
    by (auto simp: Some r weak_at_def Let_def knows_upto_def sizes_ok_def split: if_splits)
qed

lemma pop_read_inv:
  assumes "weak_at t h (s, ls)" "wr_pop s = PopRead x" "weak_pop spsc_orderings k (wr_pop s) s = (l, s')"
  shows "weak_at t h (s', ls @ [l])"
proof -
  note D = weak_atD [OF assms(1)]
  let ?n = "length (wr_cells s)" and ?c = "wr_cells s ! (h mod length (wr_cells s))"
  have x: "x = of_nat h" and h: "h < th_seen (wr_consumer s)" using D(14) assms(2) by simp_all
  then have "h < t" using weak_order(3) [OF assms(1)] by simp
  then have cell: "cl_value ?c = Some (pushed ls ! h)" "cl_written ?c = Suc h"
    using D(15,9) by (auto simp: cells_ok_def nth_append)
  then have known: "cl_written ?c \<le> th_knows (wr_consumer s)" using h D(6) by (simp add: knows_upto_def)
  have clock: "th_clock (wr_consumer s) = h" using D(12) assms(2) by simp
  let ?c' = "?c\<lparr>cl_read := Suc h\<rparr>"
  have s': "s' = s\<lparr>wr_cells := (wr_cells s)[h mod ?n := ?c'], wr_consumer := (wr_consumer s)\<lparr>th_clock := Suc h\<rparr>,
      wr_pop := PopPublish (pushed ls ! h) x\<rparr>" "l = Silent"
    using assms(3) known cell by (auto simp: assms(2) plain_read_def x sizes_okD(4) [OF D(1)] clock)
  have "reads_ok ((wr_cells s)[h mod ?n := ?c']) (Suc h)"
    using D(16) assms(2) sizes_okD(2) [OF D(1)] by (intro reads_read) simp_all
  moreover have "cells_ok ((wr_cells s)[h mod ?n := ?c']) h (pushed ls @ in_hand (wr_push s))"
    using D(15) by (rule cells_read) simp_all
  ultimately show ?thesis using D x h by (simp add: s' weak_at_def Let_def sizes_ok_def knows_upto_def)
qed

lemma pop_publish_inv:
  assumes "weak_at t h (s, ls)" "wr_pop s = PopPublish v x" "weak_pop spsc_orderings k (wr_pop s) s = (l, s')"
  shows "weak_at t (Suc h) (s', ls @ [l])"
proof -
  note D = weak_atD [OF assms(1)]
  have x: "x = of_nat h" and v: "v = pushed ls ! h" and h: "h < th_seen (wr_consumer s)" using D(14) assms(2) by simp_all
  have s': "s' = s\<lparr>wr_head := atomic_store Release (of_nat h + 1) (wr_consumer s) (wr_head s), wr_pop := PopIdle\<rparr>" "l = Popped v"
    using assms(3) by (auto simp: assms(2) x)
  moreover have "counting (atomic_store Release (of_nat h + 1) (wr_consumer s) (wr_head s)) (Suc h)"
    using D(4,12) assms(2) by (intro counting_store) simp_all
  moreover have "cells_ok (wr_cells s) (Suc h) (pushed ls @ in_hand (wr_push s))"
    using D(15) by (simp add: cells_ok_def)
  ultimately show ?thesis
    using D assms(2) weak_order [OF assms(1)] v h
    by (auto simp: weak_at_def Let_def sizes_ok_def knows_upto_def take_Suc_conv_app_nth)
qed

lemma weak_exec_inv: "weak_inv st \<Longrightarrow> weak_inv (weak_exec spsc_orderings a st)"
proof -
  assume "weak_inv st"
  then obtain s ls t h where st: "st = (s, ls)" and at: "weak_at t h (s, ls)" by (cases st) (auto simp: weak_inv_def)
  obtain l s' where step: "weak_step spsc_orderings a s = (l, s')" by fastforce
  have stay: "weak_at t h (s, ls @ [Silent])" using at by (simp add: weak_at_def Let_def)
  have "\<exists>t h. weak_at t h (s', ls @ [l])"
  proof (cases a)
    case (CallPush v)
    then show ?thesis using step stay weak_call_push_inv [OF at] by (auto split: if_splits)
  next
    case (StepPush k)
    then show ?thesis
      using step stay push_refresh_inv [OF at] push_write_inv [OF at] push_publish_inv [OF at]
      by (cases "wr_push s") (fastforce simp del: weak_push.simps(2-4))+
  next
    case CallPop
    then show ?thesis using step stay weak_call_pop_inv [OF at] by (auto split: if_splits)
  next
    case (StepPop k)
    then show ?thesis
      using step stay pop_refresh_inv [OF at] pop_read_inv [OF at] pop_publish_inv [OF at]
      by (cases "wr_pop s") (fastforce simp del: weak_pop.simps(3-5))+
  qed
  then show ?thesis using st step by (simp add: weak_exec_def weak_inv_def)
qed

interpretation wk: machine "weak_exec spsc_orderings" weak_inv
  by unfold_locales (rule weak_exec_inv)

section \<open>Guarantees\<close>

text \<open>C11. The memory orderings of the code are enough. Under every schedule, and whatever store each load of the
  other side's index reads, no access to a slot races with one of the other thread or reads a slot that was not written, the
  values popped are a prefix of the values pushed, in order, and never more than the capacity are in between.\<close>

theorem orderings_suffice:
  assumes "weak_run spsc_orderings acts n = (s, ls)" "unat n \<le> 2 ^ 63"
  shows "\<not> wr_race s \<and> wr_pop s \<noteq> PopUndefined \<and> prefix (popped ls) (pushed ls) \<and>
    length (pushed ls) \<le> length (popped ls) + unat (wr_capacity s)"
proof -
  have "weak_inv (weak_start n, [])" using weak_start_inv [OF assms(2)] by (auto simp: weak_inv_def)
  from wk.inv_run [OF this, of acts] obtain t h where at: "weak_at t h (s, ls)"
    using assms(1) by (auto simp: weak_run_def weak_inv_def)
  note D = weak_atD [OF at]
  have "length (pushed ls) \<le> length (popped ls) + unat (wr_capacity s)"
    using D(9,10) weak_order [OF at] sizes_okD(3) [OF D(1)] by simp
  moreover have "wr_pop s \<noteq> PopUndefined" using D(14) by auto
  ultimately show ?thesis using D(2,10) by (simp add: take_is_prefix)
qed

text \<open>A value passed through the ring; and two pushed, one popped, and a third pushed into the slot of the first.\<close>

definition pass_one :: "nat weak_action list" where
  "pass_one = [CallPush 7, StepPush 0, StepPush 0, CallPop, StepPop 1, StepPop 0]"

definition reuse_slot :: "nat weak_action list" where
  "reuse_slot = [CallPush 7, StepPush 0, StepPush 0, CallPush 8, StepPush 0, StepPush 0,
     CallPop, StepPop 2, StepPop 0, StepPop 0, CallPush 9, StepPush 1, StepPush 0]"

theorem orderings_suffice_witness:
  "\<not> wr_race (fst (weak_run spsc_orderings reuse_slot 2)) \<and> prefix [7] [7, 8 :: nat]"
proof -
  obtain s ls where run: "weak_run spsc_orderings reuse_slot 2 = (s, ls)" by fastforce
  have "popped (snd (weak_run spsc_orderings reuse_slot 2)) = [7]" "pushed (snd (weak_run spsc_orderings reuse_slot 2)) = [7, 8]"
    by code_simp+
  then show ?thesis using orderings_suffice [OF run] run by simp
qed

text \<open>The choices the language leaves: a load is \<open>Relaxed\<close> or \<open>Acquire\<close>, a store \<open>Relaxed\<close> or \<open>Release\<close> (the standard
  library panics on the others).\<close>

definition allowed_orderings :: "orderings \<Rightarrow> bool" where
  "allowed_orderings ord \<longleftrightarrow>
     o_tail_store ord \<noteq> Acquire \<and> o_head_store ord \<noteq> Acquire \<and> o_tail_load ord \<noteq> Release \<and> o_head_load ord \<noteq> Release"

lemma weak_run_race_free: "unat n \<le> 2 ^ 63 \<Longrightarrow> \<not> wr_race (fst (weak_run spsc_orderings acts n))"
proof -
  assume "unat n \<le> 2 ^ 63"
  then have "weak_inv (weak_start n, [])" using weak_start_inv [of n] by (auto simp: weak_inv_def)
  from wk.inv_run [OF this, of acts] obtain t h where "weak_at t h (weak_run spsc_orderings acts n)"
    by (auto simp: weak_run_def weak_inv_def)
  then show ?thesis using weak_atD(2) [of t h "fst (weak_run spsc_orderings acts n)"] by (metis prod.collapse)
qed

text \<open>Which of the two schedules races when an ordering is missing does not depend on the other three.\<close>

lemma orderings_race:
  "wr_race (fst (weak_run \<lparr>o_tail_store = Relaxed, o_head_load = hl, o_tail_load = kl, o_head_store = hs\<rparr> pass_one 2))"
  "wr_race (fst (weak_run \<lparr>o_tail_store = Release, o_head_load = hl, o_tail_load = Relaxed, o_head_store = hs\<rparr> pass_one 2))"
  "wr_race (fst (weak_run \<lparr>o_tail_store = Release, o_head_load = hl, o_tail_load = Acquire, o_head_store = Relaxed\<rparr> reuse_slot 2))"
  "wr_race (fst (weak_run \<lparr>o_tail_store = Release, o_head_load = Relaxed, o_tail_load = Acquire, o_head_store = Release\<rparr> reuse_slot 2))"
     apply (cases hl; cases kl; cases hs; simp only:; code_simp)
    apply (cases hl; cases hs; simp only:; code_simp)
   apply (cases hl; simp only:; code_simp)
  apply code_simp
  done



end
