(* ===== verification/Engine.thy ===== *)
theory Engine
  imports Spsc_Correct Matcher_Correct "HOL-Library.Sublist"
begin

text \<open>
  The engine of \<^verbatim>\<open>bourse-core/src/engine.rs\<close>: a gateway pushes commands into one ring, the matcher
  thread pops them, executes them and pushes the events into another ring, a publisher pops those. A
  schedule is a list of actions of the three parties and of whoever stops the engine, in any order;
  the thread advances by one poll, one load of the stop flag or one attempt to push an event at a
  time, so that every action of the others can fall between.
\<close>

section \<open>State\<close>

text \<open>Where \<open>matcher_loop\<close> is when it has no event left to send: polling in the loop, about to load the
  stop flag, polling in the last drain pass, or returned. \<open>Undefined\<close> is a read of an unwritten slot.\<close>

datatype loop_phase = Polling | CheckStop | Draining | Exited | Undefined

record engine =
  e_commands :: "command spsc"
  e_events :: "event spsc"
  e_stop_flag :: bool
  e_matcher :: matcher
  e_sending :: "event list"
  e_phase :: loop_phase

definition engine_start :: "u64 \<Rightarrow> u64 \<Rightarrow> engine" where
  "engine_start command_capacity event_capacity =
     \<lparr>e_commands = channel command_capacity, e_events = channel event_capacity, e_stop_flag = False,
      e_matcher = matcher_new, e_sending = [], e_phase = Polling\<rparr>"

section \<open>The matcher thread\<close>

text \<open>\<open>drain_one\<close> up to the loop over the events: whether there was a command, and its execution.\<close>

definition drain_one :: "engine \<Rightarrow> unit + (bool \<times> engine)" where
  "drain_one e =
     try_bind (spsc_pop (e_commands e)) (\<lambda>(cmd, q).
       case cmd of
         None \<Rightarrow> Inr (False, e\<lparr>e_commands := q\<rparr>)
       | Some c \<Rightarrow>
           (case apply_command c (e_matcher e, []) of (m, events) \<Rightarrow>
              Inr (True, e\<lparr>e_commands := q, e_matcher := m, e_sending := events\<rparr>)))"

text \<open>One turn of the loop that sends an event; a refused event is tried again.\<close>

definition send_one :: "event \<Rightarrow> event list \<Rightarrow> engine \<Rightarrow> engine" where
  "send_one ev rest e =
     (case spsc_push ev (e_events e) of
        (Inr _, q) \<Rightarrow> e\<lparr>e_events := q, e_sending := rest\<rparr>
      | (Inl returned, q) \<Rightarrow> e\<lparr>e_events := q, e_sending := returned # rest\<rparr>)"

definition poll :: "loop_phase \<Rightarrow> engine \<Rightarrow> engine" where
  "poll when_empty e =
     (case drain_one e of
        Inl _ \<Rightarrow> e\<lparr>e_phase := Undefined\<rparr>
      | Inr (drained, e') \<Rightarrow> if drained then e' else e'\<lparr>e_phase := when_empty\<rparr>)"

definition thread_step :: "engine \<Rightarrow> engine" where
  "thread_step e =
     (case e_sending e of
        ev # rest \<Rightarrow> send_one ev rest e
      | [] \<Rightarrow>
          (case e_phase e of
             Polling \<Rightarrow> poll CheckStop e
           | CheckStop \<Rightarrow> e\<lparr>e_phase := if e_stop_flag e then Draining else Polling\<rparr>
           | Draining \<Rightarrow> poll Exited e
           | Exited \<Rightarrow> e
           | Undefined \<Rightarrow> e))"

section \<open>Schedules\<close>

datatype engine_action = Submit command | Receive | Stop | Tick

text \<open>What the outside has seen: the commands whose push succeeded, those of them that precede the
  request to stop, and the events received.\<close>

record engine_view =
  v_accepted :: "command list"
  v_before_stop :: "command list option"
  v_received :: "event list"

definition view_new :: engine_view where
  "view_new = \<lparr>v_accepted = [], v_before_stop = None, v_received = []\<rparr>"

fun engine_step :: "engine_action \<Rightarrow> engine \<times> engine_view \<Rightarrow> engine \<times> engine_view" where
  "engine_step (Submit c) (e, v) =
     (case spsc_push c (e_commands e) of
        (Inr _, q) \<Rightarrow> (e\<lparr>e_commands := q\<rparr>, v\<lparr>v_accepted := v_accepted v @ [c]\<rparr>)
      | (Inl _, q) \<Rightarrow> (e\<lparr>e_commands := q\<rparr>, v))"
| "engine_step Receive (e, v) =
     (case spsc_pop (e_events e) of
        Inr (Some ev, q) \<Rightarrow> (e\<lparr>e_events := q\<rparr>, v\<lparr>v_received := v_received v @ [ev]\<rparr>)
      | Inr (None, q) \<Rightarrow> (e\<lparr>e_events := q\<rparr>, v)
      | Inl _ \<Rightarrow> (e\<lparr>e_phase := Undefined\<rparr>, v))"
| "engine_step Stop (e, v) =
     (e\<lparr>e_stop_flag := True\<rparr>,
      v\<lparr>v_before_stop := (case v_before_stop v of None \<Rightarrow> Some (v_accepted v) | Some cs \<Rightarrow> Some cs)\<rparr>)"
| "engine_step Tick (e, v) = (thread_step e, v)"

section \<open>The invariant\<close>

abbreviation executed :: "command list \<Rightarrow> matcher \<times> event list" where
  "executed cs \<equiv> run_commands cs (matcher_new, [])"

text \<open>\<open>cs\<close> are the commands the thread has popped.\<close>

definition engine_inv_at :: "command list \<Rightarrow> engine \<times> engine_view \<Rightarrow> bool" where
  "engine_inv_at cs st \<longleftrightarrow>
     (let (e, v) = st
      in spsc_inv (e_commands e) \<and> spsc_inv (e_events e) \<and> e_phase e \<noteq> Undefined \<and>
         v_accepted v = cs @ spsc_items (e_commands e) \<and>
         e_matcher e = fst (executed cs) \<and>
         snd (executed cs) = v_received v @ spsc_items (e_events e) @ e_sending e \<and>
         (e_stop_flag e \<longleftrightarrow> v_before_stop v \<noteq> None) \<and>
         (\<forall>bs. v_before_stop v = Some bs \<longrightarrow> prefix bs (v_accepted v)) \<and>
         (e_phase e \<in> {Draining, Exited} \<longrightarrow> e_stop_flag e) \<and>
         (e_phase e = Exited \<longrightarrow> e_sending e = [] \<and> (\<exists>bs. v_before_stop v = Some bs \<and> prefix bs cs)))"

definition engine_inv :: "engine \<times> engine_view \<Rightarrow> bool" where
  "engine_inv st \<longleftrightarrow> (\<exists>cs. engine_inv_at cs st)"

lemma executed_snoc:
  "executed (cs @ [c]) = (fst (apply_command c (fst (executed cs), [])), snd (executed cs) @ snd (apply_command c (fst (executed cs), [])))"
  using after_apply_command [of c "snd (executed cs)" "(fst (executed cs), [])"]
  by (simp add: after_def prod_eq_iff)

lemma engine_inv_start:
  "unat cc \<le> 2 ^ 63 \<Longrightarrow> unat ec \<le> 2 ^ 63 \<Longrightarrow> engine_inv_at [] (engine_start cc ec, view_new)"
  by (simp add: engine_inv_at_def engine_start_def view_new_def channel_inv)

text \<open>A poll pops a command, or finds the ring empty and changes the phase.\<close>

lemma poll_cases:
  assumes "spsc_inv (e_commands e)"
  obtains (Cmd) c q where "poll ph e = e\<lparr>e_commands := q, e_matcher := fst (apply_command c (e_matcher e, [])),
        e_sending := snd (apply_command c (e_matcher e, []))\<rparr>" "spsc_inv q" "spsc_items (e_commands e) = c # spsc_items q"
  | (Empty) q where "poll ph e = e\<lparr>e_commands := q, e_phase := ph\<rparr>" "spsc_inv q" "spsc_items (e_commands e) = []" "spsc_items q = []"
  using assms by (rule ring.pop_cases) (auto simp: poll_def drain_one_def split_beta)

lemma inv_poll:
  assumes "engine_inv_at cs (e, v)" "e_sending e = []" "e_phase e \<in> {Polling, Draining}"
  shows "\<exists>cs'. engine_inv_at cs' (poll (if e_phase e = Polling then CheckStop else Exited) e, v)"
proof -
  let ?ph = "if e_phase e = Polling then CheckStop else Exited"
  have "spsc_inv (e_commands e)" using assms(1) by (simp add: engine_inv_at_def)
  then show ?thesis
  proof (cases rule: poll_cases [where ph = ?ph])
    case (Cmd c q)
    then have "engine_inv_at (cs @ [c]) (poll ?ph e, v)"
      using assms by (auto simp: engine_inv_at_def executed_snoc simp del: run_commands_simps)
    then show ?thesis ..
  next
    case (Empty q)
    then have "engine_inv_at cs (poll ?ph e, v)"
      using assms by (auto simp: engine_inv_at_def)
    then show ?thesis ..
  qed
qed

lemma inv_send:
  assumes "engine_inv_at cs (e, v)" "e_sending e = ev # rest"
  shows "engine_inv_at cs (send_one ev rest e, v)"
proof -
  have inv: "spsc_inv (e_events e)" using assms(1) by (simp add: engine_inv_at_def)
  then show ?thesis
    using assms by (cases rule: ring.push_cases [where v = ev]) (auto simp: engine_inv_at_def send_one_def)
qed

lemma inv_thread:
  assumes "engine_inv_at cs (e, v)"
  shows "\<exists>cs'. engine_inv_at cs' (thread_step e, v)"
proof (cases "e_sending e")
  case Nil
  then show ?thesis
    using assms inv_poll [OF assms Nil]
    by (cases "e_phase e") (auto simp: thread_step_def engine_inv_at_def)
next
  case (Cons ev rest)
  then show ?thesis using inv_send [OF assms Cons] by (auto simp: thread_step_def)
qed

lemma inv_outside:
  assumes "engine_inv_at cs (e, v)" "a \<noteq> Tick"
  shows "engine_inv_at cs (engine_step a (e, v))"
proof (cases a)
  case (Submit c)
  have pre: "prefix bs (cs @ spsc_items (e_commands e)) \<Longrightarrow> prefix bs (cs @ spsc_items (e_commands e) @ [c])" for bs
    using prefix_prefix [of bs "cs @ spsc_items (e_commands e)" "[c]"] by simp
  have "spsc_inv (e_commands e)" using assms(1) by (simp add: engine_inv_at_def)
  then show ?thesis
    using assms(1) Submit pre
    by (cases rule: ring.push_cases [where v = c]) (auto simp: engine_inv_at_def)
next
  case Receive
  have "spsc_inv (e_events e)" using assms(1) by (simp add: engine_inv_at_def)
  then show ?thesis
    using assms(1) Receive by (cases rule: ring.pop_cases) (auto simp: engine_inv_at_def)
next
  case Stop
  then show ?thesis using assms(1) by (auto simp: engine_inv_at_def split: option.splits)
qed (use assms(2) in simp)

interpretation eng: machine engine_step engine_inv
proof
  fix st a
  assume "engine_inv st"
  moreover obtain e v where "st = (e, v)" by (cases st)
  ultimately show "engine_inv (engine_step a st)"
    using inv_thread inv_outside by (cases "a = Tick") (fastforce simp: engine_inv_def)+
qed

section \<open>The thread by itself\<close>

text \<open>With room for them, the events at hand are sent; with room for all their events, the commands in
  the ring are executed.\<close>

lemma thread_sends:
  assumes "spsc_inv (e_events e)" "length (spsc_items (e_events e)) + length (e_sending e) \<le> spsc_cap (e_events e)"
  shows "\<exists>k q. (thread_step ^^ k) e = e\<lparr>e_events := q, e_sending := []\<rparr> \<and> spsc_inv q \<and>
    spsc_items q = spsc_items (e_events e) @ e_sending e \<and> spsc_cap q = spsc_cap (e_events e)"
  using assms
proof (induction "e_sending e" arbitrary: e)
  case Nil
  then show ?case by (intro exI [of _ 0] exI [of _ "e_events e"]) simp
next
  case (Cons ev rest)
  from Cons.prems Cons.hyps(2) have "length (spsc_items (e_events e)) < spsc_cap (e_events e)"
    by (metis add_Suc_right le_imp_less_Suc length_Cons less_add_Suc1 less_le_trans)
  then obtain q where q: "spsc_push ev (e_events e) = (Inr (), q)" "spsc_inv q" "spsc_items q = spsc_items (e_events e) @ [ev]"
      "spsc_cap q = spsc_cap (e_events e)"
    using ring.push_room [OF Cons.prems(1), of ev] by blast
  let ?e = "e\<lparr>e_events := q, e_sending := rest\<rparr>"
  have step: "thread_step e = ?e" using q(1) Cons.hyps(2) by (auto simp: thread_step_def send_one_def split: list.split)
  obtain k q' where "(thread_step ^^ k) ?e = ?e\<lparr>e_events := q', e_sending := []\<rparr>" "spsc_inv q'"
      "spsc_items q' = spsc_items q @ rest" "spsc_cap q' = spsc_cap q"
    using Cons.hyps(1) [of ?e] Cons.prems(2) Cons.hyps(2) [symmetric] q by auto
  then show ?case
    using q(3,4) Cons.hyps(2) [symmetric] by (intro exI [of _ "Suc k"] exI [of _ q']) (simp add: funpow_swap1 step)
qed

lemma funpow_more: "(f ^^ j) ((f ^^ k) x) = (f ^^ (j + k)) x"
  by (simp add: funpow_add)

lemma thread_drains:
  assumes "spsc_inv (e_commands e)" "spsc_inv (e_events e)" "e_sending e = []" "e_phase e \<in> {Polling, Draining}"
    "length (spsc_items (e_events e)) + length (snd (run_commands (spsc_items (e_commands e)) (e_matcher e, []))) \<le> spsc_cap (e_events e)"
  shows "\<exists>k q q'. (thread_step ^^ k) e = e\<lparr>e_commands := q, e_events := q',
      e_matcher := fst (run_commands (spsc_items (e_commands e)) (e_matcher e, [])), e_sending := []\<rparr> \<and>
    spsc_inv q \<and> spsc_inv q' \<and> spsc_items q = []"
  using assms
proof (induction "spsc_items (e_commands e)" arbitrary: e)
  case Nil
  then show ?case by (intro exI [of _ 0] exI [of _ "e_commands e"] exI [of _ "e_events e"]) simp
next
  case (Cons c cs)
  let ?ph = "if e_phase e = Polling then CheckStop else Exited"
  obtain m es where m: "apply_command c (e_matcher e, []) = (m, es)" by (cases "apply_command c (e_matcher e, [])")
  have evs: "run_commands cs (m, es) = (fst (run_commands cs (m, [])), es @ snd (run_commands cs (m, [])))"
    using after_run_commands [of cs es "(m, [])"] by (simp add: after_def)
  have room: "length (spsc_items (e_events e)) + length es + length (snd (run_commands cs (m, []))) \<le> spsc_cap (e_events e)"
    using Cons.prems(5) by (simp add: m evs flip: Cons.hyps(2))
  obtain q where q: "poll ?ph e = e\<lparr>e_commands := q, e_matcher := m, e_sending := es\<rparr>" "spsc_inv q" "spsc_items q = cs"
    using Cons.prems(1) Cons.hyps(2) m by (cases rule: poll_cases [where ph = ?ph]) auto
  let ?e = "e\<lparr>e_commands := q, e_matcher := m, e_sending := es\<rparr>"
  have step: "thread_step e = ?e"
    using q(1) Cons.prems(3,4) by (auto simp: thread_step_def split: if_splits)
  obtain k q' where k: "(thread_step ^^ k) ?e = ?e\<lparr>e_events := q', e_sending := []\<rparr>" "spsc_inv q'"
      "spsc_items q' = spsc_items (e_events e) @ es" "spsc_cap q' = spsc_cap (e_events e)"
    using thread_sends [of ?e] Cons.prems(2) room by auto
  let ?e' = "?e\<lparr>e_events := q', e_sending := []\<rparr>"
  obtain j r r' where j: "(thread_step ^^ j) ?e' = ?e'\<lparr>e_commands := r, e_events := r',
      e_matcher := fst (run_commands cs (m, [])), e_sending := []\<rparr>" "spsc_inv r" "spsc_inv r'" "spsc_items r = []"
    using Cons.hyps(1) [of ?e'] q k(2-4) Cons.prems(4) room by auto
  have "(thread_step ^^ (j + Suc k)) e = (thread_step ^^ j) ?e'"
    using k(1) by (simp add: step funpow_swap1 flip: funpow_more)
  with j show ?case
    by (intro exI [of _ "j + Suc k"] exI [of _ r] exI [of _ r']) (simp add: m evs flip: Cons.hyps(2))
qed

definition exits :: "engine \<Rightarrow> bool" where
  "exits e \<longleftrightarrow> (\<exists>k. e_phase ((thread_step ^^ k) e) = Exited)"

lemma exits_later: "exits ((thread_step ^^ k) e) \<Longrightarrow> exits e"
  unfolding exits_def funpow_more by blast

lemma exits_next: "exits (thread_step e) \<Longrightarrow> exits e"
  using exits_later [of 1] by simp

text \<open>A thread with nothing to send, told to stop, and with room for all that is still to come.\<close>

definition ready :: "engine \<Rightarrow> bool" where
  "ready e \<longleftrightarrow> spsc_inv (e_commands e) \<and> spsc_inv (e_events e) \<and> e_sending e = [] \<and> e_stop_flag e \<and>
     length (spsc_items (e_events e)) + length (snd (run_commands (spsc_items (e_commands e)) (e_matcher e, []))) \<le> spsc_cap (e_events e)"

lemma ready_drains:
  assumes "ready e" "e_phase e \<in> {Polling, Draining}"
  obtains k e' where "(thread_step ^^ k) e = e'" "ready e'" "e_phase e' = e_phase e" "spsc_items (e_commands e') = []"
proof -
  obtain k q q' where k: "(thread_step ^^ k) e = e\<lparr>e_commands := q, e_events := q',
      e_matcher := fst (run_commands (spsc_items (e_commands e)) (e_matcher e, [])), e_sending := []\<rparr>"
      "spsc_inv q" "spsc_inv q'" "spsc_items q = []"
    using thread_drains [of e] assms by (auto simp: ready_def)
  have "ready ((thread_step ^^ k) e)"
    using k assms ring.bounded [OF k(3)] by (simp add: ready_def)
  with k show thesis by (intro that [of k, OF refl]) simp_all
qed

lemma poll_empty:
  assumes "spsc_inv (e_commands e)" "spsc_items (e_commands e) = []"
  shows "\<exists>q. poll ph e = e\<lparr>e_commands := q, e_phase := ph\<rparr> \<and> spsc_inv q \<and> spsc_items q = []"
  using assms(1) by (cases rule: poll_cases [where ph = ph]) (use assms(2) in auto)

lemma exits_draining:
  assumes "ready e" "e_phase e = Draining"
  shows "exits e"
proof -
  obtain k e' where k: "(thread_step ^^ k) e = e'" "ready e'" "e_phase e' = Draining" "spsc_items (e_commands e') = []"
    using ready_drains [OF assms(1)] assms(2) by auto
  then have "e_phase (thread_step e') = Exited"
    using poll_empty [of e' Exited] by (auto simp: thread_step_def ready_def)
  then have "exits e'" unfolding exits_def by (intro exI [of _ 1]) simp
  with k(1) show ?thesis using exits_later by blast
qed

lemma exits_check:
  assumes "ready e" "e_phase e = CheckStop"
  shows "exits e"
proof (rule exits_next, rule exits_draining)
  show "ready (thread_step e)" "e_phase (thread_step e) = Draining"
    using assms by (simp_all add: thread_step_def ready_def)
qed

lemma exits_polling:
  assumes "ready e" "e_phase e = Polling"
  shows "exits e"
proof -
  obtain k e' where k: "(thread_step ^^ k) e = e'" "ready e'" "e_phase e' = Polling" "spsc_items (e_commands e') = []"
    using ready_drains [OF assms(1)] assms(2) by auto
  then obtain q where "thread_step e' = e'\<lparr>e_commands := q, e_phase := CheckStop\<rparr>" "spsc_inv q" "spsc_items q = []"
    using poll_empty [of e' CheckStop] by (auto simp: thread_step_def ready_def)
  then have "exits (thread_step e')"
    using k(2,4) by (intro exits_check) (simp_all add: ready_def)
  with k(1) show ?thesis using exits_next exits_later by blast
qed

lemma thread_exits:
  assumes "engine_inv_at cs (e, v)" "e_stop_flag e"
    "length (snd (executed (v_accepted v))) \<le> length (v_received v) + spsc_cap (e_events e)"
  shows "exits e"
proof -
  let ?run = "run_commands (spsc_items (e_commands e)) (e_matcher e, [])"
  have inv: "spsc_inv (e_commands e)" "spsc_inv (e_events e)" "v_accepted v = cs @ spsc_items (e_commands e)"
    "e_matcher e = fst (executed cs)" "snd (executed cs) = v_received v @ spsc_items (e_events e) @ e_sending e"
    "e_phase e \<noteq> Undefined"
    using assms(1) by (simp_all add: engine_inv_at_def)
  have "executed (v_accepted v) = after (snd (executed cs)) ?run"
    using after_run_commands [of "spsc_items (e_commands e)" "snd (executed cs)" "(fst (executed cs), [])"] inv(3,4)
    by (simp add: after_def)
  then have room: "length (spsc_items (e_events e)) + length (e_sending e) + length (snd ?run) \<le> spsc_cap (e_events e)"
    using assms(3) inv(5) by simp
  then obtain k q where k: "(thread_step ^^ k) e = e\<lparr>e_events := q, e_sending := []\<rparr>" "spsc_inv q"
      "spsc_items q = spsc_items (e_events e) @ e_sending e" "spsc_cap q = spsc_cap (e_events e)"
    using thread_sends [of e] inv(2) by auto
  let ?e = "e\<lparr>e_events := q, e_sending := []\<rparr>"
  have "ready ?e" using k inv room assms(2) by (simp add: ready_def)
  then have "exits ?e"
    using exits_polling [of ?e] exits_check [of ?e] exits_draining [of ?e] inv(6)
    by (cases "e_phase e") (auto simp: exits_def intro: exI [of _ 0])
  with k(1) show ?thesis using exits_later by metis
qed

section \<open>Guarantees\<close>

lemma reachable_inv:
  assumes "fold engine_step acts (engine_start cc ec, view_new) = (e, v)" "unat cc \<le> 2 ^ 63" "unat ec \<le> 2 ^ 63"
  obtains cs where "engine_inv_at cs (e, v)"
proof -
  have "engine_inv (engine_start cc ec, view_new)" using engine_inv_start [OF assms(2,3)] by (auto simp: engine_inv_def)
  then show thesis using eng.inv_run [of _ acts] assms(1) that by (fastforce simp: engine_inv_def)
qed

text \<open>Sample schedules: an order and its cancel around a stop, and two orders that trade, with nobody
  receiving the five events through a queue of two.\<close>

definition engine_order :: "order_id \<Rightarrow> side \<Rightarrow> command" where
  "engine_order i s = New \<lparr>no_id = i, no_side = s, no_qty = 1, no_kind = Limit (Price 100), no_timestamp = 0\<rparr>"

definition sample_schedule :: "engine_action list" where
  "sample_schedule = [Submit (engine_order 1 Buy), Tick, Tick, Receive, Submit (Cancel 1), Stop]"

definition sample_engine :: "engine \<times> engine_view" where
  "sample_engine = fold engine_step sample_schedule (engine_start 2 2, view_new)"

definition stopped_engine :: "engine \<times> engine_view" where
  "stopped_engine = fold engine_step (replicate 5 Tick) sample_engine"

definition stalled_engine :: "engine \<times> engine_view" where
  "stalled_engine = fold engine_step ([Submit (engine_order 1 Buy), Submit (engine_order 2 Sell)] @ replicate 5 Tick) (engine_start 2 2, view_new)"

lemma sample_engine_run:
  "fold engine_step sample_schedule (engine_start 2 2, view_new) = (fst sample_engine, snd sample_engine)"
  "fold engine_step (sample_schedule @ replicate 5 Tick) (engine_start 2 2, view_new) = (fst stopped_engine, snd stopped_engine)"
  by (simp_all add: sample_engine_def stopped_engine_def)

text \<open>C21. The engine is the matcher behind two queues. Whatever the gateway, the thread, the publisher and the
  one who stops the engine do in whatever order, the thread has executed a prefix of the commands whose
  submission succeeded, in that order and each once; its matcher is that of a direct run of this prefix; and the
  events received so far are a prefix of the events of that run. No undefined read occurs.\<close>

theorem engine_runs_matcher:
  assumes "fold engine_step acts (engine_start cc ec, view_new) = (e, v)" "unat cc \<le> 2 ^ 63" "unat ec \<le> 2 ^ 63"
  shows "\<exists>cs. prefix cs (v_accepted v) \<and> e_matcher e = fst (run_commands cs (matcher_new, [])) \<and>
    prefix (v_received v) (snd (run_commands cs (matcher_new, []))) \<and> e_phase e \<noteq> Undefined"
proof (rule reachable_inv [OF assms])
  fix cs
  assume "engine_inv_at cs (e, v)"
  then show ?thesis by (intro exI [of _ cs]) (simp add: engine_inv_at_def)
qed

theorem engine_runs_matcher_witness:
  "\<exists>cs. prefix cs [engine_order 1 Buy, Cancel 1] \<and> e_matcher (fst sample_engine) = fst (run_commands cs (matcher_new, [])) \<and>
    prefix [Accepted 1 1 1] (snd (run_commands cs (matcher_new, []))) \<and> e_phase (fst sample_engine) \<noteq> Undefined"
proof -
  have "v_accepted (snd sample_engine) = [engine_order 1 Buy, Cancel 1]" "v_received (snd sample_engine) = [Accepted 1 1 1]"
    by code_simp+
  then show ?thesis using engine_runs_matcher [OF sample_engine_run(1)] by simp
qed

text \<open>Stopping loses nothing: when the thread has returned, every command submitted successfully before
  the request to stop has been executed, and the events received together with those left in the event
  queue are all the events of the executed commands.\<close>

theorem engine_stop_loses_nothing:
  assumes "fold engine_step acts (engine_start cc ec, view_new) = (e, v)" "unat cc \<le> 2 ^ 63" "unat ec \<le> 2 ^ 63"
    "e_phase e = Exited"
  shows "\<exists>cs before. v_before_stop v = Some before \<and> prefix before cs \<and> prefix cs (v_accepted v) \<and>
    run_commands cs (matcher_new, []) = (e_matcher e, v_received v @ spsc_items (e_events e))"
proof (rule reachable_inv [OF assms(1-3)])
  fix cs
  assume inv: "engine_inv_at cs (e, v)"
  then obtain before where "v_before_stop v = Some before" "prefix before cs"
    using assms(4) by (auto simp: engine_inv_at_def)
  with inv assms(4) show ?thesis
    by (intro exI [of _ cs] exI [of _ before]) (simp add: engine_inv_at_def prod_eq_iff)
qed

theorem engine_stop_loses_nothing_witness:
  "\<exists>cs. prefix [engine_order 1 Buy, Cancel 1] cs \<and> prefix cs [engine_order 1 Buy, Cancel 1] \<and>
    run_commands cs (matcher_new, []) = (e_matcher (fst stopped_engine), [Accepted 1 1 1, Done 1 1 Cancelled 2])"
proof -
  have "v_accepted (snd stopped_engine) = [engine_order 1 Buy, Cancel 1]" "v_received (snd stopped_engine) = [Accepted 1 1 1]"
    "v_before_stop (snd stopped_engine) = Some [engine_order 1 Buy, Cancel 1]" "e_phase (fst stopped_engine) = Exited"
    "spsc_items (e_events (fst stopped_engine)) = [Done 1 1 Cancelled 2]"
    by code_simp+
  then show ?thesis using engine_stop_loses_nothing [OF sample_engine_run(2)] by simp
qed

text \<open>Stopping returns: once the stop flag is set, the thread left to itself returns after finitely many
  turns, provided the event queue can hold the events of all accepted commands that have not been received.\<close>

theorem engine_stop_returns:
  assumes "fold engine_step acts (engine_start cc ec, view_new) = (e, v)" "unat cc \<le> 2 ^ 63" "unat ec \<le> 2 ^ 63"
    "e_stop_flag e"
    "length (snd (run_commands (v_accepted v) (matcher_new, []))) \<le> length (v_received v) + spsc_cap (e_events e)"
  shows "\<exists>k. e_phase (fst (fold engine_step (replicate k Tick) (e, v))) = Exited"
proof (rule reachable_inv [OF assms(1-3)])
  fix cs
  assume "engine_inv_at cs (e, v)"
  then obtain k where k: "e_phase ((thread_step ^^ k) e) = Exited"
    using thread_exits [OF _ assms(4,5)] by (auto simp: exits_def)
  have "fold engine_step (replicate k Tick) (e, v) = ((thread_step ^^ k) e, v)" for k
    by (induction k arbitrary: e) (simp_all add: funpow_swap1)
  with k show ?thesis by (intro exI [of _ k]) simp
qed

theorem engine_stop_returns_witness:
  "\<exists>k. e_phase (fst (fold engine_step (replicate k Tick) (fst sample_engine, snd sample_engine))) = Exited"
proof (rule engine_stop_returns [OF sample_engine_run(1)])
  have "e_stop_flag (fst sample_engine)"
    "length (snd (run_commands (v_accepted (snd sample_engine)) (matcher_new, []))) \<le>
       length (v_received (snd sample_engine)) + spsc_cap (e_events (fst sample_engine))"
    by code_simp+
  then show "e_stop_flag (fst sample_engine)"
    "length (snd (run_commands (v_accepted (snd sample_engine)) (matcher_new, []))) \<le>
       length (v_received (snd sample_engine)) + spsc_cap (e_events (fst sample_engine))" .
qed simp_all

text \<open>Without a reader the engine stalls: while the event queue is full and an event is to be sent, the
  thread stays where it is for as many turns as it takes, whether or not it was told to stop, so that \<open>stop\<close>,
  which waits for it, does not return unless somebody receives events.\<close>

theorem engine_stalls_when_full:
  assumes "spsc_inv (e_events e)" "length (spsc_items (e_events e)) = spsc_cap (e_events e)" "e_sending e \<noteq> []"
  shows "\<exists>q. (thread_step ^^ k) e = e\<lparr>e_events := q\<rparr> \<and> spsc_items q = spsc_items (e_events e)"
proof -
  obtain ev rest where send: "e_sending e = ev # rest" using assms(3) by (cases "e_sending e") auto
  have "\<exists>q. (thread_step ^^ k) e = e\<lparr>e_events := q\<rparr> \<and> spsc_inv q \<and> spsc_items q = spsc_items (e_events e) \<and>
      spsc_cap q = spsc_cap (e_events e)"
  proof (induction k)
    case 0
    then show ?case using assms(1) by (intro exI [of _ "e_events e"]) simp
  next
    case (Suc k)
    then obtain q where q: "(thread_step ^^ k) e = e\<lparr>e_events := q\<rparr>" "spsc_inv q" "spsc_items q = spsc_items (e_events e)"
        "spsc_cap q = spsc_cap (e_events e)" by blast
    obtain q' where "spsc_push ev q = (Inl ev, q')" "spsc_inv q'" "spsc_items q' = spsc_items q" "spsc_cap q' = spsc_cap q"
      using ring.push_full [OF q(2), of ev] q(3,4) assms(2) by auto
    moreover from this(1) have "thread_step (e\<lparr>e_events := q\<rparr>) = e\<lparr>e_events := q'\<rparr>"
      using send by (cases e) (simp add: thread_step_def send_one_def)
    ultimately show ?case using q by (intro exI [of _ q']) simp
  qed
  then show ?thesis by blast
qed

theorem engine_stalls_when_full_witness:
  "\<exists>q. (thread_step ^^ 1000) (fst stalled_engine) = (fst stalled_engine)\<lparr>e_events := q\<rparr> \<and>
     spsc_items q = spsc_items (e_events (fst stalled_engine))"
proof (rule engine_stalls_when_full)
  have run: "fold engine_step ([Submit (engine_order 1 Buy), Submit (engine_order 2 Sell)] @ replicate 5 Tick) (engine_start 2 2, view_new) =
      (fst stalled_engine, snd stalled_engine)" by (simp add: stalled_engine_def)
  show "spsc_inv (e_events (fst stalled_engine))"
    by (rule reachable_inv [OF run]) (simp_all add: engine_inv_at_def split_beta)
  have "length (spsc_items (e_events (fst stalled_engine))) = spsc_cap (e_events (fst stalled_engine)) \<and> e_sending (fst stalled_engine) \<noteq> []"
    by code_simp
  then show "length (spsc_items (e_events (fst stalled_engine))) = spsc_cap (e_events (fst stalled_engine))" "e_sending (fst stalled_engine) \<noteq> []"
    by simp_all
qed

end
