(* ===== verification/Engine_Stop.thy ===== *)
theory Engine_Stop
  imports Engine
begin

text \<open>
  \<open>Engine::stop\<close> of \<^verbatim>\<open>bourse-core/src/engine.rs\<close>: set the flag and join the matcher thread. Joining runs the
  thread until it returns, which it may never do; not returning is \<open>None\<close>. \<open>stop\<close> consumes both halves of the
  engine, so that nobody else acts meanwhile.
\<close>

section \<open>Stopping\<close>

partial_function (option) join_thread :: "engine \<Rightarrow> matcher option" where
  "join_thread e = (if e_phase e = Exited then Some (e_matcher e) else join_thread (thread_step e))"

definition engine_stop :: "engine \<Rightarrow> matcher option" where
  "engine_stop e = join_thread (e\<lparr>e_stop_flag := True\<rparr>)"

text \<open>Dropping an engine that still has its thread stops it and throws the matcher away.\<close>

definition engine_drop :: "engine \<Rightarrow> unit option" where
  "engine_drop e = map_option (\<lambda>_. ()) (engine_stop e)"

lemma exited_stays: "e_phase e = Exited \<Longrightarrow> e_phase (thread_step e) = Exited \<and> e_matcher (thread_step e) = e_matcher e"
  by (auto simp: thread_step_def send_one_def split: list.split sum.split prod.split)

lemma join_exits: "e_phase ((thread_step ^^ k) e) = Exited \<Longrightarrow> join_thread e = Some (e_matcher ((thread_step ^^ k) e))"
proof (induction k arbitrary: e)
  case (Suc k)
  have IH: "join_thread (thread_step e) = Some (e_matcher ((thread_step ^^ Suc k) e))"
    using Suc by (simp add: funpow_swap1)
  show ?case
  proof (cases "e_phase e = Exited")
    case True
    then show ?thesis
      using IH exited_stays [OF True] by (subst join_thread.simps) (simp add: join_thread.simps [of "thread_step e"])
  qed (use IH in \<open>subst join_thread.simps, simp\<close>)
qed (simp add: join_thread.simps)

lemma join_returns:
  assumes "join_thread e = Some m"
  shows "\<exists>k. e_phase ((thread_step ^^ k) e) = Exited"
proof (rule join_thread.raw_induct [where P = "\<lambda>e m. \<exists>k. e_phase ((thread_step ^^ k) e) = Exited", OF _ assms])
  fix f e m
  assume IH: "\<And>e m. f e = Some m \<Longrightarrow> \<exists>k. e_phase ((thread_step ^^ k) e) = Exited"
    and eq: "(if e_phase e = Exited then Some (e_matcher e) else f (thread_step e)) = Some m"
  show "\<exists>k. e_phase ((thread_step ^^ k) e) = Exited"
  proof (cases "e_phase e = Exited")
    case False
    then obtain k where "e_phase ((thread_step ^^ k) (thread_step e)) = Exited" using IH eq by (auto split: if_splits)
    then show ?thesis by (intro exI [of _ "Suc k"]) (simp add: funpow_swap1)
  qed (intro exI [of _ 0], simp)
qed

lemma ticks_thread: "fold engine_step (replicate k Tick) (e, v) = ((thread_step ^^ k) e, v)"
  by (induction k arbitrary: e) (simp_all add: funpow_swap1)

text \<open>Where a stopped engine returns, all accepted commands are executed and the events not received are in the
  event queue.\<close>

lemma stopped_all:
  assumes "engine_inv_at cs (e, v)" "v_before_stop v = Some (v_accepted v)" "e_phase e = Exited"
  shows "executed (v_accepted v) = (e_matcher e, v_received v @ spsc_items (e_events e))"
    "length (spsc_items (e_events e)) \<le> spsc_cap (e_events e)"
proof -
  have "cs = v_accepted v" using assms by (auto simp: engine_inv_at_def prefix_def)
  then show "executed (v_accepted v) = (e_matcher e, v_received v @ spsc_items (e_events e))"
    using assms(1,3) by (simp add: engine_inv_at_def prod_eq_iff)
  show "length (spsc_items (e_events e)) \<le> spsc_cap (e_events e)"
    using assms(1) by (intro ring.bounded) (simp add: engine_inv_at_def)
qed

lemma cap_push: "spsc_inv q \<Longrightarrow> spsc_push x q = (r, q') \<Longrightarrow> spsc_cap q' = spsc_cap q"
  by (cases rule: ring.push_cases [where v = x]) auto

lemma cap_thread: "engine_inv_at cs (e, v) \<Longrightarrow> spsc_cap (e_events (thread_step e)) = spsc_cap (e_events e)"
  using cap_push [of "e_events e"]
  by (auto simp: thread_step_def send_one_def poll_def drain_one_def engine_inv_at_def try_bind_def
      split: list.split loop_phase.split sum.split prod.split option.split)

lemma cap_threads: "engine_inv_at cs (e, v) \<Longrightarrow> spsc_cap (e_events ((thread_step ^^ k) e)) = spsc_cap (e_events e)"
proof (induction k arbitrary: cs e)
  case (Suc k)
  then show ?case using inv_thread [OF Suc.prems] cap_thread [OF Suc.prems] by (auto simp: funpow_swap1)
qed simp

section \<open>Guarantees\<close>

text \<open>C22. Stopping an engine that nobody has stopped before returns exactly when the events that were not received fit
  in the event queue, and then with the matcher that has executed every accepted command. Otherwise the
  thread is waiting for room in a queue whose reader is gone, and \<open>stop\<close> never returns.\<close>

theorem engine_stop_exact:
  assumes "fold engine_step acts (engine_start cc ec, view_new) = (e, v)" "unat cc \<le> 2 ^ 63" "unat ec \<le> 2 ^ 63"
    "\<not> e_stop_flag e"
  shows "engine_stop e =
    (if length (snd (run_commands (v_accepted v) (matcher_new, []))) \<le> length (v_received v) + spsc_cap (e_events e)
     then Some (fst (run_commands (v_accepted v) (matcher_new, []))) else None)"
proof -
  let ?e = "e\<lparr>e_stop_flag := True\<rparr>" and ?v = "v\<lparr>v_before_stop := Some (v_accepted v)\<rparr>"
  let ?run = "run_commands (v_accepted v) (matcher_new, [])"
  obtain cs where inv: "engine_inv_at cs (e, v)" by (rule reachable_inv [OF assms(1-3)])
  have "v_before_stop v = None" using inv assms(4) by (simp add: engine_inv_at_def)
  with inv inv_outside [OF inv, of Stop] have inv': "engine_inv_at cs (?e, ?v)" by simp
  have at_exit: "?run = (e_matcher ((thread_step ^^ k) ?e), v_received v @ spsc_items (e_events ((thread_step ^^ k) ?e))) \<and>
      length (snd ?run) \<le> length (v_received v) + spsc_cap (e_events e)"
    if "e_phase ((thread_step ^^ k) ?e) = Exited" for k
  proof -
    have "engine_inv (?e, ?v)" using inv' by (auto simp: engine_inv_def)
    from eng.inv_run [OF this, of "replicate k Tick"] obtain cs' where "engine_inv_at cs' ((thread_step ^^ k) ?e, ?v)"
      unfolding ticks_thread engine_inv_def by blast
    from stopped_all [OF this _ that] cap_threads [OF inv', of k] show ?thesis by auto
  qed
  show ?thesis
  proof (cases "length (snd ?run) \<le> length (v_received v) + spsc_cap (e_events e)")
    case True
    then obtain k where "e_phase ((thread_step ^^ k) ?e) = Exited"
      using thread_exits [OF inv'] by (auto simp: exits_def)
    with join_exits [OF this] at_exit [OF this] True show ?thesis by (simp add: engine_stop_def)
  next
    case False
    then show ?thesis using at_exit join_returns [of ?e] by (cases "join_thread ?e") (auto simp: engine_stop_def)
  qed
qed

theorem engine_stop_exact_witness:
  "engine_stop (fst stalled_engine) = None \<and>
   engine_stop (fst (fold engine_step [Submit (engine_order 1 Buy)] (engine_start 2 2, view_new))) =
     Some (fst (run_commands [engine_order 1 Buy] (matcher_new, [])))"
proof
  have "\<not> length (snd (run_commands (v_accepted (snd stalled_engine)) (matcher_new, []))) \<le>
      length (v_received (snd stalled_engine)) + spsc_cap (e_events (fst stalled_engine))" "\<not> e_stop_flag (fst stalled_engine)"
    by code_simp+
  moreover have run: "fold engine_step ([Submit (engine_order 1 Buy), Submit (engine_order 2 Sell)] @ replicate 5 Tick) (engine_start 2 2, view_new) =
      (fst stalled_engine, snd stalled_engine)" by (simp add: stalled_engine_def)
  ultimately show "engine_stop (fst stalled_engine) = None" using engine_stop_exact [OF run] by simp
next
  define st where "st = fold engine_step [Submit (engine_order 1 Buy)] (engine_start 2 2, view_new)"
  have "v_accepted (snd st) = [engine_order 1 Buy]" "\<not> e_stop_flag (fst st)" "v_received (snd st) = []" "spsc_cap (e_events (fst st)) = 2"
    "length (snd (run_commands [engine_order 1 Buy] (matcher_new, []))) = 1"
    unfolding st_def by code_simp+
  then show "engine_stop (fst (fold engine_step [Submit (engine_order 1 Buy)] (engine_start 2 2, view_new))) =
     Some (fst (run_commands [engine_order 1 Buy] (matcher_new, [])))"
    using engine_stop_exact [of "[Submit (engine_order 1 Buy)]" 2 2 "fst st" "snd st"] by (simp add: st_def)
qed

end
