(* ===== verification/Engine_Split.thy ===== *)
theory Engine_Split
  imports Engine_Stop
begin

text \<open>
  The engine after \<open>Engine::split\<close> of \<^verbatim>\<open>bourse-core/src/engine.rs\<close>: gateway and publisher own the two halves and go on working
  while the owner of the \<open>EngineHandle\<close> stops the thread. \<open>EngineHandle::stop\<close> runs against an endless schedule of what
  the gateway, the publisher and the thread do meanwhile.
\<close>

section \<open>Stopping through the handle\<close>

partial_function (option) join_among :: "(nat \<Rightarrow> engine_action) \<Rightarrow> nat \<Rightarrow> engine \<times> engine_view \<Rightarrow> matcher option" where
  "join_among acts k st =
     (if e_phase (fst st) = Exited then Some (e_matcher (fst st)) else join_among acts (Suc k) (engine_step (acts k) st))"

definition handle_stop :: "(nat \<Rightarrow> engine_action) \<Rightarrow> engine \<times> engine_view \<Rightarrow> matcher option" where
  "handle_stop acts st = join_among acts 0 (engine_step Stop st)"

fun is_submit :: "engine_action \<Rightarrow> bool" where
  "is_submit (Submit c) = True"
| "is_submit _ = False"

text \<open>The join returns at the first state in which the thread has returned.\<close>

lemma join_at:
  "e_phase (fst (run_at engine_step acts st (k + n))) = Exited \<Longrightarrow>
    \<exists>j. e_phase (fst (run_at engine_step acts st j)) = Exited \<and>
      join_among acts k (run_at engine_step acts st k) = Some (e_matcher (fst (run_at engine_step acts st j)))"
proof (induction n arbitrary: k)
  case 0
  then show ?case by (intro exI [of _ k]) (simp add: join_among.simps)
next
  case (Suc n)
  show ?case
  proof (cases "e_phase (fst (run_at engine_step acts st k)) = Exited")
    case True
    then show ?thesis by (intro exI [of _ k]) (simp add: join_among.simps)
  next
    case False
    have "e_phase (fst (run_at engine_step acts st (Suc k + n))) = Exited" using Suc.prems by simp
    from Suc.IH [OF this] False show ?thesis by (simp add: join_among.simps [of acts k])
  qed
qed

section \<open>What is left to do\<close>

fun phase_rank :: "loop_phase \<Rightarrow> nat" where
  "phase_rank Polling = 3"
| "phase_rank CheckStop = 2"
| "phase_rank Draining = 1"
| "phase_rank _ = 0"

text \<open>The events of all accepted commands that are not yet in the event queue or received.\<close>

definition unsent :: "engine \<times> engine_view \<Rightarrow> nat" where
  "unsent st = (case st of (e, v) \<Rightarrow>
     length (snd (executed (v_accepted v))) - length (v_received v) - length (spsc_items (e_events e)))"

definition stop_rank :: "engine \<times> engine_view \<Rightarrow> nat" where
  "stop_rank st = (case st of (e, v) \<Rightarrow>
     2 * unsent (e, v) + length (spsc_items (e_events e)) + length (spsc_items (e_commands e)) + phase_rank (e_phase e))"

definition blocked :: "engine \<Rightarrow> bool" where
  "blocked e \<longleftrightarrow> e_sending e \<noteq> [] \<and> length (spsc_items (e_events e)) = spsc_cap (e_events e)"

definition unblocks :: "engine \<times> engine_view \<Rightarrow> engine_action" where
  "unblocks st = (if blocked (fst st) then Receive else Tick)"

definition stopping :: "engine \<times> engine_view \<Rightarrow> bool" where
  "stopping st \<longleftrightarrow> engine_inv st \<and> e_stop_flag (fst st)"

lemma unsent_sending:
  assumes "engine_inv_at cs (e, v)"
  shows "length (e_sending e) \<le> unsent (e, v)"
proof -
  have "executed (v_accepted v) = run_commands (spsc_items (e_commands e)) (executed cs)"
    using assms by (simp add: engine_inv_at_def)
  then have "snd (executed (v_accepted v)) = snd (executed cs) @ snd (run_commands (spsc_items (e_commands e)) (fst (executed cs), []))"
    using after_run_commands [of "spsc_items (e_commands e)" "snd (executed cs)" "(fst (executed cs), [])"] by (simp add: after_def)
  then show ?thesis using assms by (simp add: unsent_def engine_inv_at_def)
qed

lemma cap_positive: "spsc_inv q \<Longrightarrow> 0 < spsc_cap q"
  using shapeD(1) by (fastforce simp: spsc_inv_def spsc_cap_def ring_ok_def)

lemma tick_sends:
  assumes "engine_inv_at cs (e, v)" "e_sending e = ev # rest"
  shows "if blocked e then stop_rank (thread_step e, v) = stop_rank (e, v) \<and> blocked (thread_step e)
    else stop_rank (thread_step e, v) < stop_rank (e, v)"
proof -
  have inv: "spsc_inv (e_events e)" using assms(1) by (simp add: engine_inv_at_def)
  have some: "0 < unsent (e, v)" using unsent_sending [OF assms(1)] assms(2) by simp
  show ?thesis
    using inv
  proof (cases rule: ring.push_cases [where v = ev])
    case (Room q)
    then have "thread_step e = e\<lparr>e_events := q, e_sending := rest\<rparr>" using assms(2) by (simp add: thread_step_def send_one_def)
    with Room some assms(2) show ?thesis by (auto simp: stop_rank_def unsent_def blocked_def)
  next
    case (Full q)
    then have "thread_step e = e\<lparr>e_events := q, e_sending := ev # rest\<rparr>" using assms(2) by (simp add: thread_step_def send_one_def)
    with Full assms(2) show ?thesis by (auto simp: stop_rank_def unsent_def blocked_def)
  qed
qed

lemma tick_polls:
  assumes "engine_inv_at cs (e, v)" "e_stop_flag e" "e_sending e = []" "e_phase e \<noteq> Exited"
  shows "e_phase (thread_step e) = Exited \<or> stop_rank (thread_step e, v) < stop_rank (e, v)"
proof -
  have inv: "spsc_inv (e_commands e)" using assms(1) by (simp add: engine_inv_at_def)
  show ?thesis
  proof (cases "e_phase e")
    case Polling
    from inv show ?thesis
      by (cases rule: poll_cases [where ph = CheckStop]) (use Polling assms(3) in \<open>auto simp: thread_step_def stop_rank_def unsent_def\<close>)
  next
    case Draining
    from inv show ?thesis
      by (cases rule: poll_cases [where ph = Exited]) (use Draining assms(3) in \<open>auto simp: thread_step_def stop_rank_def unsent_def\<close>)
  qed (use assms in \<open>auto simp: thread_step_def stop_rank_def unsent_def engine_inv_at_def\<close>)
qed

lemma tick_ranks:
  assumes "engine_inv_at cs (e, v)" "e_stop_flag e" "e_phase e \<noteq> Exited"
  shows "if blocked e then stop_rank (thread_step e, v) = stop_rank (e, v) \<and> blocked (thread_step e)
    else e_phase (thread_step e) = Exited \<or> stop_rank (thread_step e, v) < stop_rank (e, v)"
proof (cases "e_sending e")
  case Nil
  then show ?thesis using tick_polls [OF assms(1,2) Nil assms(3)] by (simp add: blocked_def)
next
  case (Cons ev rest)
  then show ?thesis using tick_sends [OF assms(1) Cons] by simp
qed

lemma receive_ranks:
  assumes "engine_inv_at cs (e, v)"
  shows "if spsc_items (e_events e) = [] then stop_rank (engine_step Receive (e, v)) = stop_rank (e, v) \<and>
      blocked (fst (engine_step Receive (e, v))) = blocked e
    else stop_rank (engine_step Receive (e, v)) < stop_rank (e, v)"
proof -
  have "spsc_inv (e_events e)" using assms by (simp add: engine_inv_at_def)
  then show ?thesis by (cases rule: ring.pop_cases) (auto simp: stop_rank_def unsent_def blocked_def)
qed

lemma stopping_machine: "machine engine_step stopping"
proof
  fix st :: "engine \<times> engine_view" and a
  assume *: "stopping st"
  obtain e v where st: "st = (e, v)" by (cases st)
  have "e_stop_flag (fst (engine_step a (e, v)))"
    using * st by (cases a) (auto simp: stopping_def thread_step_def send_one_def poll_def drain_one_def try_bind_def
      split: list.split loop_phase.split sum.split prod.split option.split)
  then show "stopping (engine_step a st)" using eng.inv_step [of st a] * by (simp add: stopping_def st)
qed

interpretation stop_live: fair_progress engine_step stopping "\<lambda>a. \<not> is_submit a" "\<lambda>st. e_phase (fst st) = Exited" stop_rank unblocks
proof
  fix st :: "engine \<times> engine_view" and a
  assume "stopping st"
  moreover obtain e v where st: "st = (e, v)" by (cases st)
  ultimately obtain cs where inv: "engine_inv_at cs (e, v)" "e_stop_flag e" by (auto simp: stopping_def engine_inv_def)
  show "stopping (engine_step a st)" using machine.inv_step [OF stopping_machine \<open>stopping st\<close>] .
  assume going: "e_phase (fst st) \<noteq> Exited"
  have full: "spsc_items (e_events e) \<noteq> []" if "blocked e"
    using that cap_positive [of "e_events e"] inv(1) by (auto simp: blocked_def engine_inv_at_def)
  note tick = tick_ranks [OF inv, of] and rec = receive_ranks [OF inv(1)]
  show "e_phase (fst (engine_step (unblocks st) st)) = Exited \<or> stop_rank (engine_step (unblocks st) st) < stop_rank st"
    using tick rec full going by (auto simp: st unblocks_def split: if_splits)
  assume "\<not> is_submit a"
  then consider "a = Tick" | "a = Receive" | "a = Stop" by (cases a) auto
  then show "e_phase (fst (engine_step a st)) = Exited \<or> stop_rank (engine_step a st) < stop_rank st \<or>
      stop_rank (engine_step a st) = stop_rank st \<and> unblocks (engine_step a st) = unblocks st"
  proof cases
    case 3
    then show ?thesis by (simp add: st stop_rank_def unsent_def unblocks_def blocked_def)
  qed (use tick rec going in \<open>auto simp: st unblocks_def split: if_splits\<close>)
qed

section \<open>Guarantees\<close>

text \<open>C23. With a publisher that keeps reading, the engine always stops. Whatever the gateway, the publisher and the thread do while the
  handle waits, in any interleaving in which the thread keeps getting turns, the publisher keeps polling and the gateway
  at some time stops submitting, \<open>EngineHandle::stop\<close> returns, however small the event queue; the matcher
  has executed all commands accepted before the call, in order, and possibly some of those accepted after it.\<close>

theorem split_engine_stops:
  assumes "fold engine_step pre (engine_start cc ec, view_new) = (e, v)" "unat cc \<le> 2 ^ 63" "unat ec \<le> 2 ^ 63" "\<not> e_stop_flag e"
    "recurs Tick acts" "recurs Receive acts" "\<forall>i\<ge>N. \<not> is_submit (acts i)"
  shows "\<exists>cs. prefix (v_accepted v) cs \<and> handle_stop acts (e, v) = Some (fst (run_commands cs (matcher_new, [])))"
proof -
  let ?at = "run_at engine_step acts (engine_step Stop (e, v))"
  obtain cs0 where inv: "engine_inv_at cs0 (e, v)" by (rule reachable_inv [OF assms(1-3)])
  then have start: "v_before_stop v = None" using assms(4) by (simp add: engine_inv_at_def)
  have "stopping (?at 0)" using inv_outside [OF inv, of Stop] by (auto simp: stopping_def engine_inv_def)
  then have stopping: "stopping (?at k)" for k
    using machine.inv_run [OF stopping_machine, of "?at 0" "map acts [0..<k]"] by (simp add: run_at_fold)
  have before: "v_before_stop (snd (?at k)) = Some (v_accepted v)" for k
  proof (induction k)
    case (Suc k)
    obtain e' v' where "?at k = (e', v')" by (cases "?at k")
    with Suc show ?case by (cases "acts k") (auto split: sum.split prod.split option.split)
  qed (simp add: start)
  have "recurs c acts" if "c \<in> range unblocks" for c using that assms(5,6) by (auto simp: unblocks_def)
  from stop_live.fair_reaches [OF stopping assms(7) this] obtain k where "e_phase (fst (?at (0 + k))) = Exited" by auto
  from join_at [OF this] obtain j where j: "e_phase (fst (?at j)) = Exited" "handle_stop acts (e, v) = Some (e_matcher (fst (?at j)))"
    unfolding handle_stop_def by auto
  obtain cs where "engine_inv_at cs (?at j)" using stopping [of j] by (auto simp: stopping_def engine_inv_def)
  with j before [of j] show ?thesis by (intro exI [of _ cs]) (auto simp: engine_inv_at_def split: prod.splits)
qed

text \<open>An engine whose events do not fit in its queue, which \<open>Engine::stop\<close> would never stop.\<close>

definition turns :: "nat \<Rightarrow> engine_action" where
  "turns k = (if even k then Tick else Receive)"

theorem split_engine_stops_witness:
  "\<exists>cs. prefix [engine_order 1 Buy, engine_order 2 Sell] cs \<and> handle_stop turns stalled_engine = Some (fst (run_commands cs (matcher_new, [])))"
proof -
  have run: "fold engine_step ([Submit (engine_order 1 Buy), Submit (engine_order 2 Sell)] @ replicate 5 Tick) (engine_start 2 2, view_new) =
      (fst stalled_engine, snd stalled_engine)" by (simp add: stalled_engine_def)
  have facts: "v_accepted (snd stalled_engine) = [engine_order 1 Buy, engine_order 2 Sell]" "\<not> e_stop_flag (fst stalled_engine)" by code_simp+
  have "recurs Tick turns" "recurs Receive turns" unfolding recurs_def turns_def by (metis even_Suc le_SucI le_refl)+
  moreover have "\<forall>i\<ge>0. \<not> is_submit (turns i)" by (simp add: turns_def)
  ultimately show ?thesis
    using split_engine_stops [OF run _ _ facts(2)] facts(1) by simp
qed

end
