(* ===== verification/Hub.thy ===== *)
theory Hub
  imports Spsc_Correct Market_Laws "HOL-Library.Sublist"
begin

text \<open>
  The multi-tenant hub of \<^verbatim>\<open>bourse-core/src/hub.rs\<close>: many submitters push messages into one bounded
  inbox; the matcher thread pops them, executes the commands and sends each event to the connections
  concerned. The inbox (\<open>crossbeam_queue::ArrayQueue\<close>) and the event channels (\<open>tokio::sync::mpsc\<close>)
  are library code: the inbox is a parameter, a push and a pop on a state \<open>'q\<close> that obey
  \<open>bounded_queue\<close>; a sender is a value of type \<open>'tx\<close>, and what the hub does with senders is the list of
  its calls of \<open>send\<close>, whose result the code ignores.
\<close>

section \<open>Messages and state\<close>

type_synonym conn_id = u64
type_synonym hub_command = command

datatype 'tx msg = Connect conn_id 'tx | Disconnect conn_id | Cmd conn_id hub_command

text \<open>The locals of \<open>matcher_loop\<close>.\<close>

record 'tx hub_loop =
  hl_matcher :: matcher
  hl_routes :: "conn_id \<rightharpoonup> 'tx"
  hl_order_owner :: "order_id \<rightharpoonup> conn_id"

definition hub_loop_new :: "'tx hub_loop" where
  "hub_loop_new = \<lparr>hl_matcher = matcher_new, hl_routes = Map.empty, hl_order_owner = Map.empty\<rparr>"

section \<open>Handling a message\<close>

definition send_to :: "(conn_id \<rightharpoonup> 'tx) \<Rightarrow> conn_id \<Rightarrow> event \<Rightarrow> ('tx \<times> event) list" where
  "send_to routes target e = (case routes target of None \<Rightarrow> [] | Some tx \<Rightarrow> [(tx, e)])"

definition owner_or :: "(order_id \<rightharpoonup> conn_id) \<Rightarrow> order_id \<Rightarrow> conn_id \<Rightarrow> conn_id" where
  "owner_or order_owner i conn = (case order_owner i of None \<Rightarrow> conn | Some c \<Rightarrow> c)"

fun event_targets :: "(order_id \<rightharpoonup> conn_id) \<Rightarrow> conn_id \<Rightarrow> event \<Rightarrow> conn_id list" where
  "event_targets ow conn (Accepted i q sq) = [owner_or ow i conn]"
| "event_targets ow conn (Done i q r sq) = [owner_or ow i conn]"
| "event_targets ow conn (Trade t m p q sq) =
     (let taker_conn = owner_or ow t conn; maker_conn = owner_or ow m conn
      in if maker_conn \<noteq> taker_conn then [taker_conn, maker_conn] else [taker_conn])"

fun forget_done :: "event \<Rightarrow> (order_id \<rightharpoonup> conn_id) \<Rightarrow> order_id \<rightharpoonup> conn_id" where
  "forget_done (Done i q r sq) ow = ow(i := None)"
| "forget_done _ ow = ow"

text \<open>The loop over the events of one command.\<close>

fun dispatch :: "(conn_id \<rightharpoonup> 'tx) \<Rightarrow> conn_id \<Rightarrow> event list \<Rightarrow> (order_id \<rightharpoonup> conn_id) \<Rightarrow> ('tx \<times> event) list \<times> (order_id \<rightharpoonup> conn_id)" where
  "dispatch routes conn [] ow = ([], ow)"
| "dispatch routes conn (e # es) ow =
     (let sends = concat (map (\<lambda>c. send_to routes c e) (event_targets ow conn e));
          (rest, ow') = dispatch routes conn es (forget_done e ow)
      in (sends @ rest, ow'))"

fun hub_handle :: "'tx msg \<Rightarrow> 'tx hub_loop \<Rightarrow> ('tx \<times> event) list \<times> 'tx hub_loop" where
  "hub_handle (Connect c tx) h = ([], h\<lparr>hl_routes := (hl_routes h)(c \<mapsto> tx)\<rparr>)"
| "hub_handle (Disconnect c) h = ([], h\<lparr>hl_routes := (hl_routes h)(c := None)\<rparr>)"
| "hub_handle (Cmd c cmd) h =
     (let ow = (case cmd of New no \<Rightarrow> (hl_order_owner h)(no_id no \<mapsto> c) | Cancel i \<Rightarrow> hl_order_owner h);
          (m, events) = apply_command cmd (hl_matcher h, []);
          (sends, ow') = dispatch (hl_routes h) c events ow
      in (sends, h\<lparr>hl_matcher := m, hl_order_owner := ow'\<rparr>))"

text \<open>Messages handled one after the other.\<close>

fun hub_run :: "'tx msg list \<Rightarrow> ('tx \<times> event) list \<times> 'tx hub_loop \<Rightarrow> ('tx \<times> event) list \<times> 'tx hub_loop" where
  "hub_run [] st = st"
| "hub_run (m # ms) st = (case hub_handle m (snd st) of (sends, h) \<Rightarrow> hub_run ms (fst st @ sends, h))"

section \<open>The inbox and its users\<close>

text \<open>Where the loop of the matcher thread is: about to pop, with \<open>did_work\<close>, about to load the stop flag,
  or returned. A pop of the parameter may have an error case, which \<open>bounded_queue\<close> excludes.\<close>

datatype hub_phase = HubPolling bool | HubCheckStop | HubExited | HubUndefined

record ('q, 'tx) hub =
  h_inbox :: 'q
  h_next_conn :: u64
  h_stop_flag :: bool
  h_pending :: "'tx msg list"
  h_loop :: "('tx \<times> event) list \<times> 'tx hub_loop"
  h_phase :: hub_phase

definition hub_start :: "(u64 \<Rightarrow> 'q) \<Rightarrow> u64 \<Rightarrow> ('q, 'tx) hub" where
  "hub_start new_queue inbox_capacity =
     \<lparr>h_inbox = new_queue (max inbox_capacity 8), h_next_conn = 1, h_stop_flag = False, h_pending = [], h_loop = ([], hub_loop_new),
      h_phase = HubPolling False\<rparr>"

text \<open>\<open>register\<close> and \<open>submit\<close> build a message and then try to push it until the inbox takes it; the messages
  of the callers that are trying are the pending ones.\<close>

definition register :: "'tx \<Rightarrow> ('q, 'tx) hub \<Rightarrow> conn_id \<times> ('q, 'tx) hub" where
  "register tx h =
     (let conn_id = h_next_conn h
      in (conn_id, h\<lparr>h_next_conn := h_next_conn h + 1, h_pending := h_pending h @ [Connect conn_id tx]\<rparr>))"

definition submit :: "conn_id \<Rightarrow> hub_command \<Rightarrow> ('q, 'tx) hub \<Rightarrow> ('q, 'tx) hub" where
  "submit conn_id cmd h = h\<lparr>h_pending := h_pending h @ [Cmd conn_id cmd]\<rparr>"

text \<open>One turn of such a loop, for the \<open>k\<close>-th of the pending messages: whether it was taken.\<close>

definition try_pending :: "('tx msg \<Rightarrow> 'q \<Rightarrow> ('tx msg + unit) \<times> 'q) \<Rightarrow> nat \<Rightarrow> ('q, 'tx) hub \<Rightarrow> 'tx msg option \<times> ('q, 'tx) hub" where
  "try_pending push k h =
     (if \<not> k < length (h_pending h) then (None, h)
      else case push (h_pending h ! k) (h_inbox h) of
        (Inr _, q) \<Rightarrow>
          (Some (h_pending h ! k), h\<lparr>h_inbox := q, h_pending := List.take k (h_pending h) @ drop (Suc k) (h_pending h)\<rparr>)
      | (Inl returned, q) \<Rightarrow> (None, h\<lparr>h_inbox := q, h_pending := (h_pending h)[k := returned]\<rparr>))"

text \<open>Dropping the last submitter of a connection: one attempt, whose failure is ignored.\<close>

definition drop_submitter :: "('tx msg \<Rightarrow> 'q \<Rightarrow> ('tx msg + unit) \<times> 'q) \<Rightarrow> conn_id \<Rightarrow> ('q, 'tx) hub \<Rightarrow> 'tx msg option \<times> ('q, 'tx) hub" where
  "drop_submitter push conn_id h =
     (case push (Disconnect conn_id) (h_inbox h) of
        (Inr _, q) \<Rightarrow> (Some (Disconnect conn_id), h\<lparr>h_inbox := q\<rparr>)
      | (Inl _, q) \<Rightarrow> (None, h\<lparr>h_inbox := q\<rparr>))"

definition hub_thread :: "('q \<Rightarrow> 'e + ('tx msg option \<times> 'q)) \<Rightarrow> ('q, 'tx) hub \<Rightarrow> ('q, 'tx) hub" where
  "hub_thread pop h =
     (case h_phase h of
        HubPolling did_work \<Rightarrow>
          (case pop (h_inbox h) of
             Inl _ \<Rightarrow> h\<lparr>h_phase := HubUndefined\<rparr>
           | Inr (Some msg, q) \<Rightarrow> h\<lparr>h_inbox := q, h_loop := hub_run [msg] (h_loop h), h_phase := HubPolling True\<rparr>
           | Inr (None, q) \<Rightarrow> h\<lparr>h_inbox := q, h_phase := if did_work then HubPolling False else HubCheckStop\<rparr>)
      | HubCheckStop \<Rightarrow> h\<lparr>h_phase := if h_stop_flag h then HubExited else HubPolling False\<rparr>
      | HubExited \<Rightarrow> h
      | HubUndefined \<Rightarrow> h)"

section \<open>Schedules\<close>

datatype 'tx hub_action = Register 'tx | Submit conn_id hub_command | Attempt nat | DropSubmitter conn_id | StopHub | HubTick

record 'tx hub_view =
  hv_conns :: "conn_id list"
  hv_accepted :: "'tx msg list"
  hv_before_stop :: "'tx msg list option"

definition hub_view_new :: "'tx hub_view" where
  "hub_view_new = \<lparr>hv_conns = [], hv_accepted = [], hv_before_stop = None\<rparr>"

definition took :: "'tx msg option \<Rightarrow> 'tx hub_view \<Rightarrow> 'tx hub_view" where
  "took m v = (case m of None \<Rightarrow> v | Some m \<Rightarrow> v\<lparr>hv_accepted := hv_accepted v @ [m]\<rparr>)"

fun hub_step :: "('tx msg \<Rightarrow> 'q \<Rightarrow> ('tx msg + unit) \<times> 'q) \<Rightarrow> ('q \<Rightarrow> 'e + ('tx msg option \<times> 'q)) \<Rightarrow>
    'tx hub_action \<Rightarrow> ('q, 'tx) hub \<times> 'tx hub_view \<Rightarrow> ('q, 'tx) hub \<times> 'tx hub_view" where
  "hub_step push pop (Register tx) (h, v) =
     (case register tx h of (c, h') \<Rightarrow> (h', v\<lparr>hv_conns := hv_conns v @ [c]\<rparr>))"
| "hub_step push pop (Submit c cmd) (h, v) = (submit c cmd h, v)"
| "hub_step push pop (Attempt k) (h, v) = (case try_pending push k h of (m, h') \<Rightarrow> (h', took m v))"
| "hub_step push pop (DropSubmitter c) (h, v) = (case drop_submitter push c h of (m, h') \<Rightarrow> (h', took m v))"
| "hub_step push pop StopHub (h, v) =
     (h\<lparr>h_stop_flag := True\<rparr>,
      v\<lparr>hv_before_stop := (case hv_before_stop v of None \<Rightarrow> Some (hv_accepted v) | Some ms \<Rightarrow> Some ms)\<rparr>)"
| "hub_step push pop HubTick (h, v) = (hub_thread pop h, v)"

end
