(* ===== verification/Hub_Correct.thy ===== *)
theory Hub_Correct
  imports Hub
begin

text \<open>
  What the hub guarantees. To the market it is one matcher: the commands of all connections, in the
  order of the inbox. To a connection it is a router: as long as nobody submits an id that is
  resting, every event reaches the connections that submitted the orders it names, and the table of
  owners holds exactly the resting orders. The last section shows what goes wrong otherwise.
\<close>

section \<open>One matcher\<close>

fun commands_of :: "'tx msg list \<Rightarrow> command list" where
  "commands_of [] = []"
| "commands_of (Cmd c cmd # ms) = cmd # commands_of ms"
| "commands_of (_ # ms) = commands_of ms"

lemma commands_of_append [simp]: "commands_of (ms @ ms') = commands_of ms @ commands_of ms'"
  by (induction ms rule: commands_of.induct) simp_all

lemma hub_run_append [simp]: "hub_run (ms @ ms') st = hub_run ms' (hub_run ms st)"
  by (induction ms st rule: hub_run.induct) (simp_all split: prod.split)

lemma run_commands_fst:
  "fst (run_commands cs (m, out)) = fst (run_commands cs (m, []))"
  using after_run_commands [of cs out "(m, [])"] by (simp add: after_def)

lemma hub_run_matcher:
  "hl_matcher (snd (hub_run ms st)) = fst (run_commands (commands_of ms) (hl_matcher (snd st), []))"
proof (induction ms st rule: hub_run.induct)
  case (2 m ms st)
  then show ?case
    using run_commands_fst [of "commands_of ms"]
    by (cases m) (auto simp: Let_def split_beta, metis fst_conv prod.collapse)
qed simp

section \<open>Routing\<close>

text \<open>Who last submitted an order with a given id.\<close>

fun submits :: "conn_id \<Rightarrow> command \<Rightarrow> (order_id \<rightharpoonup> conn_id) \<Rightarrow> order_id \<rightharpoonup> conn_id" where
  "submits c (New no) s = s(no_id no \<mapsto> c)"
| "submits c (Cancel i) s = s"

fun submitted_by :: "'tx msg \<Rightarrow> (order_id \<rightharpoonup> conn_id) \<Rightarrow> order_id \<rightharpoonup> conn_id" where
  "submitted_by (Cmd c cmd) s = submits c cmd s"
| "submitted_by _ s = s"

definition submitters :: "'tx msg list \<Rightarrow> order_id \<rightharpoonup> conn_id" where
  "submitters ms = fold submitted_by ms Map.empty"

lemma submitters_simps [simp]: "submitters [] = Map.empty" "submitters (ms @ [m]) = submitted_by m (submitters ms)"
  by (simp_all add: submitters_def)

text \<open>Nobody submits an id that is resting.\<close>

fun fresh_cmd :: "command \<Rightarrow> matcher \<Rightarrow> bool" where
  "fresh_cmd (New no) mt \<longleftrightarrow> \<not> book_contains (m_book mt) (no_id no)"
| "fresh_cmd (Cancel i) mt \<longleftrightarrow> True"

fun fresh_msg :: "'tx msg \<Rightarrow> matcher \<Rightarrow> bool" where
  "fresh_msg (Cmd c cmd) mt \<longleftrightarrow> fresh_cmd cmd mt"
| "fresh_msg _ mt \<longleftrightarrow> True"

fun fresh_ids :: "'tx msg list \<Rightarrow> matcher \<Rightarrow> bool" where
  "fresh_ids [] mt \<longleftrightarrow> True"
| "fresh_ids (m # ms) mt \<longleftrightarrow> fresh_msg m mt \<and> fresh_ids ms (fst (run_commands (commands_of [m]) (mt, [])))"

lemma fresh_ids_snoc:
  "fresh_ids (ms @ [m]) mt \<longleftrightarrow> fresh_ids ms mt \<and> fresh_msg m (fst (run_commands (commands_of ms) (mt, [])))"
proof (induction ms arbitrary: mt)
  case (Cons x ms)
  have "commands_of (x # ms) = commands_of [x] @ commands_of ms" using commands_of_append [of "[x]" ms] by simp
  then show ?case
    using Cons run_commands_fst [of "commands_of ms" "fst (run_commands (commands_of [x]) (mt, []))" "snd (run_commands (commands_of [x]) (mt, []))"]
    by simp
qed simp

text \<open>Who should hear of an event: the submitters of the orders it names, each once, as far as they are still
  connected.\<close>

fun named_orders :: "event \<Rightarrow> order_id list" where
  "named_orders (Accepted i q sq) = [i]"
| "named_orders (Done i q r sq) = [i]"
| "named_orders (Trade t m p q sq) = [t, m]"

definition deliveries :: "(conn_id \<rightharpoonup> 'tx) \<Rightarrow> (order_id \<rightharpoonup> conn_id) \<Rightarrow> event \<Rightarrow> ('tx \<times> event) list" where
  "deliveries routes own e =
     map (\<lambda>tx. (tx, e)) (List.map_filter routes (rev (remdups (rev (List.map_filter own (named_orders e))))))"

text \<open>The sends of the loop for an event.\<close>

definition sent_for :: "(conn_id \<rightharpoonup> 'tx) \<Rightarrow> (order_id \<rightharpoonup> conn_id) \<Rightarrow> conn_id \<Rightarrow> event \<Rightarrow> ('tx \<times> event) list" where
  "sent_for routes ow conn e = concat (map (\<lambda>c. send_to routes c e) (event_targets ow conn e))"

lemma sent_for_deliveries: "set (named_orders e) \<subseteq> dom own \<Longrightarrow> sent_for routes own conn e = deliveries routes own e"
  by (cases e) (auto simp: sent_for_def deliveries_def owner_or_def send_to_def map_filter_simps Let_def split: option.split)

text \<open>Events of orders that are already open: neither an acceptance nor a rejection.\<close>

fun ongoing :: "event \<Rightarrow> bool" where
  "ongoing (Accepted i q sq) \<longleftrightarrow> False"
| "ongoing (Done i q r sq) \<longleftrightarrow> r \<noteq> Rejected"
| "ongoing (Trade t m p q sq) \<longleftrightarrow> True"

lemma observe_dom:
  assumes "observe e op = Some op'" "ongoing e"
  shows "dom op' = (case e of Done i q r sq \<Rightarrow> dom op - {i} | _ \<Rightarrow> dom op)"
  using assms by (cases e) (auto split: option.splits if_splits)

lemma owner_or_restrict: "op i = Some q \<Longrightarrow> owner_or (own |` dom op) i conn = owner_or own i conn"
  by (simp add: owner_or_def restrict_in domI)

lemma ongoing_dispatch:
  assumes "observe e op = Some op'" "ongoing e"
  shows "event_targets (own |` dom op) conn e = event_targets own conn e"
    and "forget_done e (own |` dom op) = own |` dom op'"
proof -
  show "event_targets (own |` dom op) conn e = event_targets own conn e"
    using assms by (cases e) (auto simp: owner_or_restrict Let_def split: option.splits if_splits)
  show "forget_done e (own |` dom op) = own |` dom op'"
    unfolding observe_dom [OF assms] using assms by (cases e) (auto simp: fun_upd_None_restrict split: if_splits)
qed

lemma dispatch_ongoing:
  "lifecycle es op = Some op' \<Longrightarrow> \<forall>e \<in> set es. ongoing e \<Longrightarrow>
     dispatch routes conn es (own |` dom op) = (concat (map (sent_for routes own conn) es), own |` dom op')"
proof (induction es arbitrary: op)
  case (Cons e es)
  then obtain op1 where op1: "observe e op = Some op1" "lifecycle es op1 = Some op'" by (auto split: option.splits)
  with Cons.IH [OF op1(2)] Cons.prems(2) ongoing_dispatch [OF op1(1), of own] show ?case
    by (simp add: sent_for_def)
qed simp

lemma ongoing_fills: "e \<in> set (fill_events i n fs) \<Longrightarrow> ongoing e"
  by (induction i n fs rule: fill_events.induct) (auto split: if_splits)

lemma leftover_not_Rejected: "leftover k = Inr r \<Longrightarrow> r \<noteq> Rejected"
  by (cases k) auto

lemma accept_events:
  assumes "spec_accept ord n mk = (mk', evs)"
  shows "evs = [Done (no_id ord) (no_qty ord) Rejected n] \<and> mk' = mk \<or>
    (\<exists>rest. evs = Accepted (no_id ord) (no_qty ord) n # rest \<and> (\<forall>e \<in> set rest. ongoing e))"
  using assms
  by (cases rule: spec_accept_cases) (auto dest: ongoing_fills leftover_not_Rejected)

text \<open>The owners are those of the orders open before, with the submitter of a new order added.\<close>

lemma dispatch_command:
  fixes c :: conn_id
  assumes "spec_command cmd n (priority b) = (mk, evs)" "book_inv b" "fresh_cmd cmd mt" "m_book mt = b"
    "ow = own |` {i. book_contains b i}"
  defines "own' \<equiv> submits c cmd own"
  shows "dispatch routes c evs (submits c cmd ow) =
    (concat (map (sent_for routes own' c) evs), own' |` {i. listed mk i})"
proof -
  let ?op = "market_open (priority b)"
  have op: "{i. book_contains b i} = dom ?op" by (simp add: dom_market_open contains_listed [OF assms(2)])
  have life: "lifecycle evs ?op = Some (market_open mk)" using lifecycle_command [OF assms(2,1)] .
  show ?thesis
  proof (cases cmd)
    case (Cancel i)
    then have "\<forall>e \<in> set evs. ongoing e"
      using assms(1) by (auto simp: spec_cancel_def split: option.splits)
    with dispatch_ongoing [OF life, of routes c own] Cancel show ?thesis
      by (simp add: own'_def assms(5) op dom_market_open)
  next
    case (New ord)
    let ?i = "no_id ord"
    have new: "?i \<notin> dom ?op" using assms(3,4) New op by auto
    have ext: "(own |` dom ?op)(?i \<mapsto> c) = (own(?i \<mapsto> c)) |` insert ?i (dom ?op)"
      by (auto simp: restrict_map_def fun_eq_iff)
    consider (Refused) "evs = [Done ?i (no_qty ord) Rejected n]" "mk = priority b"
      | (Taken) rest where "evs = Accepted ?i (no_qty ord) n # rest" "\<forall>e \<in> set rest. ongoing e"
      using accept_events [of ord n "priority b" mk evs] assms(1) New by auto
    then show ?thesis
    proof cases
      case Refused
      have "((own |` dom ?op)(?i \<mapsto> c))(?i := None) = (own(?i \<mapsto> c)) |` dom ?op"
        using new by (auto simp: restrict_map_def fun_eq_iff)
      with Refused New show ?thesis
        by (simp add: own'_def assms(5) op sent_for_def owner_or_def dom_market_open)
    next
      case (Taken rest)
      have "lifecycle rest (?op(?i \<mapsto> no_qty ord)) = Some (market_open mk)" using life Taken by (simp split: if_splits)
      from dispatch_ongoing [OF this Taken(2), of routes c "own(?i \<mapsto> c)"] Taken New ext show ?thesis
        by (simp add: own'_def assms(5) op sent_for_def owner_or_def dom_market_open)
    qed
  qed
qed

text \<open>Events name orders that were open or are being submitted, and only those can be open afterwards.\<close>

lemma observe_named: "observe e op = Some op' \<Longrightarrow> ongoing e \<Longrightarrow> set (named_orders e) \<subseteq> dom op \<and> dom op' \<subseteq> dom op"
  by (cases e) (auto split: option.splits if_splits)

lemma lifecycle_named:
  "lifecycle es op = Some op' \<Longrightarrow> \<forall>e \<in> set es. ongoing e \<Longrightarrow> (\<Union>e \<in> set es. set (named_orders e)) \<subseteq> dom op \<and> dom op' \<subseteq> dom op"
proof (induction es arbitrary: op)
  case (Cons e es)
  then obtain op1 where op1: "observe e op = Some op1" "lifecycle es op1 = Some op'" by (auto split: option.splits)
  then show ?case using Cons.IH [OF op1(2)] observe_named [OF op1(1)] Cons.prems(2) by (simp add: subset_iff)
qed simp

lemma command_named:
  fixes c :: conn_id
  assumes "spec_command cmd n (priority b) = (mk, evs)" "book_inv b" "{i. book_contains b i} \<subseteq> dom own"
  shows "(\<Union>e \<in> set evs. set (named_orders e)) \<subseteq> dom (submits c cmd own) \<and> {i. listed mk i} \<subseteq> dom (submits c cmd own)"
proof -
  let ?op = "market_open (priority b)"
  have op: "dom ?op \<subseteq> dom own" using assms(3) by (simp add: dom_market_open contains_listed [OF assms(2)])
  have life: "lifecycle evs ?op = Some (market_open mk)" using lifecycle_command [OF assms(2,1)] .
  show ?thesis
  proof (cases cmd)
    case (Cancel i)
    then have "\<forall>e \<in> set evs. ongoing e" using assms(1) by (auto simp: spec_cancel_def split: option.splits)
    from lifecycle_named [OF life this] op Cancel show ?thesis by (auto simp: dom_market_open)
  next
    case (New ord)
    consider (Refused) "evs = [Done (no_id ord) (no_qty ord) Rejected n]" "mk = priority b"
      | (Taken) rest where "evs = Accepted (no_id ord) (no_qty ord) n # rest" "\<forall>e \<in> set rest. ongoing e"
      using accept_events [of ord n "priority b" mk evs] assms(1) New by auto
    then show ?thesis
    proof cases
      case Refused
      then show ?thesis using New op by (auto simp: dom_market_open)
    next
      case (Taken rest)
      have "lifecycle rest (?op(no_id ord \<mapsto> no_qty ord)) = Some (market_open mk)" using life Taken by (simp split: if_splits)
      from lifecycle_named [OF this Taken(2)] Taken New op show ?thesis by (auto simp: dom_market_open)
    qed
  qed
qed

lemma apply_spec:
  assumes "book_inv (m_book m)"
  obtains mk evs where "spec_command cmd (peek_seq m) (priority (m_book m)) = (mk, evs)"
    "snd (apply_command cmd (m, [])) = evs" "priority (m_book (fst (apply_command cmd (m, [])))) = mk"
    "book_inv (m_book (fst (apply_command cmd (m, []))))"
  using command_refines [of "(m, [])" cmd] assms by (auto simp: refines_def split: prod.splits)

definition owners_ok :: "'tx msg list \<Rightarrow> 'tx hub_loop \<Rightarrow> bool" where
  "owners_ok ms h \<longleftrightarrow> book_inv (m_book (hl_matcher h)) \<and> {i. book_contains (m_book (hl_matcher h)) i} \<subseteq> dom (submitters ms) \<and>
     hl_order_owner h = submitters ms |` {i. book_contains (m_book (hl_matcher h)) i}"

lemma handle_command:
  fixes h :: "'tx hub_loop"
  assumes "owners_ok ms h" "fresh_cmd cmd (hl_matcher h)" "hub_handle (Cmd c cmd) h = (sends, h')"
  defines "own \<equiv> submitters (ms @ [Cmd c cmd :: 'tx msg])"
    and "evs \<equiv> snd (apply_command cmd (hl_matcher h, []))"
  shows "owners_ok (ms @ [Cmd c cmd]) h'" "sends = concat (map (deliveries (hl_routes h) own) evs)"
    "(\<Union>e \<in> set evs. set (named_orders e)) \<subseteq> dom own"
proof -
  let ?b = "m_book (hl_matcher h)"
  have ok: "book_inv ?b" "{i. book_contains ?b i} \<subseteq> dom (submitters ms)"
    "hl_order_owner h = submitters ms |` {i. book_contains ?b i}"
    using assms(1) by (simp_all add: owners_ok_def)
  obtain mk evs' where ev: "spec_command cmd (peek_seq (hl_matcher h)) (priority ?b) = (mk, evs')"
    "snd (apply_command cmd (hl_matcher h, [])) = evs'" "priority (m_book (fst (apply_command cmd (hl_matcher h, [])))) = mk"
    "book_inv (m_book (fst (apply_command cmd (hl_matcher h, []))))"
    by (rule apply_spec [OF ok(1)])
  have own: "own = submits c cmd (submitters ms)" by (simp add: own_def)
  note d = dispatch_command [OF ev(1) ok(1) assms(2) refl ok(3), of "hl_routes h" c]
  note named = command_named [OF ev(1) ok(1,2), of c]
  from named show dom: "(\<Union>e \<in> set evs. set (named_orders e)) \<subseteq> dom own" by (simp add: own evs_def ev(2))
  have "submits c cmd (hl_order_owner h) =
      (case cmd of New no \<Rightarrow> (hl_order_owner h)(no_id no \<mapsto> c) | Cancel i \<Rightarrow> hl_order_owner h)"
    by (cases cmd) simp_all
  then have h': "sends = concat (map (sent_for (hl_routes h) own c) evs)"
      "h' = h\<lparr>hl_matcher := fst (apply_command cmd (hl_matcher h, [])), hl_order_owner := own |` {i. listed mk i}\<rparr>"
    using assms(3) d ev(2) by (auto simp: own evs_def split_beta Let_def)
  have "map (sent_for (hl_routes h) own c) evs = map (deliveries (hl_routes h) own) evs"
    using dom by (intro map_cong refl sent_for_deliveries) blast
  with h'(1) show "sends = concat (map (deliveries (hl_routes h) own) evs)" by simp
  have "{i. book_contains (m_book (fst (apply_command cmd (hl_matcher h, [])))) i} = {i. listed mk i}"
    using contains_listed [OF ev(4)] ev(3) by simp
  then show "owners_ok (ms @ [Cmd c cmd]) h'"
    using h'(2) ev(4) named unfolding owners_ok_def own_def [symmetric] by (simp add: own)
qed

lemma handle_owners:
  assumes "owners_ok ms h" "fresh_msg m (hl_matcher h)" "hub_handle m h = (sends, h')"
  shows "owners_ok (ms @ [m]) h'"
proof (cases m)
  case (Cmd c cmd)
  with assms handle_command(1) show ?thesis by fastforce
qed (use assms in \<open>auto simp: owners_ok_def\<close>)

lemma run_owners:
  "fresh_ids ms matcher_new \<Longrightarrow> owners_ok ms (snd (hub_run ms ([], hub_loop_new)))"
proof (induction ms rule: rev_induct)
  case Nil
  have "book_inv (m_book matcher_new)" using new_inv [of "[]" "[]"] by simp
  then show ?case
    by (simp add: owners_ok_def hub_loop_new_def matcher_new_def book_new_def book_contains_def)
next
  case (snoc m ms)
  let ?h = "snd (hub_run ms ([], hub_loop_new :: 'a hub_loop))"
  have "fresh_msg m (hl_matcher ?h)"
    using snoc.prems hub_run_matcher [of ms "([], hub_loop_new)"] by (simp add: fresh_ids_snoc hub_loop_new_def)
  moreover obtain sends h' where "hub_handle m ?h = (sends, h')" by (cases "hub_handle m ?h")
  ultimately show ?case using handle_owners [of ms ?h m sends h'] snoc by (simp add: fresh_ids_snoc)
qed

section \<open>Guarantees of the router\<close>

text \<open>Events go home. As long as no connection submits an id that is resting, the hub remembers the
  submitter of every resting order and of no other, and the events of each command are sent, in order, to exactly
  the connections that submitted the orders they name: an acceptance or a completion to the order's
  submitter, a trade to the submitters of taker and maker (once if they are the same); connections that are gone
  are skipped, and no event names an order that nobody submitted. This holds for cancels sent by other connections too.\<close>

theorem hub_routes_to_submitters:
  assumes "fresh_ids (ms @ [Cmd c cmd]) matcher_new" "snd (hub_run ms ([], hub_loop_new)) = h"
    "hub_handle (Cmd c cmd) h = (sends, h')"
  shows "sends = concat (map (deliveries (hl_routes h) (submitters (ms @ [Cmd c cmd]))) (snd (apply_command cmd (hl_matcher h, [])))) \<and>
    (\<Union>e \<in> set (snd (apply_command cmd (hl_matcher h, []))). set (named_orders e)) \<subseteq> dom (submitters (ms @ [Cmd c cmd])) \<and>
    hl_order_owner h' = submitters (ms @ [Cmd c cmd]) |` {i. book_contains (m_book (hl_matcher h')) i}"
proof -
  have ok: "owners_ok ms h" "fresh_cmd cmd (hl_matcher h)"
    using run_owners [of ms] assms(1,2) hub_run_matcher [of ms "([], hub_loop_new)"]
    by (auto simp: fresh_ids_snoc hub_loop_new_def)
  then show ?thesis
    using handle_command [OF ok assms(3)] by (simp add: owners_ok_def)
qed

text \<open>Two connections and a resting order of the first.\<close>

definition hub_order :: "order_id \<Rightarrow> command" where
  "hub_order i = New \<lparr>no_id = i, no_side = Buy, no_qty = 5, no_kind = Limit (Price 100), no_timestamp = 0\<rparr>"

definition sample_msgs :: "string msg list" where
  "sample_msgs = [Connect 1 ''tx1'', Connect 2 ''tx2'', Cmd 1 (hub_order 7)]"

definition sample_loop :: "string hub_loop" where
  "sample_loop = snd (hub_run sample_msgs ([], hub_loop_new))"

theorem hub_routes_to_submitters_witness:
  "fst (hub_handle (Cmd 2 (Cancel 7)) sample_loop) = [(''tx1'', Done 7 5 Cancelled 2)]"
proof -
  have "fresh_ids (sample_msgs @ [Cmd 2 (Cancel 7)]) matcher_new" by code_simp
  moreover have "snd (apply_command (Cancel 7) (hl_matcher sample_loop, [])) = [Done 7 5 Cancelled 2]" by code_simp
  moreover have "concat (map (deliveries (hl_routes sample_loop) (submitters (sample_msgs @ [Cmd 2 (Cancel 7)]))) [Done 7 5 Cancelled 2]) =
      [(''tx1'', Done 7 5 Cancelled 2)]" by code_simp
  moreover obtain sends h' where h': "hub_handle (Cmd 2 (Cancel 7)) sample_loop = (sends, h')"
    by (cases "hub_handle (Cmd 2 (Cancel 7)) sample_loop")
  ultimately show ?thesis
    using hub_routes_to_submitters [of sample_msgs 2 "Cancel 7" sample_loop sends h']
    by (simp add: sample_loop_def del: hub_handle.simps submitters_simps)
qed

lemma dup_rejected:
  assumes "book_contains (m_book m) (no_id no)"
  shows "accept no (m, []) = (m\<lparr>m_seq := snd (seq_next (m_seq m))\<rparr>, [Done (no_id no) (no_qty no) Rejected (peek_seq m)])"
  using assms by (simp add: accept_def emit_def seq_next_def peek_seq_def seq_peek_def)

text \<open>C28. A rejected duplicate disowns the original. When a connection submits an id that is resting, the
  book is left alone and the submission is rejected, but the hub forgets who owns the resting order: afterwards
  a cancel of it, say, is reported to whoever sent the cancel, and its owner (any other connection) hears nothing.\<close>

theorem duplicate_id_disowns:
  assumes "book_inv (m_book (hl_matcher h))" "book_contains (m_book (hl_matcher h)) i" "no_id no = i"
    "hub_handle (Cmd c2 (New no)) h = (sends, h1)" "hub_handle (Cmd c3 (Cancel i)) h1 = (sends', h2)"
    "hl_routes h c3 = Some tx3"
  shows "m_book (hl_matcher h1) = m_book (hl_matcher h) \<and> hl_order_owner h1 i = None \<and>
    (\<exists>q sq. sends' = [(tx3, Done i q Cancelled sq)])"
proof -
  let ?m = "hl_matcher h"
  have h1: "h1 = h\<lparr>hl_matcher := ?m\<lparr>m_seq := snd (seq_next (m_seq ?m))\<rparr>,
      hl_order_owner := (hl_order_owner h)(i := None)\<rparr>"
    using assms(2-4) dup_rejected [of ?m no] by (simp add: Let_def)
  have inv: "book_inv (m_book (hl_matcher h1))" using assms(1) by (simp add: h1)
  obtain s p where "Mapping.lookup (index (m_book ?m)) i = Some (s, p)"
    using assms(2) by (auto simp: book_contains_def)
  then obtain q b where b: "book_cancel i (m_book ?m) = (Some q, b)"
    by (rule book_cancel_spec [OF assms(1)]) (rule that)
  then have "apply_command (Cancel i) (hl_matcher h1, []) =
      emit (Done i q Cancelled) ((hl_matcher h1)\<lparr>m_book := b\<rparr>, [])"
    by (simp add: matcher_cancel_def h1)
  then have "\<exists>m sq. apply_command (Cancel i) (hl_matcher h1, []) = (m, [Done i q Cancelled sq])"
    by (simp add: emit_def split_beta)
  with assms(5,6) show ?thesis by (auto simp: h1 owner_or_def send_to_def Let_def)
qed

theorem duplicate_id_disowns_witness:
  "hl_order_owner sample_loop 7 = Some 1 \<and>
   (\<exists>sends h1 sends' h2 q sq. hub_handle (Cmd 2 (hub_order 7)) sample_loop = (sends, h1) \<and>
      hub_handle (Cmd 2 (Cancel 7)) h1 = (sends', h2) \<and> hl_order_owner h1 7 = None \<and> sends' = [(''tx2'', Done 7 q Cancelled sq)])"
proof -
  have "owners_ok sample_msgs sample_loop" unfolding sample_loop_def by (rule run_owners) code_simp
  then have inv: "book_inv (m_book (hl_matcher sample_loop))" by (simp add: owners_ok_def)
  have facts: "book_contains (m_book (hl_matcher sample_loop)) 7" "hl_routes sample_loop 2 = Some ''tx2''" "hl_order_owner sample_loop 7 = Some 1"
    by code_simp+
  obtain sends h1 where h1: "hub_handle (Cmd 2 (hub_order 7)) sample_loop = (sends, h1)"
    by (cases "hub_handle (Cmd 2 (hub_order 7)) sample_loop")
  obtain sends' h2 where h2: "hub_handle (Cmd 2 (Cancel 7)) h1 = (sends', h2)"
    by (cases "hub_handle (Cmd 2 (Cancel 7)) h1")
  from duplicate_id_disowns [OF inv facts(1) _ h1 [unfolded hub_order_def] h2 facts(2)] h1 h2 facts(3)
  show ?thesis by auto
qed

section \<open>The inbox\<close>

text \<open>What the hub relies on of its inbox: a bounded queue that starts empty.\<close>

locale hub_inbox = bounded_queue inv items cap push pop
  for inv :: "'q \<Rightarrow> bool" and items :: "'q \<Rightarrow> 'tx msg list" and cap :: "'q \<Rightarrow> nat"
    and push :: "'tx msg \<Rightarrow> 'q \<Rightarrow> ('tx msg + unit) \<times> 'q" and pop :: "'q \<Rightarrow> 'e + ('tx msg option \<times> 'q)" +
  fixes new_queue :: "u64 \<Rightarrow> 'q"
  assumes new_queue: "unat n \<le> 2 ^ 63 \<Longrightarrow> inv (new_queue n) \<and> items (new_queue n) = []"
begin

definition hub_inv :: "('q, 'tx) hub \<times> 'tx hub_view \<Rightarrow> bool" where
  "hub_inv st \<longleftrightarrow>
     (let (h, v) = st
      in inv (h_inbox h) \<and> h_phase h \<noteq> HubUndefined \<and>
         (\<exists>ms. hv_accepted v = ms @ items (h_inbox h) \<and> h_loop h = hub_run ms ([], hub_loop_new)) \<and>
         hv_conns v = map (\<lambda>k. of_nat (Suc k)) [0..<length (hv_conns v)] \<and>
         h_next_conn h = of_nat (Suc (length (hv_conns v))))"

lemma hub_inv_start:
  assumes "unat n \<le> 2 ^ 63"
  shows "hub_inv (hub_start new_queue n, hub_view_new)"
proof -
  have "unat (max n 8) \<le> 2 ^ 63" using assms by (simp add: max_def)
  then show ?thesis using new_queue by (simp add: hub_inv_def hub_start_def hub_view_new_def)
qed

lemma hub_inv_pending:
  assumes "hub_inv (h, v)" "try_pending push k h = (m, h')"
  shows "hub_inv (h', took m v)"
proof (cases "k < length (h_pending h)")
  case True
  have "inv (h_inbox h)" using assms(1) by (simp add: hub_inv_def)
  then show ?thesis
    using assms True
    by (cases rule: push_cases [where v = "h_pending h ! k"]) (auto simp: hub_inv_def try_pending_def took_def)
qed (use assms in \<open>simp add: try_pending_def took_def\<close>)

lemma hub_inv_drop:
  assumes "hub_inv (h, v)" "drop_submitter push c h = (m, h')"
  shows "hub_inv (h', took m v)"
proof -
  have "inv (h_inbox h)" using assms(1) by (simp add: hub_inv_def)
  then show ?thesis
    using assms by (cases rule: push_cases [where v = "Disconnect c"]) (auto simp: hub_inv_def drop_submitter_def took_def)
qed

lemma hub_inv_tick:
  assumes "hub_inv (h, v)"
  shows "hub_inv (hub_thread pop h, v)"
proof (cases "h_phase h")
  case (HubPolling did_work)
  have inv: "inv (h_inbox h)" using assms by (simp add: hub_inv_def)
  obtain ms where ms: "hv_accepted v = ms @ items (h_inbox h)" "h_loop h = hub_run ms ([], hub_loop_new)"
    using assms by (auto simp: hub_inv_def)
  show ?thesis
    using inv
  proof (cases rule: pop_cases)
    case (Some m q')
    then have "hv_accepted v = (ms @ [m]) @ items q'" "hub_run [m] (h_loop h) = hub_run (ms @ [m]) ([], hub_loop_new)"
      using ms by simp_all
    with Some HubPolling assms show ?thesis
      unfolding hub_inv_def hub_thread_def by (auto simp del: hub_run.simps hub_run_append)
  next
    case (None q')
    with HubPolling assms show ?thesis by (auto simp: hub_inv_def hub_thread_def)
  qed
qed (use assms in \<open>auto simp: hub_inv_def hub_thread_def\<close>)

end

sublocale hub_inbox \<subseteq> hb: machine "hub_step push pop" hub_inv
proof
  fix st a
  assume inv: "hub_inv st"
  obtain h v where st: "st = (h, v)" by (cases st)
  show "hub_inv (hub_step push pop a st)"
  proof (cases a)
    case (Register tx)
    with inv st show ?thesis by (auto simp: hub_inv_def register_def Let_def)
  next
    case (Attempt k)
    with inv st hub_inv_pending show ?thesis by (auto split: prod.split)
  next
    case (DropSubmitter c)
    with inv st hub_inv_drop show ?thesis by (auto split: prod.split)
  next
    case HubTick
    with inv st hub_inv_tick show ?thesis by simp
  qed (use inv st in \<open>auto simp: hub_inv_def submit_def\<close>)
qed

context hub_inbox
begin

lemma served:
  assumes "unat n \<le> 2 ^ 63" "fold (hub_step push pop) acts (hub_start new_queue n, hub_view_new) = (h, v)"
  shows "\<exists>ms. prefix ms (hv_accepted v) \<and> h_loop h = hub_run ms ([], hub_loop_new) \<and>
    hl_matcher (snd (h_loop h)) = fst (run_commands (commands_of ms) (matcher_new, [])) \<and>
    hv_conns v = map (\<lambda>k. of_nat (Suc k)) [0..<length (hv_conns v)]"
proof -
  have "hub_inv (h, v)" using hb.inv_run [OF hub_inv_start [OF assms(1)], of acts] assms(2) by simp
  then obtain ms where "hv_accepted v = ms @ items (h_inbox h)" "h_loop h = hub_run ms ([], hub_loop_new)"
      "hv_conns v = map (\<lambda>k. of_nat (Suc k)) [0..<length (hv_conns v)]"
    by (auto simp: hub_inv_def)
  then show ?thesis
    using hub_run_matcher [of ms "([], hub_loop_new)"] by (intro exI [of _ ms]) (simp add: hub_loop_new_def)
qed

end

interpretation ring_inbox: hub_inbox spsc_inv spsc_items spsc_cap spsc_push spsc_pop channel
  by unfold_locales (simp add: channel_inv)

lemma numbered_distinct:
  assumes "n < 2 ^ 64"
  shows "distinct (map (\<lambda>k. of_nat (Suc k) :: u64) [0..<n])"
proof -
  have "inj_on (\<lambda>k. of_nat (Suc k) :: u64) {0..<n}"
  proof (rule inj_onI)
    fix j k
    assume *: "j \<in> {0..<n}" "k \<in> {0..<n}" "(of_nat (Suc j) :: u64) = of_nat (Suc k)"
    have "unat (of_nat (Suc i) :: u64) = Suc i" if "i < n" for i
      using that assms by (subst unat_of_nat) simp
    with * show "j = k" by (metis atLeastLessThan_iff nat.inject)
  qed
  then show ?thesis by (simp add: distinct_map)
qed

section \<open>Guarantees of the hub\<close>

text \<open>Many connections, one matcher. Whatever the registrations, submissions, drops and turns of the matcher
  thread, in any interleaving, over any inbox that is a bounded first-in first-out queue: the thread has handled a prefix of the
  messages the inbox accepted, in that order and each once; its matcher is that of a direct run of their commands; and
  no two registrations ever got the same connection id (before \<open>2^64\<close> of them).\<close>

theorem hub_is_one_matcher:
  assumes "hub_inbox ok items cap push pop new_queue" "unat n \<le> 2 ^ 63"
    "fold (hub_step push pop) acts (hub_start new_queue n, hub_view_new) = (h, v)"
  shows "\<exists>ms. prefix ms (hv_accepted v) \<and> h_loop h = hub_run ms ([], hub_loop_new) \<and>
    hl_matcher (snd (h_loop h)) = fst (run_commands (commands_of ms) (matcher_new, [])) \<and>
    (length (hv_conns v) < 2 ^ 64 \<longrightarrow> distinct (hv_conns v))"
  using hub_inbox.served [OF assms] numbered_distinct [of "length (hv_conns v)"] by metis

definition sample_hub_actions :: "string hub_action list" where
  "sample_hub_actions = [Register ''tx1'', Register ''tx2'', Attempt 1, Attempt 0, Submit 1 (hub_order 7), Attempt 0, HubTick, HubTick, HubTick]"

definition sample_hub :: "(string msg spsc, string) hub \<times> string hub_view" where
  "sample_hub = fold (hub_step spsc_push spsc_pop) sample_hub_actions (hub_start channel 8, hub_view_new)"

theorem hub_is_one_matcher_witness:
  "\<exists>ms. prefix ms [Connect 2 ''tx2'', Connect 1 ''tx1'', Cmd 1 (hub_order 7)] \<and>
    h_loop (fst sample_hub) = hub_run ms ([], hub_loop_new) \<and>
    hl_matcher (snd (h_loop (fst sample_hub))) = fst (run_commands (commands_of ms) (matcher_new, [])) \<and>
    distinct [1, 2 :: conn_id]"
proof -
  have "hv_accepted (snd sample_hub) = [Connect 2 ''tx2'', Connect 1 ''tx1'', Cmd 1 (hub_order 7)]" "hv_conns (snd sample_hub) = [1, 2]"
    by code_simp+
  moreover have "fold (hub_step spsc_push spsc_pop) sample_hub_actions (hub_start channel 8, hub_view_new) = (fst sample_hub, snd sample_hub)"
    by (simp add: sample_hub_def)
  ultimately show ?thesis
    using hub_is_one_matcher [OF ring_inbox.hub_inbox_axioms, of 8 sample_hub_actions "fst sample_hub" "snd sample_hub"] by simp
qed

text \<open>Stopping can lose commands. The thread returns when it finds the stop flag set after an empty poll,
  without polling again: a command that the inbox accepts between that poll and the request to stop is
  never executed, although its submission succeeded before. (The engine's loop has a last drain pass for this.)\<close>

theorem hub_stop_loses_commands:
  "\<exists>acts. let (h, v) = fold (hub_step spsc_push spsc_pop) acts (hub_start channel 8, hub_view_new :: unit hub_view)
     in h_phase h = HubExited \<and> hv_before_stop v = Some [Connect 1 (), Cmd 1 (hub_order 7)] \<and>
        hl_matcher (snd (h_loop h)) = matcher_new \<and> spsc_items (h_inbox h) = [Cmd 1 (hub_order 7)]"
proof -
  let ?acts = "[Register (), Attempt 0, HubTick, HubTick, HubTick, Submit 1 (hub_order 7), Attempt 0, StopHub, HubTick]"
  have "let (h, v) = fold (hub_step spsc_push spsc_pop) ?acts (hub_start channel 8, hub_view_new :: unit hub_view)
     in h_phase h = HubExited \<and> hv_before_stop v = Some [Connect 1 (), Cmd 1 (hub_order 7)] \<and>
        hl_matcher (snd (h_loop h)) = matcher_new \<and> spsc_items (h_inbox h) = [Cmd 1 (hub_order 7)]"
    by code_simp
  then show ?thesis ..
qed

end
