(* ===== verification/Hub_Stop.thy ===== *)
theory Hub_Stop
  imports Hub_Correct
begin

text \<open>
  The loops of \<^verbatim>\<open>bourse-core/src/hub.rs\<close> that wait. \<open>Hub::stop\<close> and the drop of a hub set the flag and join the matcher thread;
  \<open>Submitter::submit\<close> and \<open>Hub::register\<close> push their message until the inbox takes it. While one waits all others go on: the
  waiting runs against an endless schedule of what submitters and the thread do, and \<open>None\<close> is not returning.
\<close>

section \<open>Stopping\<close>

partial_function (option) hub_join :: "('tx msg \<Rightarrow> 'q \<Rightarrow> ('tx msg + unit) \<times> 'q) \<Rightarrow> ('q \<Rightarrow> 'e + ('tx msg option \<times> 'q)) \<Rightarrow>
    (nat \<Rightarrow> 'tx hub_action) \<Rightarrow> nat \<Rightarrow> ('q, 'tx) hub \<times> 'tx hub_view \<Rightarrow> matcher option" where
  "hub_join push pop acts k st =
     (if h_phase (fst st) = HubExited then Some (hl_matcher (snd (h_loop (fst st))))
      else hub_join push pop acts (Suc k) (hub_step push pop (acts k) st))"

definition hub_stop :: "('tx msg \<Rightarrow> 'q \<Rightarrow> ('tx msg + unit) \<times> 'q) \<Rightarrow> ('q \<Rightarrow> 'e + ('tx msg option \<times> 'q)) \<Rightarrow>
    (nat \<Rightarrow> 'tx hub_action) \<Rightarrow> ('q, 'tx) hub \<times> 'tx hub_view \<Rightarrow> matcher option" where
  "hub_stop push pop acts st = hub_join push pop acts 0 (hub_step push pop StopHub st)"

text \<open>Dropping a hub that still has its thread.\<close>

definition hub_drop :: "('tx msg \<Rightarrow> 'q \<Rightarrow> ('tx msg + unit) \<times> 'q) \<Rightarrow> ('q \<Rightarrow> 'e + ('tx msg option \<times> 'q)) \<Rightarrow>
    (nat \<Rightarrow> 'tx hub_action) \<Rightarrow> ('q, 'tx) hub \<times> 'tx hub_view \<Rightarrow> unit option" where
  "hub_drop push pop acts st = map_option (\<lambda>_. ()) (hub_stop push pop acts st)"

text \<open>The calls of the users, each of which brings one message.\<close>

fun is_call :: "'tx hub_action \<Rightarrow> bool" where
  "is_call (Register tx) = True"
| "is_call (Submit c cmd) = True"
| "is_call (DropSubmitter c) = True"
| "is_call _ = False"

text \<open>The join returns at the first state in which the thread has returned, and only then.\<close>

lemma hub_join_at:
  "h_phase (fst (run_at (hub_step push pop) acts st (k + n))) = HubExited \<Longrightarrow>
    \<exists>j\<ge>k. h_phase (fst (run_at (hub_step push pop) acts st j)) = HubExited \<and>
      hub_join push pop acts k (run_at (hub_step push pop) acts st k) =
        Some (hl_matcher (snd (h_loop (fst (run_at (hub_step push pop) acts st j)))))"
proof (induction n arbitrary: k)
  case 0
  then show ?case by (intro exI [of _ k]) (simp add: hub_join.simps)
next
  case (Suc n)
  show ?case
  proof (cases "h_phase (fst (run_at (hub_step push pop) acts st k)) = HubExited")
    case True
    then show ?thesis by (intro exI [of _ k]) (simp add: hub_join.simps)
  next
    case False
    have "h_phase (fst (run_at (hub_step push pop) acts st (Suc k + n))) = HubExited" using Suc.prems by simp
    from Suc.IH [OF this] False show ?thesis
      by (simp add: hub_join.simps [of push pop acts k]) (meson Suc_leD)
  qed
qed

lemma hub_join_returned:
  assumes "hub_join push pop acts k st = Some r"
  shows "\<forall>s. st = run_at (hub_step push pop) acts s k \<longrightarrow> (\<exists>j. h_phase (fst (run_at (hub_step push pop) acts s j)) = HubExited)"
proof (rule hub_join.raw_induct [where P = "\<lambda>push pop acts k st r. \<forall>s. st = run_at (hub_step push pop) acts s k \<longrightarrow>
    (\<exists>j. h_phase (fst (run_at (hub_step push pop) acts s j)) = HubExited)", OF _ assms], intro allI impI)
  fix f push pop acts k st r s
  assume IH: "\<And>push pop acts k st r. f push pop acts k st = Some r \<Longrightarrow> \<forall>s. st = run_at (hub_step push pop) acts s k \<longrightarrow>
      (\<exists>j. h_phase (fst (run_at (hub_step push pop) acts s j)) = HubExited)"
    and eq: "(if h_phase (fst st) = HubExited then Some (hl_matcher (snd (h_loop (fst st))))
      else f push pop acts (Suc k) (hub_step push pop (acts k) st)) = Some r"
    and st: "st = run_at (hub_step push pop) acts s k"
  show "\<exists>j. h_phase (fst (run_at (hub_step push pop) acts s j)) = HubExited"
  proof (cases "h_phase (fst st) = HubExited")
    case True
    then show ?thesis unfolding st by (rule exI)
  next
    case False
    then have "f push pop acts (Suc k) (run_at (hub_step push pop) acts s (Suc k)) = Some r" using eq st by simp
    from IH [OF this] show ?thesis by blast
  qed
qed

lemma accepted_grows: "\<exists>ms. hv_accepted (snd (hub_step push pop a st)) = hv_accepted (snd st) @ ms"
  by (cases st; cases a) (auto simp: took_def register_def Let_def split: prod.split option.split)

lemma run_at_le:
  assumes "\<And>k. P (run_at step acts s k) \<Longrightarrow> P (run_at step acts s (Suc k))" "P (run_at step acts s 0)"
  shows "P (run_at step acts s k)"
  using assms by (induction k) blast+

section \<open>A thread that polls no more\<close>

definition past_polling :: "('q, 'tx) hub \<Rightarrow> bool" where
  "past_polling h \<longleftrightarrow> h_phase h = HubExited \<or> h_phase h = HubCheckStop \<and> h_stop_flag h"

context hub_inbox
begin

text \<open>Nothing is handled any more, and the inbox takes what it has room for.\<close>

lemma past_polling_step:
  assumes "inv (h_inbox h)" "past_polling h" "hub_step push pop a (h, v) = (h', v')"
  obtains ms where "hv_accepted v' = hv_accepted v @ ms" "inv (h_inbox h')" "past_polling h'" "h_loop h' = h_loop h"
    "length (items (h_inbox h')) = length (items (h_inbox h)) + length ms" "cap (h_inbox h') = cap (h_inbox h)"
proof (cases a)
  case (Attempt k)
  show thesis
  proof (cases "k < length (h_pending h)")
    case True
    from assms(1) show thesis
      by (cases rule: push_cases [where v = "h_pending h ! k"])
        (use Attempt True assms that [of "[h_pending h ! k]"] that [of "[]"] in \<open>auto simp: try_pending_def took_def past_polling_def\<close>)
  qed (use Attempt assms that [of "[]"] in \<open>auto simp: try_pending_def took_def\<close>)
next
  case (DropSubmitter c)
  from assms(1) show thesis
    by (cases rule: push_cases [where v = "Disconnect c"])
      (use DropSubmitter assms that [of "[Disconnect c]"] that [of "[]"] in \<open>auto simp: drop_submitter_def took_def past_polling_def\<close>)
next
  case HubTick
  then show thesis using assms that [of "[]"] by (auto simp: hub_thread_def past_polling_def)
qed (use assms that [of "[]"] in \<open>auto simp: register_def submit_def past_polling_def Let_def\<close>)

lemma past_polling_run:
  assumes "inv (h_inbox h)" "past_polling h" "fold (hub_step push pop) acts (h, v) = (h', v')"
  shows "\<exists>ms. hv_accepted v' = hv_accepted v @ ms \<and> length (items (h_inbox h)) + length ms \<le> cap (h_inbox h) \<and> h_loop h' = h_loop h"
proof -
  have "\<exists>ms. hv_accepted v' = hv_accepted v @ ms \<and> inv (h_inbox h') \<and> cap (h_inbox h') = cap (h_inbox h) \<and>
      length (items (h_inbox h')) = length (items (h_inbox h)) + length ms \<and> h_loop h' = h_loop h"
    using assms
  proof (induction acts arbitrary: h v)
    case (Cons a acts)
    obtain h1 v1 where s: "hub_step push pop a (h, v) = (h1, v1)" by (cases "hub_step push pop a (h, v)")
    obtain ms where ms: "hv_accepted v1 = hv_accepted v @ ms" "inv (h_inbox h1)" "past_polling h1" "h_loop h1 = h_loop h"
      "length (items (h_inbox h1)) = length (items (h_inbox h)) + length ms" "cap (h_inbox h1) = cap (h_inbox h)"
      by (rule past_polling_step [OF Cons.prems(1,2) s])
    from Cons.IH [OF ms(2,3)] Cons.prems(3) s ms show ?case by fastforce
  qed simp
  then show ?thesis using bounded by fastforce
qed

section \<open>What is left to do before a stop\<close>

definition stopping_hub :: "('q, 'tx) hub \<times> 'tx hub_view \<Rightarrow> bool" where
  "stopping_hub st \<longleftrightarrow> hub_inv st \<and> h_stop_flag (fst st)"

definition join_rank :: "('q, 'tx) hub \<times> 'tx hub_view \<Rightarrow> nat" where
  "join_rank st = 3 * length (h_pending (fst st)) + 2 * length (items (h_inbox (fst st))) +
     (case h_phase (fst st) of HubPolling did_work \<Rightarrow> if did_work then 3 else 2 | HubCheckStop \<Rightarrow> 1 | _ \<Rightarrow> 0)"

lemma tick_join_rank:
  assumes "hub_inv (h, v)" "h_stop_flag h" "h_phase h \<noteq> HubExited"
  shows "h_phase (hub_thread pop h) = HubExited \<or> join_rank (hub_thread pop h, v) < join_rank (h, v)"
proof (cases "h_phase h")
  case (HubPolling w)
  have "inv (h_inbox h)" using assms(1) by (simp add: hub_inv_def)
  then show ?thesis
    by (cases rule: pop_cases) (use HubPolling in \<open>auto simp: hub_thread_def join_rank_def simp del: hub_run.simps\<close>)
qed (use assms in \<open>auto simp: hub_thread_def hub_inv_def\<close>)

lemma attempt_join_rank:
  assumes "hub_inv (h, v)"
  shows "join_rank (hub_step push pop (Attempt k) (h, v)) \<le> join_rank (h, v)"
proof (cases "k < length (h_pending h)")
  case True
  have "inv (h_inbox h)" using assms by (simp add: hub_inv_def)
  then show ?thesis
    by (cases rule: push_cases [where v = "h_pending h ! k"]) (use True in \<open>auto simp: try_pending_def join_rank_def\<close>)
qed (simp add: try_pending_def took_def)

lemma stop_flag_kept: "h_stop_flag (fst st) \<Longrightarrow> h_stop_flag (fst (hub_step push pop a st))"
  by (cases st; cases a) (auto simp: register_def submit_def try_pending_def drop_submitter_def hub_thread_def Let_def
      split: prod.split sum.split option.split hub_phase.split)

lemma hub_join_fair:
  "fair_progress (hub_step push pop) stopping_hub (\<lambda>a. \<not> is_call a) (\<lambda>st. h_phase (fst st) = HubExited) join_rank (\<lambda>_. HubTick)"
proof
  fix st :: "('q, 'tx) hub \<times> 'tx hub_view" and a
  assume st: "stopping_hub st"
  obtain h v where hv: "st = (h, v)" by (cases st)
  have inv: "hub_inv (h, v)" "h_stop_flag h" using st hv by (simp_all add: stopping_hub_def)
  show "stopping_hub (hub_step push pop a st)" if "\<not> is_call a"
    using hb.inv_step [of st a] stop_flag_kept [of st a] st by (simp add: stopping_hub_def)
  assume "h_phase (fst st) \<noteq> HubExited"
  then have tick: "h_phase (hub_thread pop h) = HubExited \<or> join_rank (hub_thread pop h, v) < join_rank (h, v)"
    using tick_join_rank [OF inv] hv by simp
  then show "h_phase (fst (hub_step push pop HubTick st)) = HubExited \<or> join_rank (hub_step push pop HubTick st) < join_rank st"
    using hv by simp
  assume "\<not> is_call a"
  then consider k where "a = Attempt k" | "a = StopHub" | "a = HubTick" by (cases a) auto
  then show "h_phase (fst (hub_step push pop a st)) = HubExited \<or> join_rank (hub_step push pop a st) < join_rank st \<or>
      join_rank (hub_step push pop a st) = join_rank st \<and> HubTick = HubTick"
  proof cases
    case (1 k)
    then show ?thesis using attempt_join_rank [OF inv(1), of k] hv by (auto simp: le_less)
  qed (use tick hv in \<open>auto simp: join_rank_def\<close>)
qed

text \<open>Once it has stopped polling, a thread has handled what was accepted before the flag was set while it polled.\<close>

definition handled_before :: "'tx msg list \<Rightarrow> ('q, 'tx) hub \<times> 'tx hub_view \<Rightarrow> bool" where
  "handled_before old st \<longleftrightarrow> hub_inv st \<and> prefix old (hv_accepted (snd st)) \<and>
     (case h_phase (fst st) of HubPolling _ \<Rightarrow> True
      | _ \<Rightarrow> length old + length (items (h_inbox (fst st))) \<le> length (hv_accepted (snd st)))"

lemma handled_before_step:
  assumes "handled_before old st"
  shows "handled_before old (hub_step push pop a st)"
proof -
  obtain h v where st: "st = (h, v)" by (cases st)
  have inv: "hub_inv (h, v)" "inv (h_inbox h)" using assms st by (simp_all add: handled_before_def hub_inv_def)
  have grows: "prefix old (hv_accepted (snd (hub_step push pop a st)))"
    using accepted_grows [of push pop a st] assms by (auto simp: handled_before_def prefix_def)
  have "case h_phase (fst (hub_step push pop a (h, v))) of HubPolling _ \<Rightarrow> True
      | _ \<Rightarrow> length old + length (items (h_inbox (fst (hub_step push pop a (h, v))))) \<le> length (hv_accepted (snd (hub_step push pop a (h, v))))"
  proof (cases a)
    case (Attempt k)
    show ?thesis
    proof (cases "k < length (h_pending h)")
      case True
      from inv(2) show ?thesis
        by (cases rule: push_cases [where v = "h_pending h ! k"])
          (use Attempt True assms st in \<open>auto simp: try_pending_def took_def handled_before_def split: hub_phase.splits\<close>)
    qed (use Attempt assms st in \<open>auto simp: try_pending_def took_def handled_before_def split: hub_phase.splits\<close>)
  next
    case (DropSubmitter c)
    from inv(2) show ?thesis
      by (cases rule: push_cases [where v = "Disconnect c"])
        (use DropSubmitter assms st in \<open>auto simp: drop_submitter_def took_def handled_before_def split: hub_phase.splits\<close>)
  next
    case HubTick
    show ?thesis
    proof (cases "h_phase h")
      case (HubPolling w)
      from inv(2) show ?thesis
        by (cases rule: pop_cases) (use HubTick HubPolling assms st in
            \<open>auto simp: hub_thread_def handled_before_def prefix_length_le simp del: hub_run.simps\<close>)
    qed (use HubTick assms st in \<open>auto simp: hub_thread_def handled_before_def\<close>)
  qed (use assms st in \<open>auto simp: register_def submit_def Let_def handled_before_def split: hub_phase.splits\<close>)
  then show ?thesis using grows hb.inv_step [OF inv(1), of a] st by (simp add: handled_before_def)
qed

lemma stops:
  assumes "hub_inv (h, v)" "recurs HubTick acts" "\<forall>i\<ge>N. \<not> is_call (acts i)"
  shows "\<exists>ms k. hub_stop push pop acts (h, v) = Some (fst (run_commands (commands_of ms) (matcher_new, []))) \<and>
    prefix ms (hv_accepted (snd (run_at (hub_step push pop) acts (hub_step push pop StopHub (h, v)) k))) \<and>
    (case h_phase h of HubPolling _ \<Rightarrow> prefix (hv_accepted v) ms | _ \<Rightarrow> hv_accepted v = ms @ items (h_inbox h))"
proof -
  let ?st = "hub_step push pop StopHub (h, v)"
  let ?at = "run_at (hub_step push pop) acts ?st"
  have "stopping_hub (?at 0)" using hb.inv_step [OF assms(1), of StopHub] by (simp add: stopping_hub_def)
  then have stopping: "stopping_hub (?at k)" for k
    by (rule run_at_le [rotated]) (use hb.inv_step stop_flag_kept in \<open>auto simp: stopping_hub_def\<close>)
  have "recurs c acts" if "c \<in> range (\<lambda>_. HubTick)" for c using that assms(2) by auto
  from fair_progress.fair_reaches [OF hub_join_fair stopping assms(3) this] obtain n where "h_phase (fst (?at (0 + n))) = HubExited" by auto
  from hub_join_at [OF this] obtain k where k: "h_phase (fst (?at k)) = HubExited"
      "hub_stop push pop acts (h, v) = Some (hl_matcher (snd (h_loop (fst (?at k)))))"
    by (auto simp: hub_stop_def)
  obtain h' v' where hv: "?at k = (h', v')" by (cases "?at k")
  obtain ms where ms: "hv_accepted v' = ms @ items (h_inbox h')" "h_loop h' = hub_run ms ([], hub_loop_new)"
    using stopping [of k] hv by (auto simp: stopping_hub_def hub_inv_def)
  obtain ms0 where ms0: "hv_accepted v = ms0 @ items (h_inbox h)" "h_loop h = hub_run ms0 ([], hub_loop_new)" "inv (h_inbox h)"
    "h_phase h \<noteq> HubUndefined"
    using assms(1) by (auto simp: hub_inv_def)
  have result: "hub_stop push pop acts (h, v) = Some (fst (run_commands (commands_of xs) (matcher_new, [])))"
    if "h_loop h' = hub_run xs ([], hub_loop_new)" for xs
    using k(2) hv that hub_run_matcher [of xs "([], hub_loop_new)"] by (simp add: hub_loop_new_def)
  show ?thesis
  proof (cases "past_polling (h\<lparr>h_stop_flag := True\<rparr>)")
    case True
    have "fold (hub_step push pop) (map acts [0..<k]) (h\<lparr>h_stop_flag := True\<rparr>, snd ?st) = (h', v')" using hv by (simp add: run_at_fold)
    from past_polling_run [OF _ True this] ms0(3)
    have "h_loop h' = h_loop h" "prefix (hv_accepted v) (hv_accepted v')" by auto
    moreover have "prefix ms0 (hv_accepted v)" unfolding ms0(1) by (rule prefixI) (rule refl)
    ultimately show ?thesis
      using result [of ms0] ms0(1,2) True hv prefix_order.trans [of ms0 "hv_accepted v" "hv_accepted v'"]
      by (intro exI [of _ ms0] exI [of _ k]) (auto simp: past_polling_def split: hub_phase.splits)
  next
    case False
    then obtain w where w: "h_phase h = HubPolling w" using ms0(4) by (cases "h_phase h") (auto simp: past_polling_def)
    have "handled_before (hv_accepted v) (?at 0)"
      using hb.inv_step [OF assms(1), of StopHub] w by (simp add: handled_before_def)
    then have "handled_before (hv_accepted v) (?at k)" by (rule run_at_le [rotated]) (simp add: handled_before_step)
    then have "prefix (hv_accepted v) (hv_accepted v')" "length (hv_accepted v) \<le> length ms"
      using k(1) hv ms(1) by (simp_all add: handled_before_def)
    moreover have "prefix ms (hv_accepted v')" unfolding ms(1) by (rule prefixI) (rule refl)
    ultimately show ?thesis
      using result [OF ms(2)] w hv prefix_length_prefix [of "hv_accepted v" "hv_accepted v'" ms]
      by (intro exI [of _ ms] exI [of _ k]) simp
  qed
qed

section \<open>Submissions that never cease\<close>

text \<open>As long as a message is accepted, or the inbox is full, before each turn of the thread, it goes on polling.\<close>

lemma busy_turns:
  assumes "hub_inv (h, v)" "0 < cap (h_inbox h)" "h_phase h = HubPolling w"
    "fold (hub_step push pop) [Submit c cmd, Attempt 0, HubTick] (h, v) = (h', v')"
  shows "hub_inv (h', v')" "cap (h_inbox h') = cap (h_inbox h)" "h_phase h' = HubPolling True"
proof -
  show "hub_inv (h', v')" using hb.inv_run [OF assms(1), of "[Submit c cmd, Attempt 0, HubTick]"] assms(4) by simp
  let ?h = "submit c cmd h"
  have some: "0 < length (h_pending ?h)" "h_inbox ?h = h_inbox h" "h_phase ?h = h_phase h" "inv (h_inbox h)"
    using assms(1) by (simp_all add: submit_def hub_inv_def)
  obtain h1 m where h1: "try_pending push 0 ?h = (m, h1)" "inv (h_inbox h1)" "items (h_inbox h1) \<noteq> []" "h_phase h1 = h_phase h"
      "cap (h_inbox h1) = cap (h_inbox h)"
    using some(4)
  proof (cases rule: push_cases [where v = "h_pending ?h ! 0"])
    case (Room q)
    then show thesis using some that by (simp add: try_pending_def)
  next
    case (Full q)
    then have "items (h_inbox h) \<noteq> []" using assms(2) by auto
    with Full show thesis using some that by (simp add: try_pending_def)
  qed
  then obtain x xs where x: "items (h_inbox h1) = x # xs" by (cases "items (h_inbox h1)") auto
  obtain q where q: "pop (h_inbox h1) = Inr (Some x, q)" "cap q = cap (h_inbox h1)" using pop_some [OF h1(2) x] by blast
  have "h' = hub_thread pop h1" using assms(4) h1(1) by simp
  with q h1(4,5) assms(3) show "cap (h_inbox h') = cap (h_inbox h)" "h_phase h' = HubPolling True"
    by (simp_all add: hub_thread_def)
qed

end

text \<open>One submission for each turn of the thread.\<close>

definition flood :: "conn_id \<Rightarrow> hub_command \<Rightarrow> nat \<Rightarrow> 'tx hub_action" where
  "flood c cmd k = [Submit c cmd, Attempt 0, HubTick] ! (k mod 3)"

lemma flood_simps: "flood c cmd (3 * n) = Submit c cmd" "flood c cmd (Suc (3 * n)) = Attempt 0" "flood c cmd (Suc (Suc (3 * n))) = HubTick"
proof -
  have "Suc (3 * n) mod 3 = 1" "Suc (Suc (3 * n)) mod 3 = 2" by presburger+
  then show "flood c cmd (3 * n) = Submit c cmd" "flood c cmd (Suc (3 * n)) = Attempt 0" "flood c cmd (Suc (Suc (3 * n))) = HubTick"
    by (simp_all add: flood_def)
qed

lemma flood_recurs: "recurs HubTick (flood c cmd)"
  unfolding recurs_def
proof
  fix i
  have "i \<le> Suc (Suc (3 * i))" by simp
  then show "\<exists>j\<ge>i. flood c cmd j = HubTick" using flood_simps(3) by blast
qed

lemma run_at_flood:
  "run_at step (flood c cmd) s (3 * Suc n) = fold step [Submit c cmd, Attempt 0, HubTick] (run_at step (flood c cmd) s (3 * n))"
proof -
  have "3 * Suc n = Suc (Suc (Suc (3 * n)))" by simp
  then show ?thesis by (simp only: run_at.simps flood_simps) simp
qed

lemma exited_step: "h_phase (fst st) = HubExited \<Longrightarrow> h_phase (fst (hub_step push pop a st)) = HubExited"
  by (cases st; cases a)
    (auto simp: register_def submit_def try_pending_def drop_submitter_def hub_thread_def Let_def split: prod.split sum.split)

context hub_inbox
begin

lemma flood_polls:
  assumes "hub_inv st" "0 < cap (h_inbox (fst st))" "h_phase (fst st) = HubPolling w"
  shows "\<exists>w. h_phase (fst (run_at (hub_step push pop) (flood c cmd) st (3 * n))) = HubPolling w \<and>
    hub_inv (run_at (hub_step push pop) (flood c cmd) st (3 * n)) \<and>
    0 < cap (h_inbox (fst (run_at (hub_step push pop) (flood c cmd) st (3 * n))))"
proof (induction n)
  case (Suc n)
  let ?s = "run_at (hub_step push pop) (flood c cmd) st (3 * n)"
  obtain h v where hv: "?s = (h, v)" by (cases ?s)
  obtain h' v' where run: "fold (hub_step push pop) [Submit c cmd, Attempt 0, HubTick] (h, v) = (h', v')" by fastforce
  then have "run_at (hub_step push pop) (flood c cmd) st (3 * Suc n) = (h', v')"
    using run_at_flood [of "hub_step push pop" c cmd st n] hv by (simp only:)
  then show ?case using busy_turns [OF _ _ _ run] Suc.IH hv by fastforce
qed (use assms in simp)

lemma never_stops:
  assumes "hub_inv (h, v)" "0 < cap (h_inbox h)" "h_phase h = HubPolling w"
  shows "hub_stop push pop (flood c cmd) (h, v) = None"
proof (rule ccontr)
  let ?st = "hub_step push pop StopHub (h, v)"
  let ?at = "run_at (hub_step push pop) (flood c cmd) ?st"
  assume "hub_stop push pop (flood c cmd) (h, v) \<noteq> None"
  then obtain r where "hub_join push pop (flood c cmd) 0 ?st = Some r" by (auto simp: hub_stop_def)
  from hub_join_returned [OF this] obtain j where j: "h_phase (fst (?at j)) = HubExited" by auto
  have "h_phase (fst (?at (j + n))) = HubExited" for n
    by (induction n) (use j in \<open>simp_all add: exited_step\<close>)
  from this [of "2 * j"] have "h_phase (fst (?at (3 * j))) = HubExited" by (simp add: numeral_3_eq_3)
  moreover have "\<exists>w. h_phase (fst (?at (3 * j))) = HubPolling w"
    using flood_polls [of ?st w c cmd j] hb.inv_step [OF assms(1), of StopHub] assms(2,3) by auto
  ultimately show False by simp
qed

section \<open>Submissions in flight\<close>

text \<open>The inbox has room, or will have at one of the next turns of the thread.\<close>

definition room_rank :: "('q, 'tx) hub \<times> 'tx hub_view \<Rightarrow> nat" where
  "room_rank st = (if length (items (h_inbox (fst st))) < cap (h_inbox (fst st)) then 0
     else if h_phase (fst st) = HubCheckStop then 2 else 1)"

definition makes_room :: "('q, 'tx) hub \<times> 'tx hub_view \<Rightarrow> 'tx hub_action" where
  "makes_room st = (if length (items (h_inbox (fst st))) < cap (h_inbox (fst st)) then Attempt 0 else HubTick)"

definition submitting :: "nat \<Rightarrow> ('q, 'tx) hub \<times> 'tx hub_view \<Rightarrow> bool" where
  "submitting n st \<longleftrightarrow> hub_inv st \<and> 0 < cap (h_inbox (fst st)) \<and> \<not> h_stop_flag (fst st) \<and> h_phase (fst st) \<noteq> HubExited \<and>
     (n < length (hv_accepted (snd st)) \<or> h_pending (fst st) \<noteq> [])"

lemma submitting_outside:
  assumes "submitting n (h, v)" "n \<le> length (hv_accepted v)" "a \<noteq> StopHub" "a \<noteq> HubTick" "hub_step push pop a (h, v) = (h', v')"
  shows "submitting n (h', v')" "n < length (hv_accepted v') \<or> room_rank (h', v') = room_rank (h, v) \<and> makes_room (h', v') = makes_room (h, v)"
proof -
  have inv: "hub_inv (h, v)" "inv (h_inbox h)" using assms(1) by (simp_all add: submitting_def hub_inv_def)
  have "hub_inv (h', v')" using hb.inv_step [OF inv(1), of a] assms(5) by simp
  moreover have "(0 < cap (h_inbox h') \<and> \<not> h_stop_flag h' \<and> h_phase h' \<noteq> HubExited \<and> (n < length (hv_accepted v') \<or> h_pending h' \<noteq> [])) \<and>
      (n < length (hv_accepted v') \<or> room_rank (h', v') = room_rank (h, v) \<and> makes_room (h', v') = makes_room (h, v))"
  proof (cases a)
    case (Attempt k)
    show ?thesis
    proof (cases "k < length (h_pending h)")
      case True
      from inv(2) show ?thesis
        by (cases rule: push_cases [where v = "h_pending h ! k"])
          (use Attempt True assms in \<open>auto simp: try_pending_def took_def submitting_def room_rank_def makes_room_def\<close>)
    qed (use Attempt assms in \<open>auto simp: try_pending_def took_def submitting_def\<close>)
  next
    case (DropSubmitter c)
    from inv(2) show ?thesis
      by (cases rule: push_cases [where v = "Disconnect c"])
        (use DropSubmitter assms in \<open>auto simp: drop_submitter_def took_def submitting_def room_rank_def makes_room_def\<close>)
  qed (use assms in \<open>auto simp: register_def submit_def submitting_def room_rank_def makes_room_def Let_def\<close>)
  ultimately show "submitting n (h', v')" "n < length (hv_accepted v') \<or> room_rank (h', v') = room_rank (h, v) \<and> makes_room (h', v') = makes_room (h, v)"
    by (simp_all add: submitting_def)
qed

lemma submitting_tick:
  assumes "submitting n (h, v)"
  shows "submitting n (hub_thread pop h, v)"
    "if length (items (h_inbox h)) < cap (h_inbox h) then room_rank (hub_thread pop h, v) = 0 \<and> makes_room (hub_thread pop h, v) = Attempt 0
     else room_rank (hub_thread pop h, v) < room_rank (h, v)"
proof -
  have inv: "hub_inv (h, v)" "inv (h_inbox h)" using assms by (simp_all add: submitting_def hub_inv_def)
  have "hub_inv (hub_thread pop h, v)" using hb.inv_step [OF inv(1), of HubTick] by simp
  moreover have "(0 < cap (h_inbox (hub_thread pop h)) \<and> \<not> h_stop_flag (hub_thread pop h) \<and> h_phase (hub_thread pop h) \<noteq> HubExited \<and>
        h_pending (hub_thread pop h) = h_pending h) \<and>
      (if length (items (h_inbox h)) < cap (h_inbox h) then room_rank (hub_thread pop h, v) = 0 \<and> makes_room (hub_thread pop h, v) = Attempt 0
       else room_rank (hub_thread pop h, v) < room_rank (h, v))"
  proof (cases "h_phase h")
    case (HubPolling w)
    from inv(2) show ?thesis
      by (cases rule: pop_cases)
        (use HubPolling assms bounded [OF inv(2)] in \<open>auto simp: hub_thread_def submitting_def room_rank_def makes_room_def simp del: hub_run.simps\<close>)
  qed (use assms in \<open>auto simp: hub_thread_def submitting_def room_rank_def makes_room_def hub_inv_def\<close>)
  ultimately show "submitting n (hub_thread pop h, v)"
    "if length (items (h_inbox h)) < cap (h_inbox h) then room_rank (hub_thread pop h, v) = 0 \<and> makes_room (hub_thread pop h, v) = Attempt 0
     else room_rank (hub_thread pop h, v) < room_rank (h, v)"
    using assms by (auto simp: submitting_def)
qed

lemma submit_fair:
  "fair_progress (hub_step push pop) (\<lambda>st. submitting n st \<and> n \<le> length (hv_accepted (snd st))) (\<lambda>a. a \<noteq> StopHub)
     (\<lambda>st. n < length (hv_accepted (snd st))) room_rank makes_room"
proof
  fix st :: "('q, 'tx) hub \<times> 'tx hub_view" and a
  assume st: "submitting n st \<and> n \<le> length (hv_accepted (snd st))"
  obtain h v where hv: "st = (h, v)" by (cases st)
  have sub: "submitting n (h, v)" "n \<le> length (hv_accepted v)" using st hv by simp_all
  note tick = submitting_tick [OF sub(1)]
  have outside: "submitting n (hub_step push pop b (h, v))"
    "n < length (hv_accepted (snd (hub_step push pop b (h, v)))) \<or>
     room_rank (hub_step push pop b (h, v)) = room_rank (h, v) \<and> makes_room (hub_step push pop b (h, v)) = makes_room (h, v)"
    if "b \<noteq> StopHub" "b \<noteq> HubTick" for b
    using submitting_outside [OF sub that, of "fst (hub_step push pop b (h, v))" "snd (hub_step push pop b (h, v))"] by simp_all
  show "submitting n (hub_step push pop a st) \<and> n \<le> length (hv_accepted (snd (hub_step push pop a st)))" if "a \<noteq> StopHub"
    using that tick(1) outside(1) [of a] accepted_grows [of push pop a st] sub(2) hv by (cases "a = HubTick") auto
  assume going: "\<not> n < length (hv_accepted (snd st))"
  show "n < length (hv_accepted (snd (hub_step push pop (makes_room st) st))) \<or> room_rank (hub_step push pop (makes_room st) st) < room_rank st"
  proof (cases "length (items (h_inbox h)) < cap (h_inbox h)")
    case True
    have "0 < length (h_pending h)" "inv (h_inbox h)" using sub(1) going hv by (auto simp: submitting_def hub_inv_def)
    then show ?thesis
      using push_room [of "h_inbox h" "h_pending h ! 0"] True sub(2) hv by (auto simp: makes_room_def try_pending_def took_def)
  qed (use tick(2) hv in \<open>simp add: makes_room_def\<close>)
  assume "a \<noteq> StopHub"
  then show "n < length (hv_accepted (snd (hub_step push pop a st))) \<or> room_rank (hub_step push pop a st) < room_rank st \<or>
      room_rank (hub_step push pop a st) = room_rank st \<and> makes_room (hub_step push pop a st) = makes_room st"
  proof (cases "a = HubTick")
    case True
    then show ?thesis using tick(2) hv by (auto simp: room_rank_def makes_room_def split: if_splits)
  qed (use outside(2) [of a] hv in auto)
qed

lemma submits:
  assumes "hub_inv (h, v)" "0 < cap (h_inbox h)" "\<not> h_stop_flag h" "h_phase h \<noteq> HubExited" "h_pending h \<noteq> []"
    "recurs HubTick acts" "recurs (Attempt 0) acts" "\<forall>i. acts i \<noteq> StopHub"
  shows "\<exists>k. length (hv_accepted v) < length (hv_accepted (snd (run_at (hub_step push pop) acts (h, v) k)))"
proof -
  have "recurs c acts" if "c \<in> range makes_room" for c using that assms(6,7) by (auto simp: makes_room_def)
  from fair_progress.fair_reaches [OF submit_fair [of "length (hv_accepted v)"], of acts "(h, v)" 0] this assms show ?thesis
    by (auto simp: submitting_def)
qed

lemma reachable_hub_inv:
  assumes "unat n \<le> 2 ^ 63" "fold (hub_step push pop) acts (hub_start new_queue n, hub_view_new) = (h, v)"
  shows "hub_inv (h, v)"
  using hb.inv_run [OF hub_inv_start [OF assms(1)], of acts] assms(2) by simp

lemma submission:
  assumes "hub_inv (h, v)" "0 < cap (h_inbox h)"
  shows "if past_polling h
    then \<forall>acts' h' v'. fold (hub_step push pop) acts' (h, v) = (h', v') \<longrightarrow>
      (\<exists>ms. hv_accepted v' = hv_accepted v @ ms \<and> length (items (h_inbox h)) + length ms \<le> cap (h_inbox h) \<and> h_loop h' = h_loop h)
    else \<forall>acts'. \<not> h_stop_flag h \<and> h_pending h \<noteq> [] \<and> recurs HubTick acts' \<and> recurs (Attempt 0) acts' \<and> (\<forall>i. acts' i \<noteq> StopHub) \<longrightarrow>
      (\<exists>k. length (hv_accepted v) < length (hv_accepted (snd (run_at (hub_step push pop) acts' (h, v) k))))"
proof (cases "past_polling h")
  case True
  have "inv (h_inbox h)" using assms(1) by (simp add: hub_inv_def)
  then show ?thesis using past_polling_run [OF _ True] True by simp
next
  case False
  then show ?thesis using submits [OF assms] by (auto simp: past_polling_def)
qed

lemma stopping:
  assumes "hub_inv (h, v)" "0 < cap (h_inbox h)"
  shows "(\<forall>acts' N. recurs HubTick acts' \<and> (\<forall>i\<ge>N. \<not> is_call (acts' i)) \<longrightarrow>
      (\<exists>ms k. hub_stop push pop acts' (h, v) = Some (fst (run_commands (commands_of ms) (matcher_new, []))) \<and>
        prefix ms (hv_accepted (snd (run_at (hub_step push pop) acts' (hub_step push pop StopHub (h, v)) k))) \<and>
        (case h_phase h of HubPolling _ \<Rightarrow> prefix (hv_accepted v) ms | _ \<Rightarrow> hv_accepted v = ms @ items (h_inbox h)))) \<and>
    (case h_phase h of HubPolling _ \<Rightarrow> \<forall>c cmd. recurs HubTick (flood c cmd :: nat \<Rightarrow> 'tx hub_action) \<and> hub_stop push pop (flood c cmd) (h, v) = None
     | _ \<Rightarrow> True)"
  using stops [OF assms(1)] never_stops [OF assms] flood_recurs by (auto split: hub_phase.split)

end

section \<open>Guarantees\<close>


definition late_hub :: "unit hub_action list \<Rightarrow> (unit msg spsc, unit) hub \<times> unit hub_view" where
  "late_hub stop = fold (hub_step spsc_push spsc_pop) (stop @ concat (replicate 8 [Submit 1 (Cancel 5), Attempt 0]) @ [Submit 1 (Cancel 5)])
     (hub_start channel 8, hub_view_new)"

definition keep_trying :: "nat \<Rightarrow> unit hub_action" where
  "keep_trying k = (if even k then Attempt 0 else HubTick)"


text \<open>C26. Stopping the hub, and dropping it, while its submitters go on. In every schedule in which the matcher thread keeps getting turns and the
  users at some time make no further calls (those in flight may go on trying), \<open>stop\<close> returns, however many messages wait, since sending
  an event never waits. The matcher it returns has executed the commands of a prefix of the messages that were accepted; all that
  were accepted before the call, if the thread was polling then; if it was past its last poll, those still in the inbox are
  lost. But if a submitter never ceases, one submission for each turn of a thread that was polling, \<open>stop\<close> never returns, although the
  thread keeps getting turns: the pass over the inbox does not look at the flag.\<close>

theorem hub_stop_exact:
  fixes h :: "('q, 'tx) hub"
  assumes "hub_inbox ok items cap push pop new_queue" "unat n \<le> 2 ^ 63"
    "fold (hub_step push pop) acts (hub_start new_queue n, hub_view_new) = (h, v)" "0 < cap (h_inbox h)"
  shows "(\<forall>acts' N. recurs HubTick acts' \<and> (\<forall>i\<ge>N. \<not> is_call (acts' i)) \<longrightarrow>
      (\<exists>ms k. hub_stop push pop acts' (h, v) = Some (fst (run_commands (commands_of ms) (matcher_new, []))) \<and>
        prefix ms (hv_accepted (snd (run_at (hub_step push pop) acts' (hub_step push pop StopHub (h, v)) k))) \<and>
        (case h_phase h of HubPolling _ \<Rightarrow> prefix (hv_accepted v) ms | _ \<Rightarrow> hv_accepted v = ms @ items (h_inbox h)))) \<and>
    (case h_phase h of HubPolling _ \<Rightarrow> \<forall>c cmd. recurs HubTick (flood c cmd :: nat \<Rightarrow> 'tx hub_action) \<and> hub_stop push pop (flood c cmd) (h, v) = None
     | _ \<Rightarrow> True)"
  by (rule hub_inbox.stopping [OF assms(1) hub_inbox.reachable_hub_inv [OF assms(1-3)] assms(4)])

definition waiting_hub :: "(string msg spsc, string) hub \<times> string hub_view" where
  "waiting_hub = fold (hub_step spsc_push spsc_pop) [Register ''tx1'', Attempt 0, Submit 1 (hub_order 7), Attempt 0] (hub_start channel 8, hub_view_new)"

theorem hub_stop_exact_witness:
  "(\<exists>ms. prefix [Connect 1 ''tx1'', Cmd 1 (hub_order 7)] ms \<and>
      hub_stop spsc_push spsc_pop (\<lambda>_. HubTick) waiting_hub = Some (fst (run_commands (commands_of ms) (matcher_new, [])))) \<and>
   hub_stop spsc_push spsc_pop (flood 1 (Cancel 5)) waiting_hub = None"
proof -
  have facts: "hv_accepted (snd waiting_hub) = [Connect 1 ''tx1'', Cmd 1 (hub_order 7)]"
    "spsc_cap (h_inbox (fst waiting_hub)) = 8" "h_phase (fst waiting_hub) = HubPolling False"
    by code_simp+
  have run: "fold (hub_step spsc_push spsc_pop) [Register ''tx1'', Attempt 0, Submit 1 (hub_order 7), Attempt 0] (hub_start channel 8, hub_view_new) =
    (fst waiting_hub, snd waiting_hub)" by (simp add: waiting_hub_def)
  have "recurs HubTick (\<lambda>_ :: nat. HubTick :: string hub_action)" by (auto simp: recurs_def)
  then show ?thesis
    using hub_stop_exact [OF ring_inbox.hub_inbox_axioms _ run] facts by fastforce
qed

end
