(* ===== verification/Hub_Live.thy ===== *)
theory Hub_Live
  imports Hub_Correct
begin

text \<open>
  Progress of the hub of \<^verbatim>\<open>bourse-core/src/hub.rs\<close>: a message that the inbox has accepted is handled, as long as nobody
  stops the hub and its thread keeps getting turns.
\<close>

context hub_inbox
begin

text \<open>The first \<open>n\<close> messages are in the inbox or handled, and the thread is in its loop.\<close>

definition serving :: "nat \<Rightarrow> ('q, 'tx) hub \<times> 'tx hub_view \<Rightarrow> bool" where
  "serving n st \<longleftrightarrow> hub_inv st \<and> \<not> h_stop_flag (fst st) \<and> h_phase (fst st) \<noteq> HubExited \<and> n \<le> length (hv_accepted (snd st))"

definition unhandled :: "nat \<Rightarrow> ('q, 'tx) hub \<times> 'tx hub_view \<Rightarrow> nat" where
  "unhandled n st = n - (length (hv_accepted (snd st)) - length (items (h_inbox (fst st))))"

definition serve_rank :: "nat \<Rightarrow> ('q, 'tx) hub \<times> 'tx hub_view \<Rightarrow> nat" where
  "serve_rank n st = 2 * unhandled n st + (if h_phase (fst st) = HubCheckStop then 1 else 0)"

lemma inbox_share: "hub_inv (h, v) \<Longrightarrow> length (items (h_inbox h)) \<le> length (hv_accepted v)"
  by (auto simp: hub_inv_def)

text \<open>What the others do leaves the messages accepted before where they are.\<close>

lemma outside_rank:
  assumes "hub_inv (h, v)" "a \<noteq> HubTick" "n \<le> length (hv_accepted v)"
  shows "serve_rank n (hub_step push pop a (h, v)) = serve_rank n (h, v) \<and>
    h_phase (fst (hub_step push pop a (h, v))) = h_phase h \<and> n \<le> length (hv_accepted (snd (hub_step push pop a (h, v))))"
proof -
  have inbox: "inv (h_inbox h)" using assms(1) by (simp add: hub_inv_def)
  note share = inbox_share [OF assms(1)]
  show ?thesis
  proof (cases a)
    case (Attempt k)
    show ?thesis
    proof (cases "k < length (h_pending h)")
      case True
      from inbox show ?thesis
        by (cases rule: push_cases [where v = "h_pending h ! k"])
          (use Attempt True share assms(3) in \<open>auto simp: try_pending_def took_def serve_rank_def unhandled_def Suc_diff_le\<close>)
    qed (use Attempt assms(3) in \<open>simp add: try_pending_def took_def\<close>)
  next
    case (DropSubmitter c)
    from inbox show ?thesis
      by (cases rule: push_cases [where v = "Disconnect c"])
        (use DropSubmitter share assms(3) in \<open>auto simp: drop_submitter_def took_def serve_rank_def unhandled_def Suc_diff_le\<close>)
  qed (use assms in \<open>auto simp: serve_rank_def unhandled_def register_def submit_def Let_def\<close>)
qed

lemma tick_rank:
  assumes "serving n (h, v)" "unhandled n (h, v) \<noteq> 0"
  shows "serve_rank n (hub_thread pop h, v) < serve_rank n (h, v)"
proof -
  have inv: "hub_inv (h, v)" "inv (h_inbox h)" using assms(1) by (simp_all add: serving_def hub_inv_def)
  have "items (h_inbox h) \<noteq> []" using assms by (auto simp: unhandled_def serving_def)
  then obtain m ms where ms: "items (h_inbox h) = m # ms" by (cases "items (h_inbox h)") auto
  obtain q where q: "pop (h_inbox h) = Inr (Some m, q)" "items q = ms" using pop_some [OF inv(2) ms] by blast
  show ?thesis
  proof (cases "h_phase h")
    case (HubPolling w)
    then show ?thesis
      using q ms assms(2) inbox_share [OF inv(1)]
      by (auto simp: hub_thread_def serve_rank_def unhandled_def simp del: hub_run.simps)
  qed (use assms(1) in \<open>auto simp: hub_thread_def serve_rank_def unhandled_def serving_def hub_inv_def\<close>)
qed

lemma thread_stays: "\<not> h_stop_flag h \<Longrightarrow> h_phase h \<noteq> HubExited \<Longrightarrow> \<not> h_stop_flag (hub_thread pop h) \<and> h_phase (hub_thread pop h) \<noteq> HubExited"
  by (auto simp: hub_thread_def split: hub_phase.split sum.split prod.split option.split)

lemma flag_stays: "a \<noteq> StopHub \<Longrightarrow> \<not> h_stop_flag h \<Longrightarrow> a \<noteq> HubTick \<Longrightarrow> \<not> h_stop_flag (fst (hub_step push pop a (h, v)))"
  by (cases a) (auto simp: register_def submit_def try_pending_def drop_submitter_def Let_def split: prod.split sum.split)

lemma serving_step:
  assumes "serving n st" "a \<noteq> StopHub"
  shows "serving n (hub_step push pop a st)"
proof -
  obtain h v where st: "st = (h, v)" by (cases st)
  have inv: "hub_inv (h, v)" "\<not> h_stop_flag h" "h_phase h \<noteq> HubExited" "n \<le> length (hv_accepted v)"
    using assms(1) by (simp_all add: serving_def st)
  show ?thesis
  proof (cases "a = HubTick")
    case True
    then show ?thesis using thread_stays [OF inv(2,3)] inv hb.inv_step [OF inv(1), of HubTick] by (simp add: serving_def st)
  next
    case False
    then show ?thesis
      using hb.inv_step [OF inv(1), of a] outside_rank [OF inv(1) False inv(4)] flag_stays [OF assms(2) inv(2) False, of v] inv(3)
      by (simp add: serving_def st)
  qed
qed

lemma hub_fair: "fair_progress (hub_step push pop) (serving n) (\<lambda>a. a \<noteq> StopHub) (\<lambda>st. unhandled n st = 0) (serve_rank n) (\<lambda>_. HubTick)"
proof
  fix st :: "('q, 'tx) hub \<times> 'tx hub_view" and a
  assume st: "serving n st"
  obtain h v where hv: "st = (h, v)" by (cases st)
  show "serving n (hub_step push pop a st)" if "a \<noteq> StopHub" using serving_step [OF st that] .
  assume "unhandled n st \<noteq> 0"
  then have tick: "serve_rank n (hub_step push pop HubTick st) < serve_rank n st" using tick_rank [of n h v] st hv by simp
  then show "unhandled n (hub_step push pop HubTick st) = 0 \<or> serve_rank n (hub_step push pop HubTick st) < serve_rank n st" ..
  show "unhandled n (hub_step push pop a st) = 0 \<or> serve_rank n (hub_step push pop a st) < serve_rank n st \<or>
      serve_rank n (hub_step push pop a st) = serve_rank n st \<and> HubTick = HubTick"
    using tick outside_rank [of h v a n] st hv by (cases "a = HubTick") (auto simp: serving_def)
qed

lemma handles:
  assumes "unat n \<le> 2 ^ 63" "recurs HubTick acts" "\<forall>i. acts i \<noteq> StopHub"
  defines "at \<equiv> run_at (hub_step push pop) acts (hub_start new_queue n, hub_view_new)"
  shows "\<exists>k\<ge>i. \<exists>ms. prefix (hv_accepted (snd (at i))) ms \<and> h_loop (fst (at k)) = hub_run ms ([], hub_loop_new)"
proof -
  let ?n = "length (hv_accepted (snd (at i)))"
  have inv: "hub_inv (at k)" for k
    using hb.inv_run [OF hub_inv_start [OF assms(1)], of "map acts [0..<k]"] by (simp add: at_def run_at_fold)
  have "serving 0 (at k)" for k
    using fair_progress.inv_at [OF hub_fair [of 0], of acts "(hub_start new_queue n, hub_view_new)" 0 k] assms(3) hub_inv_start [OF assms(1)]
    by (simp add: at_def serving_def hub_start_def)
  then have "serving ?n (at i)" by (simp add: serving_def)
  from fair_progress.fair_reaches [OF hub_fair this [unfolded at_def]] assms(2,3) obtain k where
      k: "k \<ge> i" "unhandled ?n (at k) = 0" by (auto simp: at_def)
  have grow: "prefix (hv_accepted (snd (at i))) (hv_accepted (snd (at k)))" using k(1)
  proof (induction k rule: dec_induct)
    case (step k)
    obtain h v where "at k = (h, v)" by (cases "at k")
    then have "prefix (hv_accepted (snd (at k))) (hv_accepted (snd (at (Suc k))))"
      by (cases "acts k") (auto simp: at_def took_def register_def Let_def split: prod.split option.split)
    with step.IH show ?case by (rule prefix_order.trans)
  qed simp
  obtain ms where ms: "hv_accepted (snd (at k)) = ms @ items (h_inbox (fst (at k)))" "h_loop (fst (at k)) = hub_run ms ([], hub_loop_new)"
    using inv [of k] by (auto simp: hub_inv_def split: prod.splits)
  have "?n \<le> length ms" using k(2) ms(1) by (simp add: unhandled_def)
  moreover have "prefix ms (hv_accepted (snd (at k)))" unfolding ms(1) by (rule prefixI) (rule refl)
  ultimately have "prefix (hv_accepted (snd (at i))) ms" using prefix_length_prefix [OF grow] by blast
  with ms(2) k(1) show ?thesis by blast
qed

end

section \<open>Guarantees\<close>

text \<open>C24. What the inbox has accepted is executed: in every schedule in which the matcher thread keeps getting turns and
  nobody stops the hub, whatever else its users do, each message accepted by some time has been handled at some later time, after those before it.\<close>

theorem hub_handles_accepted:
  assumes "hub_inbox ok items cap push pop new_queue" "unat n \<le> 2 ^ 63" "recurs HubTick acts" "\<forall>i. acts i \<noteq> StopHub"
  shows "\<exists>k\<ge>i. \<exists>ms.
    prefix (hv_accepted (snd (run_at (hub_step push pop) acts (hub_start new_queue n, hub_view_new) i))) ms \<and>
    h_loop (fst (run_at (hub_step push pop) acts (hub_start new_queue n, hub_view_new) k)) = hub_run ms ([], hub_loop_new)"
  by (rule hub_inbox.handles [OF assms])

definition eager :: "nat \<Rightarrow> string hub_action" where
  "eager k = (if k = 0 then Register ''tx1'' else if k = 1 then Attempt 0 else HubTick)"

theorem hub_handles_accepted_witness:
  "\<exists>k\<ge>2. \<exists>ms. prefix [Connect 1 ''tx1''] ms \<and>
    h_loop (fst (run_at (hub_step spsc_push spsc_pop) eager (hub_start channel 8, hub_view_new) k)) = hub_run ms ([], hub_loop_new)"
proof -
  have "recurs HubTick eager" unfolding recurs_def eager_def by (metis add_2_eq_Suc' le_add1 nat.distinct(1) One_nat_def nat.inject)
  moreover have "\<forall>i. eager i \<noteq> StopHub" by (simp add: eager_def)
  moreover have "hv_accepted (snd (run_at (hub_step spsc_push spsc_pop) eager (hub_start channel 8, hub_view_new) 2)) = [Connect 1 ''tx1'']" by code_simp
  ultimately show ?thesis using hub_handles_accepted [OF ring_inbox.hub_inbox_axioms, of 8 eager 2] by simp
qed

end
