(* ===== verification/Hub_Streams.thy ===== *)
theory Hub_Streams
  imports Hub_Correct
begin

text \<open>
  What one connection receives of a hub that it shares with others: exactly the events that name one of its orders, in the
  order of the market. The hypotheses are what \<open>register\<close> and well-behaved clients guarantee: a connection is
  registered before it submits, with a channel of its own, and no order id is submitted twice.
\<close>

section \<open>Hypotheses\<close>

fun new_ids :: "'tx msg list \<Rightarrow> order_id list" where
  "new_ids [] = []"
| "new_ids (m # ms) = (case m of Cmd c (New no) \<Rightarrow> no_id no # new_ids ms | _ \<Rightarrow> new_ids ms)"

text \<open>A message that does not touch the registration of \<open>c\<close> and its channel \<open>tx\<close>.\<close>

fun unrelated :: "conn_id \<Rightarrow> 'tx \<Rightarrow> 'tx msg \<Rightarrow> bool" where
  "unrelated c tx (Connect c' tx') \<longleftrightarrow> c' \<noteq> c \<and> tx' \<noteq> tx"
| "unrelated c tx (Disconnect c') \<longleftrightarrow> c' \<noteq> c"
| "unrelated c tx (Cmd c' cmd) \<longleftrightarrow> True"

fun msg_conn :: "'tx msg \<Rightarrow> conn_id" where
  "msg_conn (Connect c tx) = c"
| "msg_conn (Disconnect c) = c"
| "msg_conn (Cmd c cmd) = c"

fun sent_by :: "conn_id \<Rightarrow> 'tx msg \<Rightarrow> bool" where
  "sent_by c (Cmd c' cmd) \<longleftrightarrow> c' = c"
| "sent_by c _ \<longleftrightarrow> False"

definition registered_once :: "conn_id \<Rightarrow> 'tx \<Rightarrow> 'tx msg list \<Rightarrow> 'tx msg list \<Rightarrow> bool" where
  "registered_once c tx pre post \<longleftrightarrow> list_all (unrelated c tx) (pre @ post) \<and> \<not> list_ex (sent_by c) pre"

lemma sent_by_conn: "sent_by c m \<Longrightarrow> msg_conn m = c"
  by (cases m) simp_all

lemma new_ids_append [simp]: "new_ids (ms @ ms') = new_ids ms @ new_ids ms'"
  by (induction ms) (auto split: msg.split command.split)

lemma submitted_by_new:
  "dom (submitted_by m s) = dom s \<union> set (new_ids [m])" "i \<notin> set (new_ids [m]) \<Longrightarrow> submitted_by m s i = s i"
  "ran (submitted_by m s) \<subseteq> ran s \<union> {c. sent_by c m}"
proof -
  show "dom (submitted_by m s) = dom s \<union> set (new_ids [m])"
  proof (cases m)
    case (Cmd c cmd)
    then show ?thesis by (cases cmd) auto
  qed auto
  show "submitted_by m s i = s i" if "i \<notin> set (new_ids [m])"
  proof (cases m)
    case (Cmd c cmd)
    with that show ?thesis by (cases cmd) auto
  qed auto
  show "ran (submitted_by m s) \<subseteq> ran s \<union> {c. sent_by c m}"
  proof (cases m)
    case (Cmd c cmd)
    then show ?thesis by (cases cmd) (auto simp: ran_def)
  qed auto
qed

lemma dom_submitters: "dom (submitters ms) = set (new_ids ms)"
  by (induction ms rule: rev_induct) (simp_all add: submitted_by_new(1) del: new_ids.simps(2))

text \<open>With distinct ids an order keeps its submitter.\<close>

lemma submitters_stable:
  assumes "distinct (new_ids (ms @ ms'))" "i \<in> set (new_ids ms)"
  shows "submitters (ms @ ms') i = submitters ms i"
  using assms(1)
proof (induction ms' rule: rev_induct)
  case (snoc m ms')
  then have "submitters (ms @ ms') i = submitters ms i" "i \<notin> set (new_ids [m])" using assms(2) by auto
  then show ?case
    using submitters_simps(2) [of "ms @ ms'" m] submitted_by_new(2) [of i m] by simp
qed simp

lemma ran_submitters: "\<not> list_ex (sent_by c) ms \<Longrightarrow> c \<notin> ran (submitters ms)"
proof (induction ms rule: rev_induct)
  case (snoc m ms)
  then show ?case using submitted_by_new(3) [of m "submitters ms"] by auto
qed simp

text \<open>Distinct ids are fresh when they are submitted.\<close>

lemma owners_run:
  "distinct (new_ids ms) \<Longrightarrow> owners_ok ms (snd (hub_run ms ([], hub_loop_new))) \<and> fresh_ids ms matcher_new"
proof (induction ms rule: rev_induct)
  case Nil
  then show ?case using run_owners [of "[]"] by simp
next
  case (snoc m ms)
  let ?h = "snd (hub_run ms ([], hub_loop_new))"
  have IH: "owners_ok ms ?h" "fresh_ids ms matcher_new" using snoc by simp_all
  have new: "set (new_ids [m]) \<inter> dom (submitters ms) = {}" using snoc.prems by (auto simp: dom_submitters simp del: new_ids.simps)
  have resting: "{i. book_contains (m_book (hl_matcher ?h)) i} \<subseteq> dom (submitters ms)" using IH(1) by (simp add: owners_ok_def)
  have "fresh_msg m (hl_matcher ?h)"
  proof (cases m)
    case (Cmd c cmd)
    then show ?thesis using new resting by (cases cmd) auto
  qed simp_all
  then have "fresh_ids (ms @ [m]) matcher_new"
    using IH(2) hub_run_matcher [of ms "([], hub_loop_new)"] by (simp add: fresh_ids_snoc hub_loop_new_def)
  then show ?case using run_owners by blast
qed

section \<open>One connection among others\<close>

text \<open>The events that name an order of \<open>c\<close>, and what is sent to \<open>tx\<close>.\<close>

definition concerns :: "(order_id \<rightharpoonup> conn_id) \<Rightarrow> conn_id \<Rightarrow> event \<Rightarrow> bool" where
  "concerns own c e \<longleftrightarrow> Some c \<in> own ` set (named_orders e)"

definition received :: "'tx \<Rightarrow> ('tx \<times> event) list \<Rightarrow> event list" where
  "received tx sends = map snd (filter (\<lambda>s. fst s = tx) sends)"

lemma received_append [simp]: "received tx (xs @ ys) = received tx xs @ received tx ys"
  by (simp add: received_def)

lemma received_concat: "received tx (concat xss) = concat (map (received tx) xss)"
  by (induction xss) (simp_all add: received_def)

lemma received_routed:
  assumes "routes c = Some tx" "\<And>c'. routes c' = Some tx \<Longrightarrow> c' = c" "distinct cs"
  shows "received tx (map (\<lambda>t. (t, e)) (List.map_filter routes cs)) = (if c \<in> set cs then [e] else [])"
  using assms(3)
proof (induction cs)
  case (Cons c' cs)
  show ?case
  proof (cases "c' = c")
    case True
    with Cons assms(1) show ?thesis by (simp add: received_def map_filter_simps)
  next
    case False
    then have "routes c' \<noteq> Some tx" using assms(2) by blast
    with False Cons show ?thesis by (cases "routes c'") (simp_all add: received_def map_filter_simps)
  qed
qed (simp add: received_def map_filter_simps)

lemma set_map_filter_some: "c \<in> set (List.map_filter f xs) \<longleftrightarrow> Some c \<in> f ` set xs"
proof (induction xs)
  case (Cons x xs)
  then show ?case by (cases "f x") (auto simp: map_filter_simps)
qed (simp add: map_filter_simps)

lemma received_deliveries:
  assumes "routes c = Some tx" "\<And>c'. routes c' = Some tx \<Longrightarrow> c' = c"
  shows "received tx (deliveries routes own e) = (if concerns own c e then [e] else [])"
  unfolding deliveries_def by (subst received_routed [of routes c, OF assms]) (simp_all add: concerns_def set_map_filter_some)

lemma received_none:
  assumes "tx \<notin> ran routes"
  shows "received tx (deliveries routes own e) = []"
proof -
  have "Some tx \<notin> range routes" using assms unfolding ran_def by (metis (mono_tags, lifting) imageE mem_Collect_eq)
  then have "tx \<notin> set (List.map_filter routes cs)" for cs unfolding set_map_filter_some by blast
  then show ?thesis by (auto simp: deliveries_def received_def filter_empty_conv)
qed

section \<open>The stream of a connection\<close>

text \<open>The connection is reachable through \<open>tx\<close> and nobody else is, or \<open>tx\<close> is not in use and \<open>c\<close> has no orders.\<close>

definition reachable_by :: "conn_id \<Rightarrow> 'tx \<Rightarrow> (conn_id \<rightharpoonup> 'tx) \<Rightarrow> (order_id \<rightharpoonup> conn_id) \<Rightarrow> bool" where
  "reachable_by c tx routes own \<longleftrightarrow>
     {c'. routes c' = Some tx} = {c} \<or> tx \<notin> ran routes \<and> c \<notin> ran own"

lemma received_concerned:
  assumes "reachable_by c tx routes own"
  shows "received tx (concat (map (deliveries routes own) es)) = filter (concerns own c) es"
proof -
  have "received tx (deliveries routes own e) = (if concerns own c e then [e] else [])" for e
  proof (cases "tx \<in> ran routes")
    case True
    with assms have "{c'. routes c' = Some tx} = {c}" by (simp add: reachable_by_def)
    then show ?thesis by (intro received_deliveries) blast+
  next
    case False
    then have "routes c \<noteq> Some tx" by (auto simp: ran_def)
    with assms have "c \<notin> ran own" by (auto simp: reachable_by_def)
    then have "\<not> concerns own c e" by (auto simp: concerns_def ran_def dest: sym)
    with False show ?thesis by (simp add: received_none)
  qed
  then show ?thesis by (induction es) (simp_all add: received_def)
qed

lemma concerns_stable:
  assumes "distinct (new_ids (ms @ [m]))" "set (named_orders e) \<subseteq> dom (submitters ms)"
  shows "concerns (submitters (ms @ [m])) c e = concerns (submitters ms) c e"
proof -
  have "submitters (ms @ [m]) ` set (named_orders e) = submitters ms ` set (named_orders e)"
    using assms submitters_stable [of ms "[m]"] by (intro image_cong refl) (auto simp: dom_submitters simp del: submitters_simps)
  then show ?thesis by (simp only: concerns_def)
qed

abbreviation market_events :: "'tx msg list \<Rightarrow> event list" where
  "market_events ms \<equiv> snd (run_commands (commands_of ms) (matcher_new, []))"

lemma market_events_snoc:
  "market_events (ms @ [Cmd c cmd]) = market_events ms @ snd (apply_command cmd (hl_matcher (snd (hub_run ms ([], hub_loop_new))), []))"
  using hub_run_matcher [of ms "([], hub_loop_new)"] after_run_commands [of "[cmd]" "market_events ms" "(fst (run_commands (commands_of ms) (matcher_new, [])), [])"]
  by (simp add: hub_loop_new_def after_def)

lemma stream_run:
  assumes "distinct (new_ids ms)"
    "\<And>ms' c' cmd. prefix (ms' @ [Cmd c' cmd]) ms \<Longrightarrow>
       reachable_by c tx (hl_routes (snd (hub_run ms' ([], hub_loop_new)))) (submitters (ms' @ [Cmd c' cmd]))"
  shows "received tx (fst (hub_run ms ([], hub_loop_new))) = filter (concerns (submitters ms) c) (market_events ms) \<and>
    (\<forall>e \<in> set (market_events ms). set (named_orders e) \<subseteq> dom (submitters ms))"
  using assms
proof (induction ms rule: rev_induct)
  case Nil
  then show ?case by (simp add: received_def)
next
  case (snoc m ms)
  let ?st = "hub_run ms ([], hub_loop_new)"
  have "distinct (new_ids ms)" using snoc.prems(1) by simp
  then have IH: "received tx (fst ?st) = filter (concerns (submitters ms) c) (market_events ms)"
      "\<forall>e \<in> set (market_events ms). set (named_orders e) \<subseteq> dom (submitters ms)"
    using snoc.IH snoc.prems(2) by (simp_all add: prefix_snoc)
  have old: "filter (concerns (submitters (ms @ [m])) c) (market_events ms) = received tx (fst ?st)"
    unfolding IH(1) using concerns_stable [OF snoc.prems(1)] IH(2) by (intro filter_cong refl) blast
  have named: "\<forall>e \<in> set (market_events ms). set (named_orders e) \<subseteq> dom (submitters (ms @ [m]))"
    using IH(2) submitted_by_new(1) [of m "submitters ms"] by auto
  show ?case
  proof (cases m)
    case (Cmd c' cmd)
    obtain sends h' where h': "hub_handle m (snd ?st) = (sends, h')" by (cases "hub_handle m (snd ?st)")
    have ok: "owners_ok ms (snd ?st)" "fresh_cmd cmd (hl_matcher (snd ?st))"
      using owners_run [OF snoc.prems(1)] owners_run [of ms] snoc.prems(1) Cmd hub_run_matcher [of ms "([], hub_loop_new)"]
      by (simp_all add: fresh_ids_snoc hub_loop_new_def)
    note sends = handle_command [OF ok h' [unfolded Cmd], folded Cmd]
    have "received tx sends = filter (concerns (submitters (ms @ [m])) c) (snd (apply_command cmd (hl_matcher (snd ?st), [])))"
      unfolding sends(2) using snoc.prems(2) Cmd by (intro received_concerned) (simp del: submitters_simps)
    moreover have "hub_run (ms @ [m]) ([], hub_loop_new) = (fst ?st @ sends, h')" using h' by simp
    ultimately show ?thesis
      using old named sends(3) market_events_snoc [of ms c' cmd, folded Cmd] by (auto simp del: submitters_simps hub_run_append)
  qed (use old named in simp_all)
qed

text \<open>The routes stay put under messages that are not about the connection.\<close>

fun routed :: "'tx msg \<Rightarrow> (conn_id \<rightharpoonup> 'tx) \<Rightarrow> conn_id \<rightharpoonup> 'tx" where
  "routed (Connect c tx) routes = routes(c \<mapsto> tx)"
| "routed (Disconnect c) routes = routes(c := None)"
| "routed (Cmd c cmd) routes = routes"

lemma hub_run_routes: "hl_routes (snd (hub_run ms st)) = fold routed ms (hl_routes (snd st))"
proof (induction ms st rule: hub_run.induct)
  case (2 m ms st)
  obtain sends h where h: "hub_handle m (snd st) = (sends, h)" by (cases "hub_handle m (snd st)")
  then have "hl_routes h = routed m (hl_routes (snd st))" by (cases m) (auto simp: Let_def split_beta)
  with 2 h show ?case by simp
qed simp

lemma routes_away: "list_all (unrelated c tx) ms \<Longrightarrow> tx \<notin> ran routes \<Longrightarrow> tx \<notin> ran (fold routed ms routes)"
proof (induction ms arbitrary: routes)
  case (Cons m ms)
  have "tx \<notin> ran (routed m routes)" using Cons.prems by (cases m) (auto simp: ran_def split: if_splits)
  with Cons show ?case by simp
qed simp

lemma routes_kept:
  "list_all (unrelated c tx) ms \<Longrightarrow> {c'. routes c' = Some tx} = {c} \<Longrightarrow> {c'. fold routed ms routes c' = Some tx} = {c}"
proof (induction ms arbitrary: routes)
  case (Cons m ms)
  have "(routed m routes c' = Some tx) = (routes c' = Some tx)" for c'
  proof (cases m)
    case (Connect c1 tx1)
    have "routes c1 \<noteq> Some tx" "tx1 \<noteq> tx" using Cons.prems Connect by auto
    then show ?thesis using Connect by simp
  next
    case (Disconnect c1)
    have "routes c1 \<noteq> Some tx" using Cons.prems Disconnect by auto
    then show ?thesis using Disconnect by simp
  qed simp
  then have "{c'. routed m routes c' = Some tx} = {c}" using Cons.prems(2) by simp
  with Cons show ?case by simp
qed simp

lemma prefix_at_join:
  assumes "prefix (ms @ [m]) (pre @ x # post)" "m \<noteq> x"
  obtains (Before) "prefix (ms @ [m]) pre" | (After) ms' where "ms = pre @ x # ms'" "prefix (ms' @ [m]) post"
proof (cases "prefix (ms @ [m]) pre")
  case False
  then obtain us where us: "ms @ [m] = pre @ us" "prefix us (x # post)" "us \<noteq> []" using assms(1) unfolding prefix_append by auto
  then obtain ys where ys: "us = x # ys" "prefix ys post" by (auto simp: prefix_Cons)
  then have "ys \<noteq> []" using us(1) assms(2) by auto
  then obtain zs where "ys = zs @ [m]" "ms = pre @ x # zs" using us(1) ys(1) by (cases ys rule: rev_cases) auto
  with ys(2) After show thesis by simp
qed (rule Before)

lemma stream_of:
  fixes ms pre post :: "'tx msg list"
  assumes "ms = pre @ Connect c tx # post" "registered_once c tx pre post" "distinct (new_ids ms)"
  shows "received tx (fst (hub_run ms ([], hub_loop_new))) = filter (concerns (submitters ms) c) (market_events ms)"
proof -
  have away: "list_all (unrelated c tx) pre" "list_all (unrelated c tx) post" "\<not> list_ex (sent_by c) pre"
    using assms(2) by (simp_all add: registered_once_def)
  have "reachable_by c tx (hl_routes (snd (hub_run ms' ([], hub_loop_new)))) (submitters (ms' @ [Cmd c' cmd]))"
    if "prefix (ms' @ [Cmd c' cmd]) ms" for ms' c' cmd
    using that unfolding assms(1)
  proof (rule prefix_at_join)
    assume pre: "prefix (ms' @ [Cmd c' cmd]) pre"
    then have "list_all (unrelated c tx) ms'" "\<not> list_ex (sent_by c) (ms' @ [Cmd c' cmd])"
      using away by (auto simp: prefix_def)
    then show ?thesis
      using ran_submitters [of c "ms' @ [Cmd c' cmd]"] routes_away [of c tx ms' Map.empty]
      by (simp add: reachable_by_def hub_run_routes hub_loop_new_def del: submitters_simps)
  next
    fix rest
    assume rest: "ms' = pre @ Connect c tx # rest" "prefix (rest @ [Cmd c' cmd]) post"
    let ?r = "(fold routed pre Map.empty)(c \<mapsto> tx)"
    have "list_all (unrelated c tx) rest" using rest(2) away by (auto simp: prefix_def)
    moreover have "{c'. ?r c' = Some tx} = {c}" using routes_away [OF away(1), of Map.empty] by (auto simp: ran_def)
    ultimately have "{c'. fold routed rest ?r c' = Some tx} = {c}" by (rule routes_kept)
    then show ?thesis by (simp add: rest(1) reachable_by_def hub_run_routes hub_loop_new_def)
  qed simp
  with stream_run [OF assms(3)] show ?thesis by blast
qed

section \<open>Until it leaves\<close>

text \<open>The messages of one connection, so far: its registration, its commands, and at most one disconnection.\<close>

definition conn_history :: "conn_id \<Rightarrow> 'tx \<Rightarrow> 'tx msg list \<Rightarrow> bool" where
  "conn_history c tx xs \<longleftrightarrow> (\<exists>cmds. prefix xs (Connect c tx # map (Cmd c) cmds @ [Disconnect c]))"

abbreviation of_conn :: "conn_id \<Rightarrow> 'tx msg list \<Rightarrow> 'tx msg list" where
  "of_conn c ms \<equiv> filter (\<lambda>m. msg_conn m = c) ms"

definition channel_of :: "conn_id \<Rightarrow> 'tx \<Rightarrow> 'tx msg list \<Rightarrow> bool" where
  "channel_of c tx ms \<longleftrightarrow> (\<forall>c'. Connect c' tx \<in> set ms \<longrightarrow> c' = c)"

lemma conn_history_parts:
  "conn_history c tx []" "conn_history c tx (Connect c tx # map (Cmd c) cmds)"
  "conn_history c tx (Connect c tx # map (Cmd c) cmds @ [Disconnect c])"
  unfolding conn_history_def by (auto intro: exI [of _ cmds])

lemma conn_history_cases:
  assumes "conn_history c tx xs"
  obtains (None) "xs = []" | (Open) cmds where "xs = Connect c tx # map (Cmd c) cmds"
    | (Closed) cmds where "xs = Connect c tx # map (Cmd c) cmds @ [Disconnect c]"
proof -
  obtain cmds where p: "prefix xs (Connect c tx # map (Cmd c) cmds @ [Disconnect c])" using assms by (auto simp: conn_history_def)
  have "map (Cmd c) cmds @ [Disconnect c] = zs \<or> (\<exists>cs. zs = map (Cmd c) cs)" if "prefix zs (map (Cmd c) cmds @ [Disconnect c])" for zs :: "'a msg list"
    using that unfolding prefix_snoc by (auto simp: prefix_def map_eq_append_conv)
  with p show thesis using that by (cases xs) auto
qed

lemma unrelated_other:
  assumes "channel_of c tx ms" "m \<in> set ms" "msg_conn m \<noteq> c"
  shows "unrelated c tx m"
  using assms by (cases m) (auto simp: channel_of_def)

lemma stream_open:
  fixes ms :: "'tx msg list"
  assumes "conn_history c tx (of_conn c ms)" "channel_of c tx ms" "distinct (new_ids ms)" "Disconnect c \<notin> set ms"
  shows "received tx (fst (hub_run ms ([], hub_loop_new))) = filter (concerns (submitters ms) c) (market_events ms)"
  using assms(1)
proof (cases rule: conn_history_cases)
  case None
  then have other: "list_all (unrelated c tx) ms" "\<not> list_ex (sent_by c) ms"
    using unrelated_other [OF assms(2)] sent_by_conn by (auto simp: list_all_iff list_ex_iff filter_empty_conv)
  have "reachable_by c tx (hl_routes (snd (hub_run ms' ([], hub_loop_new)))) (submitters (ms' @ [Cmd c' cmd]))"
    if "prefix (ms' @ [Cmd c' cmd]) ms" for ms' c' cmd
    using that other ran_submitters [of c "ms' @ [Cmd c' cmd]"] routes_away [of c tx ms' Map.empty]
    by (auto simp: reachable_by_def hub_run_routes hub_loop_new_def prefix_def simp del: submitters_simps)
  with stream_run [OF assms(3)] show ?thesis by blast
next
  case (Open cmds)
  then obtain pre post where ms: "ms = pre @ Connect c tx # post" "\<forall>m \<in> set pre. msg_conn m \<noteq> c" "of_conn c post = map (Cmd c) cmds"
    unfolding filter_eq_Cons_iff by metis
  have "unrelated c tx m" if "m \<in> set post" for m
  proof (cases "msg_conn m = c")
    case True
    then have "m \<in> set (map (Cmd c) cmds)" unfolding ms(3) [symmetric] using that by simp
    then show ?thesis by auto
  qed (use unrelated_other [OF assms(2)] that ms(1) in auto)
  then have "registered_once c tx pre post"
    using ms(1,2) unrelated_other [OF assms(2)] unfolding registered_once_def list_all_iff list_ex_iff by (auto dest: sent_by_conn)
  from stream_of [OF ms(1) this assms(3)] show ?thesis .
next
  case (Closed cmds)
  then have "Disconnect c \<in> set (of_conn c ms)" by simp
  with assms(4) show ?thesis by simp
qed

lemma dispatch_channels: "fst ` set (fst (dispatch routes c es ow)) \<subseteq> ran routes"
proof (induction es arbitrary: ow)
  case (Cons e es)
  have "fst ` set (send_to routes c' e) \<subseteq> ran routes" for c' by (auto simp: send_to_def ran_def split: option.split)
  then have "fst ` set (concat (map (\<lambda>c'. send_to routes c' e) (event_targets ow c e))) \<subseteq> ran routes"
    by (simp add: image_UN UN_subset_iff)
  then show ?case using Cons by (simp add: Let_def split_beta image_Un)
qed simp

lemma received_gone:
  assumes "\<forall>c. Connect c tx \<notin> set ms" "tx \<notin> ran (hl_routes (snd st))"
  shows "received tx (fst (hub_run ms st)) = received tx (fst st)"
  using assms
proof (induction ms st rule: hub_run.induct)
  case (2 m ms st)
  obtain sends h where h: "hub_handle m (snd st) = (sends, h)" by (cases "hub_handle m (snd st)")
  have "received tx sends = []"
  proof (cases m)
    case (Cmd c cmd)
    then have "fst ` set sends \<subseteq> ran (hl_routes (snd st))" using h dispatch_channels by (fastforce simp: Let_def split_beta)
    then show ?thesis using 2(3) by (auto simp: received_def filter_empty_conv)
  qed (use h in \<open>auto simp: received_def\<close>)
  moreover have "tx \<notin> ran (hl_routes h)"
    using h 2(2,3) by (cases m) (auto simp: Let_def split_beta ran_def split: if_splits)
  ultimately show ?case using 2 h by simp
qed simp

lemma split_at_last: "xs @ a # ys = zs @ [a] \<Longrightarrow> a \<notin> set zs \<Longrightarrow> xs = zs \<and> ys = []"
proof (induction xs arbitrary: zs)
  case (Cons x xs)
  then show ?case by (cases zs) auto
qed (auto simp: Cons_eq_append_conv)

lemma routes_only: "channel_of c tx ms \<Longrightarrow> c' \<noteq> c \<Longrightarrow> fold routed ms Map.empty c' \<noteq> Some tx"
proof (induction ms rule: rev_induct)
  case (snoc m ms)
  then show ?case by (cases m) (auto simp: channel_of_def)
qed simp

lemma stream_until:
  fixes ms :: "'tx msg list"
  assumes "conn_history c tx (of_conn c ms)" "channel_of c tx ms" "distinct (new_ids ms)"
  defines "live \<equiv> takeWhile (\<lambda>m. m \<noteq> Disconnect c) ms"
  shows "received tx (fst (hub_run ms ([], hub_loop_new))) = filter (concerns (submitters live) c) (market_events live)"
proof -
  obtain rest where ms: "ms = live @ rest" "rest = [] \<or> hd rest = Disconnect c"
    using takeWhile_dropWhile_id [of "\<lambda>m. m \<noteq> Disconnect c" ms] hd_dropWhile [of "\<lambda>m. m \<noteq> Disconnect c" ms]
    unfolding live_def by metis
  have live: "Disconnect c \<notin> set live" using set_takeWhileD [of "Disconnect c"] by (auto simp: live_def)
  have "conn_history c tx (of_conn c live)" using assms(1) ms(1) by (auto simp: conn_history_def prefix_def)
  moreover have "channel_of c tx live" using assms(2) ms(1) by (auto simp: channel_of_def)
  moreover have "distinct (new_ids live)" using assms(3) ms(1) by simp
  ultimately have stream: "received tx (fst (hub_run live ([], hub_loop_new))) = filter (concerns (submitters live) c) (market_events live)"
    using live by (intro stream_open)
  show ?thesis
  proof (cases rest)
    case Nil
    then show ?thesis using ms(1) stream by simp
  next
    case (Cons m rest')
    then have m: "ms = live @ Disconnect c # rest'" using ms by simp
    then have "Disconnect c \<in> set (of_conn c ms)" by simp
    with assms(1) obtain cmds where "of_conn c ms = (Connect c tx # map (Cmd c) cmds) @ [Disconnect c]"
      by (cases rule: conn_history_cases) auto
    then have "of_conn c live @ Disconnect c # of_conn c rest' = (Connect c tx # map (Cmd c) cmds) @ [Disconnect c]" using m by simp
    from split_at_last [OF this] have quiet: "of_conn c rest' = []" by auto
    have "\<forall>c'. Connect c' tx \<notin> set rest'"
      using quiet assms(2) m by (auto simp: channel_of_def filter_empty_conv)
    moreover have "tx \<notin> ran (hl_routes (snd (hub_run (live @ [Disconnect c]) ([], hub_loop_new))))"
      using routes_only [OF \<open>channel_of c tx live\<close>] by (auto simp: hub_run_routes hub_loop_new_def ran_def split: if_splits)
    ultimately have "received tx (fst (hub_run ms ([], hub_loop_new))) = received tx (fst (hub_run (live @ [Disconnect c]) ([], hub_loop_new)))"
      using received_gone [of tx rest' "hub_run (live @ [Disconnect c]) ([], hub_loop_new)"] m by (simp del: hub_run_append add: hub_run_append [symmetric])
    also have "\<dots> = received tx (fst (hub_run live ([], hub_loop_new)))" by simp
    finally show ?thesis using stream by simp
  qed
qed

end
