(* ===== verification/Hub_Tenants.thy ===== *)
theory Hub_Tenants
  imports Hub_Streams
begin

text \<open>
  The tenants of the hub of \<^verbatim>\<open>bourse-core/src/hub.rs\<close>, with the ownership of their handles. \<open>register\<close> returns a
  \<open>Submitter\<close> when the inbox has taken the registration; a submitter can be cloned, shared and dropped, and only the
  drop of the last clone sends the disconnection. Rust's ownership is the guard of the steps: a submitter that does not exist (any
  more) submits nothing, and the last one is not dropped while a submission borrows it. The steps of hub and inbox are those
  of \<open>hub_step\<close>.
\<close>

section \<open>Handles\<close>

text \<open>The hub with its view, the number of clones of each connection's submitter, and the registrations in their order.\<close>

record ('q, 'tx) tenancy =
  tn_hub :: "('q, 'tx) hub \<times> 'tx hub_view"
  tn_clones :: "conn_id \<Rightarrow> nat"
  tn_registered :: "(conn_id \<times> 'tx) list"

datatype 'tx tenant_action =
  NewTenant 'tx | PushTurn nat | CloneSubmitter conn_id | SubmitCommand conn_id hub_command | DropClone conn_id | HubStopped | HubTurn

definition tenancy_start :: "(u64 \<Rightarrow> 'q) \<Rightarrow> u64 \<Rightarrow> ('q, 'tx) tenancy" where
  "tenancy_start new_queue n = \<lparr>tn_hub = (hub_start new_queue n, hub_view_new), tn_clones = (\<lambda>_. 0), tn_registered = []\<rparr>"

definition submitter_returned :: "'tx msg option \<Rightarrow> (conn_id \<Rightarrow> nat) \<Rightarrow> conn_id \<Rightarrow> nat" where
  "submitter_returned taken clones = (case taken of Some (Connect c tx) \<Rightarrow> clones(c := 1) | _ \<Rightarrow> clones)"

definition clone_submitter :: "conn_id \<Rightarrow> ('q, 'tx) tenancy \<Rightarrow> ('q, 'tx) tenancy" where
  "clone_submitter c t = (if tn_clones t c = 0 then t else t\<lparr>tn_clones := (tn_clones t)(c := Suc (tn_clones t c))\<rparr>)"

definition borrowed :: "conn_id \<Rightarrow> ('q, 'tx) tenancy \<Rightarrow> bool" where
  "borrowed c t \<longleftrightarrow> list_ex (sent_by c) (h_pending (fst (tn_hub t)))"

definition drop_clone :: "('tx msg \<Rightarrow> 'q \<Rightarrow> ('tx msg + unit) \<times> 'q) \<Rightarrow> ('q \<Rightarrow> 'e + ('tx msg option \<times> 'q)) \<Rightarrow>
    conn_id \<Rightarrow> ('q, 'tx) tenancy \<Rightarrow> ('q, 'tx) tenancy" where
  "drop_clone push pop c t =
     (if tn_clones t c = 0 then t
      else if tn_clones t c = 1 then
        if borrowed c t then t
        else t\<lparr>tn_hub := hub_step push pop (DropSubmitter c) (tn_hub t), tn_clones := (tn_clones t)(c := 0)\<rparr>
      else t\<lparr>tn_clones := (tn_clones t)(c := tn_clones t c - 1)\<rparr>)"

fun tenant_step :: "('tx msg \<Rightarrow> 'q \<Rightarrow> ('tx msg + unit) \<times> 'q) \<Rightarrow> ('q \<Rightarrow> 'e + ('tx msg option \<times> 'q)) \<Rightarrow>
    'tx tenant_action \<Rightarrow> ('q, 'tx) tenancy \<Rightarrow> ('q, 'tx) tenancy" where
  "tenant_step push pop (NewTenant tx) t =
     t\<lparr>tn_hub := hub_step push pop (Register tx) (tn_hub t),
       tn_registered := tn_registered t @ [(fst (register tx (fst (tn_hub t))), tx)]\<rparr>"
| "tenant_step push pop (PushTurn k) t =
     t\<lparr>tn_hub := hub_step push pop (Attempt k) (tn_hub t),
       tn_clones := submitter_returned (fst (try_pending push k (fst (tn_hub t)))) (tn_clones t)\<rparr>"
| "tenant_step push pop (CloneSubmitter c) t = clone_submitter c t"
| "tenant_step push pop (SubmitCommand c cmd) t =
     (if tn_clones t c = 0 then t else t\<lparr>tn_hub := hub_step push pop (Submit c cmd) (tn_hub t)\<rparr>)"
| "tenant_step push pop (DropClone c) t = drop_clone push pop c t"
| "tenant_step push pop HubStopped t = t\<lparr>tn_hub := hub_step push pop StopHub (tn_hub t)\<rparr>"
| "tenant_step push pop HubTurn t = t\<lparr>tn_hub := hub_step push pop HubTick (tn_hub t)\<rparr>"

section \<open>The life of a connection\<close>

text \<open>Its messages in the inbox so far, its messages in flight, and its clones.\<close>

abbreviation accepted_of :: "conn_id \<Rightarrow> ('q, 'tx) tenancy \<Rightarrow> 'tx msg list" where
  "accepted_of c t \<equiv> of_conn c (hv_accepted (snd (tn_hub t)))"

abbreviation pending_of :: "conn_id \<Rightarrow> ('q, 'tx) tenancy \<Rightarrow> 'tx msg list" where
  "pending_of c t \<equiv> of_conn c (h_pending (fst (tn_hub t)))"

definition registering :: "conn_id \<Rightarrow> 'tx \<Rightarrow> 'tx msg list \<Rightarrow> 'tx msg list \<Rightarrow> nat \<Rightarrow> bool" where
  "registering c tx acc pend n \<longleftrightarrow> acc = [] \<and> pend = [Connect c tx] \<and> n = 0"

definition active :: "conn_id \<Rightarrow> 'tx \<Rightarrow> 'tx msg list \<Rightarrow> 'tx msg list \<Rightarrow> nat \<Rightarrow> bool" where
  "active c tx acc pend n \<longleftrightarrow> (\<exists>cmds. acc = Connect c tx # map (Cmd c) cmds) \<and> (\<exists>cmds. pend = map (Cmd c) cmds) \<and> n \<noteq> 0"

definition gone :: "conn_id \<Rightarrow> 'tx \<Rightarrow> 'tx msg list \<Rightarrow> 'tx msg list \<Rightarrow> nat \<Rightarrow> bool" where
  "gone c tx acc pend n \<longleftrightarrow>
     (\<exists>cmds. acc = Connect c tx # map (Cmd c) cmds \<or> acc = Connect c tx # map (Cmd c) cmds @ [Disconnect c]) \<and> pend = [] \<and> n = 0"

definition conn_ok :: "conn_id \<Rightarrow> 'tx \<Rightarrow> 'tx msg list \<Rightarrow> 'tx msg list \<Rightarrow> nat \<Rightarrow> bool" where
  "conn_ok c tx acc pend n \<longleftrightarrow> registering c tx acc pend n \<or> active c tx acc pend n \<or> gone c tx acc pend n"

definition untouched :: "'tx msg list \<Rightarrow> 'tx msg list \<Rightarrow> nat \<Rightarrow> bool" where
  "untouched acc pend n \<longleftrightarrow> acc = [] \<and> pend = [] \<and> n = 0"

definition conns_ok :: "('q, 'tx) tenancy \<Rightarrow> bool" where
  "conns_ok t \<longleftrightarrow> (\<forall>(c, tx) \<in> set (tn_registered t). conn_ok c tx (accepted_of c t) (pending_of c t) (tn_clones t c)) \<and>
     (\<forall>c. c \<notin> fst ` set (tn_registered t) \<longrightarrow> untouched (accepted_of c t) (pending_of c t) (tn_clones t c))"

lemmas conn_defs = conn_ok_def registering_def active_def gone_def untouched_def

lemma conn_ok_history: "conn_ok c tx acc pend n \<Longrightarrow> conn_history c tx acc"
  by (auto simp: conn_defs intro: conn_history_parts)

text \<open>Moving a pending message to the inbox, for the connection that it belongs to.\<close>

lemma conn_ok_taken:
  assumes "conn_ok (msg_conn m) tx acc (xs @ m # ys) n"
  shows "conn_ok (msg_conn m) tx (acc @ [m]) (xs @ ys) (case m of Connect c tx \<Rightarrow> 1 | _ \<Rightarrow> n)"
proof -
  from assms consider (Registering) "registering (msg_conn m) tx acc (xs @ m # ys) n" | (Active) "active (msg_conn m) tx acc (xs @ m # ys) n"
    by (auto simp: conn_ok_def gone_def)
  then show ?thesis
  proof cases
    case Registering
    then have "m = Connect (msg_conn m) tx" "xs = []" "ys = []" "acc = []" by (auto simp: registering_def Cons_eq_append_conv append_eq_Cons_conv)
    then show ?thesis by (cases m) (auto simp: conn_defs)
  next
    case Active
    then obtain cmds cs where acc: "acc = Connect (msg_conn m) tx # map (Cmd (msg_conn m)) cmds" and "xs @ m # ys = map (Cmd (msg_conn m)) cs" "n \<noteq> 0"
      by (auto simp: active_def)
    then obtain cs1 cmd cs2 where "xs = map (Cmd (msg_conn m)) cs1" "m = Cmd (msg_conn m) cmd" "ys = map (Cmd (msg_conn m)) cs2"
      by (auto simp: map_eq_append_conv append_eq_map_conv Cons_eq_map_conv)
    moreover from this have "xs @ ys = map (Cmd (msg_conn m)) (cs1 @ cs2)" "acc @ [m] = Connect (msg_conn m) tx # map (Cmd (msg_conn m)) (cmds @ [cmd])"
      using acc by simp_all
    ultimately have "active (msg_conn m) tx (acc @ [m]) (xs @ ys) n" "(case m of Connect c tx \<Rightarrow> 1 | _ \<Rightarrow> n) = n"
      using \<open>n \<noteq> 0\<close> unfolding active_def by (metis, metis msg.case(3))
    then show ?thesis by (simp add: conn_ok_def)
  qed
qed

text \<open>A step that concerns one connection only.\<close>

lemma conns_ok_step:
  assumes "conns_ok t" "tn_registered t' = tn_registered t"
    "\<And>c'. c' \<noteq> c \<Longrightarrow> accepted_of c' t' = accepted_of c' t \<and> pending_of c' t' = pending_of c' t \<and> tn_clones t' c' = tn_clones t c'"
    "\<And>tx. conn_ok c tx (accepted_of c t) (pending_of c t) (tn_clones t c) \<Longrightarrow> conn_ok c tx (accepted_of c t') (pending_of c t') (tn_clones t' c)"
    "\<not> untouched (accepted_of c t) (pending_of c t) (tn_clones t c)"
  shows "conns_ok t'"
proof -
  have "conn_ok c' tx (accepted_of c' t') (pending_of c' t') (tn_clones t' c')" if "(c', tx) \<in> set (tn_registered t)" for c' tx
    using that assms(1,4) assms(3) [of c'] by (cases "c' = c") (auto simp: conns_ok_def)
  moreover have "untouched (accepted_of c' t') (pending_of c' t') (tn_clones t' c')" if "c' \<notin> fst ` set (tn_registered t)" for c'
    using that assms(1,5) assms(3) [of c'] by (cases "c' = c") (auto simp: conns_ok_def)
  ultimately show ?thesis using assms(2) by (auto simp: conns_ok_def)
qed

lemma conns_ok_same:
  assumes "conns_ok t" "tn_registered t' = tn_registered t" "tn_clones t' = tn_clones t"
    "hv_accepted (snd (tn_hub t')) = hv_accepted (snd (tn_hub t))" "h_pending (fst (tn_hub t')) = h_pending (fst (tn_hub t))"
  shows "conns_ok t'"
  using assms by (simp add: conns_ok_def)

lemma hub_thread_pending: "h_pending (hub_thread pop h) = h_pending h"
  by (simp add: hub_thread_def split: hub_phase.split sum.split prod.split option.split)

context hub_inbox
begin

definition tenancy_inv :: "('q, 'tx) tenancy \<Rightarrow> bool" where
  "tenancy_inv t \<longleftrightarrow> hub_inv (tn_hub t) \<and> map fst (tn_registered t) = hv_conns (snd (tn_hub t)) \<and>
     (length (tn_registered t) < 2 ^ 64 \<longrightarrow> conns_ok t)"

lemma new_id:
  assumes "hub_inv (h, v)" "Suc (length (hv_conns v)) < 2 ^ 64"
  shows "h_next_conn h \<notin> set (hv_conns v)"
proof -
  let ?n = "length (hv_conns v)"
  have "map (\<lambda>k. of_nat (Suc k)) [0..<Suc ?n] = hv_conns v @ [h_next_conn h]" using assms(1) by (auto simp: hub_inv_def)
  then show ?thesis using numbered_distinct [OF assms(2)] by simp
qed

lemma try_pending_cases:
  assumes "inv (h_inbox h)"
  obtains (Refused) h' where "try_pending push k h = (None, h')" "h_pending h' = h_pending h"
  | (Taken) xs m ys h' where "try_pending push k h = (Some m, h')" "h_pending h = xs @ m # ys" "h_pending h' = xs @ ys"
proof (cases "k < length (h_pending h)")
  case True
  have split: "h_pending h = List.take k (h_pending h) @ h_pending h ! k # drop (Suc k) (h_pending h)" using True by (rule id_take_nth_drop)
  from assms show thesis
    by (cases rule: push_cases [where v = "h_pending h ! k"]) (use True split in \<open>auto simp: try_pending_def intro: Refused Taken\<close>)
qed (auto simp: try_pending_def intro: Refused)

lemma conns_push:
  assumes "inv (h_inbox (fst (tn_hub t)))" "conns_ok t"
  shows "conns_ok (tenant_step push pop (PushTurn k) t)"
proof -
  obtain h v where hub: "tn_hub t = (h, v)" by (cases "tn_hub t")
  then have "inv (h_inbox h)" using assms(1) by simp
  then show ?thesis
  proof (cases rule: try_pending_cases [where k = k])
    case (Refused h')
    then show ?thesis using hub by (intro conns_ok_same [OF assms(2)]) (simp_all add: took_def submitter_returned_def)
  next
    case (Taken xs m ys h')
    let ?t = "tenant_step push pop (PushTurn k) t"
    have new: "tn_clones ?t c = (if c = msg_conn m then case m of Connect c tx \<Rightarrow> 1 | _ \<Rightarrow> tn_clones t c else tn_clones t c)" for c
      using Taken(1) hub by (cases m) (simp_all add: submitter_returned_def)
    show ?thesis
    proof (rule conns_ok_step [OF assms(2), where c = "msg_conn m"])
      fix tx
      assume "conn_ok (msg_conn m) tx (accepted_of (msg_conn m) t) (pending_of (msg_conn m) t) (tn_clones t (msg_conn m))"
      then have "conn_ok (msg_conn m) tx (accepted_of (msg_conn m) t) (of_conn (msg_conn m) xs @ m # of_conn (msg_conn m) ys) (tn_clones t (msg_conn m))"
        using hub Taken(2) by simp
      from conn_ok_taken [OF this] show "conn_ok (msg_conn m) tx (accepted_of (msg_conn m) ?t) (pending_of (msg_conn m) ?t) (tn_clones ?t (msg_conn m))"
        unfolding new using hub Taken by (simp add: took_def)
    qed (use hub Taken new in \<open>auto simp: took_def untouched_def\<close>)
  qed
qed

lemma conns_new:
  assumes "hub_inv (tn_hub t)" "map fst (tn_registered t) = hv_conns (snd (tn_hub t))" "Suc (length (tn_registered t)) < 2 ^ 64" "conns_ok t"
  shows "conns_ok (tenant_step push pop (NewTenant tx) t)"
proof -
  let ?t = "tenant_step push pop (NewTenant tx) t" and ?c = "h_next_conn (fst (tn_hub t))"
  obtain h v where hub: "tn_hub t = (h, v)" by (cases "tn_hub t")
  have len: "length (hv_conns v) = length (tn_registered t)" using arg_cong [OF assms(2), of length] hub by simp
  have "?c \<notin> set (hv_conns v)" using new_id [of h v] assms(1,3) hub len by simp
  moreover have ids: "set (hv_conns v) = fst ` set (tn_registered t)" using arg_cong [OF assms(2), of set] hub by simp
  ultimately have new: "?c \<notin> fst ` set (tn_registered t)" by simp
  then have fresh: "untouched (accepted_of ?c t) (pending_of ?c t) (tn_clones t ?c)" using assms(4) by (simp add: conns_ok_def)
  have reg: "tn_registered ?t = tn_registered t @ [(?c, tx)]" "tn_clones ?t = tn_clones t"
    "accepted_of c ?t = accepted_of c t" "pending_of c ?t = (if c = ?c then pending_of c t @ [Connect ?c tx] else pending_of c t)" for c
    using hub by (simp_all add: register_def Let_def)
  have "conn_ok ?c tx (accepted_of ?c ?t) (pending_of ?c ?t) (tn_clones ?t ?c)"
    unfolding reg using fresh by (simp add: conn_defs)
  moreover have "conn_ok c tx' (accepted_of c ?t) (pending_of c ?t) (tn_clones ?t c)" if "(c, tx') \<in> set (tn_registered t)" for c tx'
  proof -
    have "c \<noteq> ?c" using that new by (metis fst_conv image_eqI)
    then show ?thesis unfolding reg using that assms(4) by (auto simp: conns_ok_def)
  qed
  moreover have "untouched (accepted_of c ?t) (pending_of c ?t) (tn_clones ?t c)" if "c \<notin> fst ` set (tn_registered ?t)" for c
  proof -
    have "c \<noteq> ?c" "c \<notin> fst ` set (tn_registered t)" using that unfolding reg by auto
    then show ?thesis unfolding reg using assms(4) by (simp add: conns_ok_def)
  qed
  ultimately show ?thesis unfolding conns_ok_def reg(1) by (auto simp del: tenant_step.simps)
qed

lemma conns_submit:
  assumes "conns_ok t"
  shows "conns_ok (tenant_step push pop (SubmitCommand c cmd) t)"
proof (cases "tn_clones t c = 0")
  case False
  obtain h v where hub: "tn_hub t = (h, v)" by (cases "tn_hub t")
  show ?thesis
  proof (rule conns_ok_step [OF assms, where c = c])
    fix tx
    assume "conn_ok c tx (accepted_of c t) (pending_of c t) (tn_clones t c)"
    then obtain cmds cs where "accepted_of c t = Connect c tx # map (Cmd c) cmds" "pending_of c t = map (Cmd c) cs" "tn_clones t c \<noteq> 0"
      using False by (auto simp: conn_defs)
    then have "active c tx (accepted_of c t) (pending_of c t @ [Cmd c cmd]) (tn_clones t c)"
      unfolding active_def by (auto intro: exI [of _ cmds] exI [of _ "cs @ [cmd]"])
    then show "conn_ok c tx (accepted_of c (tenant_step push pop (SubmitCommand c cmd) t)) (pending_of c (tenant_step push pop (SubmitCommand c cmd) t))
        (tn_clones (tenant_step push pop (SubmitCommand c cmd) t) c)"
      using hub False by (simp add: conn_ok_def submit_def)
  qed (use hub False in \<open>auto simp: submit_def untouched_def\<close>)
qed (use assms in simp)

lemma conns_drop:
  assumes "inv (h_inbox (fst (tn_hub t)))" "conns_ok t"
  shows "conns_ok (drop_clone push pop c t)"
proof -
  obtain h v where hub: "tn_hub t = (h, v)" by (cases "tn_hub t")
  consider (Kept) "tn_clones t c = 0 \<or> tn_clones t c = 1 \<and> borrowed c t" | (Fewer) "1 < tn_clones t c" | (Last) "tn_clones t c = 1" "\<not> borrowed c t"
    by linarith
  then show ?thesis
  proof cases
    case Kept
    then have "drop_clone push pop c t = t" by (auto simp: drop_clone_def)
    then show ?thesis using assms(2) by simp
  next
    case Fewer
    then show ?thesis
      by (intro conns_ok_step [OF assms(2), where c = c]) (auto simp: drop_clone_def conn_defs)
  next
    case Last
    have inv: "inv (h_inbox h)" using assms(1) hub by simp
    have dropped: "drop_clone push pop c t = t\<lparr>tn_hub := hub_step push pop (DropSubmitter c) (h, v), tn_clones := (tn_clones t)(c := 0)\<rparr>"
      using Last hub by (simp add: drop_clone_def)
    show ?thesis
    proof (rule conns_ok_step [OF assms(2), where c = c])
      fix tx
      assume "conn_ok c tx (accepted_of c t) (pending_of c t) (tn_clones t c)"
      then obtain cmds cs where acc: "accepted_of c t = Connect c tx # map (Cmd c) cmds" and pend: "pending_of c t = map (Cmd c) cs"
        using Last(1) by (auto simp: conn_defs)
      have "cs = []"
      proof (rule ccontr)
        assume "cs \<noteq> []"
        then have "Cmd c (hd cs) \<in> set (pending_of c t)" unfolding pend by simp
        then show False using Last(2) hub by (auto simp: borrowed_def list_ex_iff)
      qed
      from inv show "conn_ok c tx (accepted_of c (drop_clone push pop c t)) (pending_of c (drop_clone push pop c t)) (tn_clones (drop_clone push pop c t) c)"
        by (cases rule: push_cases [where v = "Disconnect c"])
          (use acc pend \<open>cs = []\<close> hub in \<open>auto simp: dropped drop_submitter_def took_def conn_ok_def gone_def\<close>)
    qed (use inv hub Last in \<open>auto simp: dropped drop_submitter_def took_def untouched_def split: prod.split sum.split\<close>)
  qed
qed

end

sublocale hub_inbox \<subseteq> tn: machine "tenant_step push pop" tenancy_inv
proof
  fix t :: "('q, 'tx) tenancy" and a
  assume "tenancy_inv t"
  then have inv: "hub_inv (tn_hub t)" "map fst (tn_registered t) = hv_conns (snd (tn_hub t))"
      "length (tn_registered t) < 2 ^ 64 \<Longrightarrow> conns_ok t" by (simp_all add: tenancy_inv_def)
  obtain h v where hub: "tn_hub t = (h, v)" by (cases "tn_hub t")
  have inbox: "inv (h_inbox (fst (tn_hub t)))" using inv(1) hub by (simp add: hub_inv_def)
  note steps = hb.inv_step [OF inv(1)]
  show "tenancy_inv (tenant_step push pop a t)"
  proof (cases a)
    case (NewTenant tx)
    then show ?thesis
      using steps [of "Register tx"] inv(2) conns_new [OF inv(1,2) _ inv(3), of tx] hub
      by (auto simp: tenancy_inv_def register_def Let_def simp del: tenant_step.simps(2-))
  next
    case (PushTurn k)
    then show ?thesis
      using steps [of "Attempt k"] inv(2) conns_push [OF inbox inv(3), of k] hub
      by (auto simp: tenancy_inv_def took_def split: prod.split option.split)
  next
    case (CloneSubmitter c)
    have "conns_ok (clone_submitter c t)" if "conns_ok t"
      by (cases "tn_clones t c = 0") (auto simp: that clone_submitter_def conn_defs intro!: conns_ok_step [OF that, where c = c])
    then show ?thesis using CloneSubmitter inv by (cases "tn_clones t c = 0") (auto simp: tenancy_inv_def clone_submitter_def)
  next
    case (SubmitCommand c cmd)
    then show ?thesis
      using steps [of "Submit c cmd"] inv conns_submit [OF inv(3), of c cmd] hub by (auto simp: tenancy_inv_def)
  next
    case (DropClone c)
    then show ?thesis
      using steps [of "DropSubmitter c"] inv conns_drop [OF inbox inv(3), of c] hub
      by (auto simp: tenancy_inv_def drop_clone_def took_def split: prod.split option.split)
  next
    case HubStopped
    then show ?thesis
      using steps [of StopHub] inv hub by (auto simp: tenancy_inv_def intro: conns_ok_same)
  next
    case HubTurn
    then show ?thesis
      using steps [of HubTick] inv hub by (auto simp: tenancy_inv_def hub_thread_pending intro: conns_ok_same)
  qed
qed

section \<open>What a tenant receives\<close>

lemma registered_channel:
  assumes "conns_ok t" "distinct (map snd (tn_registered t))" "(c, tx) \<in> set (tn_registered t)" "prefix ms (hv_accepted (snd (tn_hub t)))"
  shows "conn_history c tx (of_conn c ms)" "channel_of c tx ms"
proof -
  have "conn_ok c tx (accepted_of c t) (pending_of c t) (tn_clones t c)" using assms(1,3) by (auto simp: conns_ok_def)
  then have "conn_history c tx (accepted_of c t)" by (rule conn_ok_history)
  moreover have "prefix (of_conn c ms) (accepted_of c t)" using assms(4) by (auto simp: prefix_def)
  ultimately show "conn_history c tx (of_conn c ms)" unfolding conn_history_def by (meson prefix_order.trans)
  have "c' = c" if "Connect c' tx \<in> set ms" for c'
  proof -
    have seen: "Connect c' tx \<in> set (accepted_of c' t)" using that assms(4) by (auto simp: prefix_def)
    have "c' \<in> fst ` set (tn_registered t)"
    proof (rule ccontr)
      assume "c' \<notin> fst ` set (tn_registered t)"
      then have "untouched (accepted_of c' t) (pending_of c' t) (tn_clones t c')" using assms(1) by (simp add: conns_ok_def)
      then have "accepted_of c' t = []" by (simp add: untouched_def)
      with seen show False by (metis empty_iff empty_set)
    qed
    then obtain tx' where tx': "(c', tx') \<in> set (tn_registered t)" by auto
    then have "conn_history c' tx' (accepted_of c' t)" using assms(1) conn_ok_history by (fastforce simp: conns_ok_def)
    then have "tx' = tx" using seen by (cases rule: conn_history_cases) auto
    moreover have "inj_on snd (set (tn_registered t))" using assms(2) by (simp add: distinct_map)
    ultimately show ?thesis using tx' assms(3) by (metis inj_onD prod.inject snd_conv)
  qed
  then show "channel_of c tx ms" by (auto simp: channel_of_def)
qed

context hub_inbox
begin

lemma tenancy_inv_start: "unat n \<le> 2 ^ 63 \<Longrightarrow> tenancy_inv (tenancy_start new_queue n)"
  using hub_inv_start [of n]
  by (simp add: tenancy_inv_def tenancy_start_def hub_start_def hub_view_new_def conns_ok_def untouched_def)

lemma tenants_served:
  assumes "unat n \<le> 2 ^ 63" "fold (tenant_step push pop) acts (tenancy_start new_queue n) = t" "length (tn_registered t) < 2 ^ 64"
    "distinct (map snd (tn_registered t))" "distinct (new_ids (hv_accepted (snd (tn_hub t))))"
  shows "\<exists>ms. prefix ms (hv_accepted (snd (tn_hub t))) \<and> h_loop (fst (tn_hub t)) = hub_run ms ([], hub_loop_new) \<and>
    (\<forall>(c, tx) \<in> set (tn_registered t). let live = takeWhile (\<lambda>m. m \<noteq> Disconnect c) ms
       in received tx (fst (h_loop (fst (tn_hub t)))) = filter (concerns (submitters live) c) (market_events live))"
proof -
  have inv: "tenancy_inv t" using tn.inv_run [OF tenancy_inv_start [OF assms(1)], of acts] assms(2) by simp
  then have ok: "conns_ok t" "hub_inv (tn_hub t)" using assms(3) by (simp_all add: tenancy_inv_def)
  then obtain ms where "hv_accepted (snd (tn_hub t)) = ms @ items (h_inbox (fst (tn_hub t)))" "h_loop (fst (tn_hub t)) = hub_run ms ([], hub_loop_new)"
    by (auto simp: hub_inv_def split: prod.splits)
  then have ms: "prefix ms (hv_accepted (snd (tn_hub t)))" "h_loop (fst (tn_hub t)) = hub_run ms ([], hub_loop_new)" by simp_all
  have "distinct (new_ids ms)" using assms(5) ms(1) by (auto simp: prefix_def)
  then have "received tx (fst (h_loop (fst (tn_hub t)))) =
      filter (concerns (submitters (takeWhile (\<lambda>m. m \<noteq> Disconnect c) ms)) c) (market_events (takeWhile (\<lambda>m. m \<noteq> Disconnect c) ms))"
    if "(c, tx) \<in> set (tn_registered t)" for c tx
    unfolding ms(2) using registered_channel [OF ok(1) assms(4) that ms(1)] by (intro stream_until)
  with ms show ?thesis by (intro exI [of _ ms]) (auto simp: Let_def)
qed

end

section \<open>A lost disconnection\<close>

text \<open>A connection without submitters whose disconnection never reached the inbox.\<close>

definition leaked :: "conn_id \<Rightarrow> 'tx \<Rightarrow> ('q, 'tx) tenancy \<Rightarrow> bool" where
  "leaked c tx t \<longleftrightarrow> (c, tx) \<in> set (tn_registered t) \<and> (\<exists>cmds. accepted_of c t = Connect c tx # map (Cmd c) cmds) \<and>
     pending_of c t = [] \<and> tn_clones t c = 0"

lemma routes_of_conn: "r c = r' c \<Longrightarrow> fold routed ms r c = fold routed (of_conn c ms) r' c"
proof (induction ms arbitrary: r r')
  case (Cons m ms)
  show ?case
  proof (cases "msg_conn m = c")
    case True
    then have "routed m r c = routed m r' c" using Cons.prems by (cases m) simp_all
    then show ?thesis using True Cons.IH by simp
  next
    case False
    then have "routed m r c = r' c" using Cons.prems by (cases m) simp_all
    then show ?thesis using False Cons.IH by simp
  qed
qed simp

lemma routes_commands: "fold routed (map (Cmd c) cmds) r = r"
  by (induction cmds) simp_all

context hub_inbox
begin

lemma leaked_step:
  assumes "tenancy_inv t" "leaked c tx t" "length (tn_registered (tenant_step push pop a t)) < 2 ^ 64"
  shows "leaked c tx (tenant_step push pop a t)"
proof -
  obtain h v where hub: "tn_hub t = (h, v)" by (cases "tn_hub t")
  have inv: "hub_inv (h, v)" "map fst (tn_registered t) = hv_conns v" using assms(1) hub by (simp_all add: tenancy_inv_def)
  then have inbox: "inv (h_inbox h)" by (simp add: hub_inv_def)
  have gone: "tn_clones t c = 0" "pending_of c t = []" using assms(2) by (simp_all add: leaked_def)
  show ?thesis
  proof (cases a)
    case (NewTenant tx')
    have "length (hv_conns v) = length (tn_registered t)" using arg_cong [OF inv(2), of length] by simp
    then have "h_next_conn h \<notin> set (hv_conns v)" using new_id [OF inv(1)] assms(3) NewTenant by simp
    moreover have "c \<in> set (hv_conns v)" using assms(2) unfolding inv(2) [symmetric] by (force simp: leaked_def)
    ultimately have "h_next_conn h \<noteq> c" by blast
    with assms(2) NewTenant hub show ?thesis by (auto simp: leaked_def register_def Let_def)
  next
    case (PushTurn k)
    from inbox show ?thesis
    proof (cases rule: try_pending_cases [where k = k])
      case (Refused h')
      then show ?thesis using assms(2) PushTurn hub by (auto simp: leaked_def took_def submitter_returned_def)
    next
      case (Taken xs m ys h')
      then have "msg_conn m \<noteq> c" using gone(2) hub by auto
      with Taken show ?thesis
        using assms(2) PushTurn hub by (cases m) (auto simp: leaked_def took_def submitter_returned_def split: if_splits)
    qed
  next
    case (CloneSubmitter c')
    then show ?thesis using assms(2) gone(1) by (cases "c' = c") (auto simp: leaked_def clone_submitter_def)
  next
    case (SubmitCommand c' cmd)
    then show ?thesis using assms(2) gone(1) hub by (cases "c' = c") (auto simp: leaked_def submit_def)
  next
    case (DropClone c')
    have "leaked c tx (drop_clone push pop c' t)"
    proof (cases "c' = c")
      case True
      then show ?thesis using assms(2) gone(1) by (simp add: drop_clone_def)
    next
      case False
      then show ?thesis
        using assms(2) hub by (auto simp: leaked_def drop_clone_def drop_submitter_def took_def split: prod.split sum.split)
    qed
    with DropClone show ?thesis by simp
  qed (use assms(2) hub in \<open>auto simp: leaked_def hub_thread_pending\<close>)
qed

lemma registered_grow: "length (tn_registered t) \<le> length (tn_registered (tenant_step push pop a t))"
  by (cases a) (simp_all add: clone_submitter_def drop_clone_def)

lemma leaked_run:
  assumes "tenancy_inv t" "leaked c tx t" "length (tn_registered (fold (tenant_step push pop) acts t)) < 2 ^ 64"
  shows "leaked c tx (fold (tenant_step push pop) acts t)"
proof -
  have "length (tn_registered s) < 2 ^ 64 \<longrightarrow> leaked c tx s" if "s = fold (tenant_step push pop) acts t" for s
    unfolding that using assms(1) _
  proof (rule tn.run_invariant)
    fix s a
    assume "tenancy_inv s" "length (tn_registered s) < 2 ^ 64 \<longrightarrow> leaked c tx s"
    then show "length (tn_registered (tenant_step push pop a s)) < 2 ^ 64 \<longrightarrow> leaked c tx (tenant_step push pop a s)"
      using leaked_step [of s c tx a] registered_grow [of s a] by (auto simp del: tenant_step.simps)
  qed (use assms(2) in simp)
  with assms(3) show ?thesis by blast
qed

lemma leaked_drop:
  assumes "tenancy_inv t" "length (tn_registered t) < 2 ^ 64" "(c, tx) \<in> set (tn_registered t)" "tn_clones t c = 1" "\<not> borrowed c t"
    "length (items (h_inbox (fst (tn_hub t)))) = cap (h_inbox (fst (tn_hub t)))"
  shows "leaked c tx (tenant_step push pop (DropClone c) t)"
proof -
  obtain h v where hub: "tn_hub t = (h, v)" by (cases "tn_hub t")
  have ok: "inv (h_inbox h)" "conn_ok c tx (accepted_of c t) (pending_of c t) (tn_clones t c)"
    using assms(1-3) hub by (auto simp: tenancy_inv_def hub_inv_def conns_ok_def)
  then obtain cmds cs where c: "accepted_of c t = Connect c tx # map (Cmd c) cmds" "pending_of c t = map (Cmd c) cs"
    using assms(4) by (auto simp: conn_defs)
  have "pending_of c t = []"
  proof (cases cs)
    case (Cons cmd cs')
    then have "Cmd c cmd \<in> set (pending_of c t)" using c(2) by simp
    then show ?thesis using assms(5) by (auto simp: borrowed_def list_ex_iff)
  qed (use c(2) in simp)
  moreover from push_full [OF ok(1), of "Disconnect c"] obtain q where "push (Disconnect c) (h_inbox h) = (Inl (Disconnect c), q)"
    using assms(6) hub by auto
  ultimately show ?thesis
    using assms(3-5) hub c(1) by (auto simp: leaked_def drop_clone_def drop_submitter_def took_def)
qed

lemma leaked_route:
  assumes "tenancy_inv t" "leaked c tx t" "items (h_inbox (fst (tn_hub t))) = []"
  shows "hl_routes (snd (h_loop (fst (tn_hub t)))) c = Some tx"
proof -
  obtain ms where ms: "hv_accepted (snd (tn_hub t)) = ms" "h_loop (fst (tn_hub t)) = hub_run ms ([], hub_loop_new)"
    using assms(1,3) by (auto simp: tenancy_inv_def hub_inv_def split: prod.splits)
  obtain cmds where "of_conn c ms = Connect c tx # map (Cmd c) cmds" using assms(2) ms(1) by (auto simp: leaked_def)
  then show ?thesis
    using routes_of_conn [of Map.empty c Map.empty ms] ms(2) by (simp add: hub_run_routes hub_loop_new_def routes_commands)
qed

lemma reachable_tenancy: "unat n \<le> 2 ^ 63 \<Longrightarrow> tenancy_inv (fold (tenant_step push pop) acts (tenancy_start new_queue n))"
  by (intro tn.inv_run tenancy_inv_start)

lemma registered_distinct:
  assumes "tenancy_inv t" "length (tn_registered t) < 2 ^ 64"
  shows "distinct (map fst (tn_registered t))"
proof -
  obtain h v where "tn_hub t = (h, v)" by (cases "tn_hub t")
  with assms(1) have v: "map fst (tn_registered t) = hv_conns v" "hv_conns v = map (\<lambda>k. of_nat (Suc k)) [0..<length (hv_conns v)]"
    by (auto simp: tenancy_inv_def hub_inv_def)
  have "length (hv_conns v) < 2 ^ 64" using arg_cong [OF v(1), of length] assms(2) by simp
  from numbered_distinct [OF this] show ?thesis unfolding v(1) by (simp only: v(2) [symmetric])
qed

lemma registered_run: "length (tn_registered t) \<le> length (tn_registered (fold (tenant_step push pop) acts t))"
proof (induction acts arbitrary: t)
  case (Cons a acts)
  show ?case using registered_grow [of t a] Cons [of "tenant_step push pop a t"] by simp
qed simp

lemma leaks:
  assumes "tenancy_inv t" "(c, tx) \<in> set (tn_registered t)" "tn_clones t c = 1" "\<not> borrowed c t"
    "length (items (h_inbox (fst (tn_hub t)))) = cap (h_inbox (fst (tn_hub t)))"
    "fold (tenant_step push pop) acts' (tenant_step push pop (DropClone c) t) = t'" "length (tn_registered t') < 2 ^ 64"
    "items (h_inbox (fst (tn_hub t'))) = []"
  shows "hl_routes (snd (h_loop (fst (tn_hub t')))) c = Some tx \<and> tn_clones t' c = 0"
proof -
  note inv = tn.inv_step [OF assms(1), of "DropClone c"]
  have "length (tn_registered t) < 2 ^ 64" using registered_run [of t "DropClone c # acts'"] assms(6,7) by simp
  then have "leaked c tx (tenant_step push pop (DropClone c) t)" using leaked_drop [OF assms(1) _ assms(2-5)] by blast
  then have "leaked c tx t'" using leaked_run [OF inv] assms(6,7) by blast
  then show ?thesis using leaked_route [of t'] tn.inv_run [OF inv, of acts'] assms(6,8) by (auto simp: leaked_def)
qed

end

section \<open>Guarantees\<close>

text \<open>C10. The hub as its tenants see it. Whatever they do with their handles (registering, cloning, submitting from several threads,
  dropping), in any interleaving with each other, the matcher thread and a request to stop: no two registrations get the same
  connection id; the thread has handled a prefix of the messages in the inbox with one matcher; and every tenant has been sent exactly the events of
  the market, up to the handling of its disconnection, that name one of its orders, in order and each once. (Each registration has a
  channel of its own, there are fewer than \<open>2^64\<close> of them, and no order id is submitted twice.)\<close>

theorem hub_serves_tenants:
  assumes "hub_inbox ok items cap push pop new_queue" "unat n \<le> 2 ^ 63"
    "fold (tenant_step push pop) acts (tenancy_start new_queue n) = t" "length (tn_registered t) < 2 ^ 64"
    "distinct (map snd (tn_registered t))" "distinct (new_ids (hv_accepted (snd (tn_hub t))))"
  shows "distinct (map fst (tn_registered t)) \<and>
    (\<exists>ms. prefix ms (hv_accepted (snd (tn_hub t))) \<and> h_loop (fst (tn_hub t)) = hub_run ms ([], hub_loop_new) \<and>
      hl_matcher (snd (h_loop (fst (tn_hub t)))) = fst (run_commands (commands_of ms) (matcher_new, [])) \<and>
      (\<forall>(c, tx) \<in> set (tn_registered t). let live = takeWhile (\<lambda>m. m \<noteq> Disconnect c) ms
         in received tx (fst (h_loop (fst (tn_hub t)))) =
              filter (concerns (submitters live) c) (snd (run_commands (commands_of live) (matcher_new, [])))))"
  using hub_inbox.registered_distinct [OF assms(1) hub_inbox.reachable_tenancy [OF assms(1,2)], of acts]
    hub_inbox.tenants_served [OF assms] hub_run_matcher [of _ "([], hub_loop_new)"] assms(3,4)
  by (fastforce simp: hub_loop_new_def)

text \<open>Two tenants whose orders trade; the second drops its submitter.\<close>

definition tenant_ask :: command where
  "tenant_ask = New \<lparr>no_id = 8, no_side = Sell, no_qty = 6, no_kind = Limit (Price 99), no_timestamp = 0\<rparr>"

definition trading_tenants :: "(string msg spsc, string) tenancy" where
  "trading_tenants = fold (tenant_step spsc_push spsc_pop)
     ([NewTenant ''tx1'', NewTenant ''tx2'', PushTurn 0, PushTurn 0, SubmitCommand 1 (hub_order 7), SubmitCommand 2 tenant_ask,
       PushTurn 0, PushTurn 0, DropClone 2, HubTurn, HubTurn, HubTurn, HubTurn, HubTurn]) (tenancy_start channel 8)"

theorem hub_serves_tenants_witness:
  "\<exists>ms. prefix ms [Connect 1 ''tx1'', Connect 2 ''tx2'', Cmd 1 (hub_order 7), Cmd 2 tenant_ask, Disconnect 2] \<and>
    h_loop (fst (tn_hub trading_tenants)) = hub_run ms ([], hub_loop_new) \<and>
    received ''tx2'' (fst (h_loop (fst (tn_hub trading_tenants)))) =
      (let live = takeWhile (\<lambda>m. m \<noteq> Disconnect 2) ms
       in filter (concerns (submitters live) 2) (snd (run_commands (commands_of live) (matcher_new, []))))"
proof -
  have "tn_registered trading_tenants = [(1, ''tx1''), (2, ''tx2'')]"
    "hv_accepted (snd (tn_hub trading_tenants)) = [Connect 1 ''tx1'', Connect 2 ''tx2'', Cmd 1 (hub_order 7), Cmd 2 tenant_ask, Disconnect 2]"
    "distinct (new_ids [Connect 1 ''tx1'', Connect 2 ''tx2'', Cmd 1 (hub_order 7), Cmd 2 tenant_ask, Disconnect 2])"
    by code_simp+
  then show ?thesis
    using hub_serves_tenants [OF ring_inbox.hub_inbox_axioms _ trading_tenants_def [symmetric]] by (fastforce simp: Let_def)
qed

text \<open>C27. A disconnection can be lost for good. When the last submitter of a connection is dropped while the inbox is full, the hub
  keeps the connection's route forever: whatever happens afterwards, once all messages are handled the route is still in the
  table, and no submitter exists that could have it removed. (The comment in \<open>drop\<close> expects the next dispatch to notice
  the closed channel, but the loop ignores the result of \<open>send\<close>.)\<close>

theorem lost_disconnect_leaks_route:
  assumes "hub_inbox ok items cap push pop new_queue" "unat n \<le> 2 ^ 63"
    "fold (tenant_step push pop) acts (tenancy_start new_queue n) = t" "(c, tx) \<in> set (tn_registered t)"
    "tn_clones t c = 1" "\<not> borrowed c t" "length (items (h_inbox (fst (tn_hub t)))) = cap (h_inbox (fst (tn_hub t)))"
    "fold (tenant_step push pop) acts' (tenant_step push pop (DropClone c) t) = t'" "length (tn_registered t') < 2 ^ 64"
    "items (h_inbox (fst (tn_hub t'))) = []"
  shows "hl_routes (snd (h_loop (fst (tn_hub t')))) c = Some tx \<and> tn_clones t' c = 0"
  by (rule hub_inbox.leaks [OF assms(1) _ assms(4-10)]) (use hub_inbox.reachable_tenancy [OF assms(1,2)] assms(3) in blast)

definition full_tenants :: "(string msg spsc, string) tenancy" where
  "full_tenants = fold (tenant_step spsc_push spsc_pop)
     ([NewTenant ''tx1'', PushTurn 0] @ concat (replicate 7 [SubmitCommand 1 (Cancel 5), PushTurn 0])) (tenancy_start channel 8)"

theorem lost_disconnect_leaks_route_witness:
  "hl_routes (snd (h_loop (fst (tn_hub (fold (tenant_step spsc_push spsc_pop) (replicate 9 HubTurn)
     (tenant_step spsc_push spsc_pop (DropClone 1) full_tenants)))))) 1 = Some ''tx1''"
proof -
  let ?t' = "fold (tenant_step spsc_push spsc_pop) (replicate 9 HubTurn) (tenant_step spsc_push spsc_pop (DropClone 1) full_tenants)"
  have "tn_registered full_tenants = [(1, ''tx1'')]" "tn_clones full_tenants 1 = 1" "\<not> borrowed 1 full_tenants"
    "length (spsc_items (h_inbox (fst (tn_hub full_tenants)))) = 8" "spsc_cap (h_inbox (fst (tn_hub full_tenants))) = 8"
    by code_simp+
  moreover have "length (tn_registered ?t') = 1" "spsc_items (h_inbox (fst (tn_hub ?t'))) = []" by code_simp+
  ultimately show ?thesis
    using lost_disconnect_leaks_route [OF ring_inbox.hub_inbox_axioms _ full_tenants_def [symmetric], of 1 "''tx1''" "replicate 9 HubTurn" ?t']
    by simp
qed

end
