(* ===== verification/Protocol.thy ===== *)
theory Protocol
  imports Byte_Codec
begin

text \<open>
  The wire protocol of \<^verbatim>\<open>bourse-protocol/src/lib.rs\<close>: client and server messages, their frames
  (a 4-byte length, a version byte, a type byte and a payload), and the decoders of frame bodies.
  The length is written as a placeholder first and patched when the body is known, as in the code.
\<close>

section \<open>Constants and messages\<close>

definition PROTOCOL_VERSION :: u8 where "PROTOCOL_VERSION = 1"
definition MSG_NEW_ORDER :: u8 where "MSG_NEW_ORDER = 0x01"
definition MSG_CANCEL :: u8 where "MSG_CANCEL = 0x02"
definition MSG_EXECUTION :: u8 where "MSG_EXECUTION = 0x10"
definition EXEC_ACCEPTED :: u8 where "EXEC_ACCEPTED = 1"
definition EXEC_TRADE :: u8 where "EXEC_TRADE = 2"
definition EXEC_DONE :: u8 where "EXEC_DONE = 3"
definition REASON_FILLED :: u8 where "REASON_FILLED = 1"
definition REASON_CANCELLED :: u8 where "REASON_CANCELLED = 2"
definition REASON_EXPIRED :: u8 where "REASON_EXPIRED = 3"
definition REASON_NO_LIQUIDITY :: u8 where "REASON_NO_LIQUIDITY = 4"
definition REASON_REJECTED :: u8 where "REASON_REJECTED = 5"

lemmas msg_defs = PROTOCOL_VERSION_def MSG_NEW_ORDER_def MSG_CANCEL_def MSG_EXECUTION_def
lemmas exec_defs = EXEC_ACCEPTED_def EXEC_TRADE_def EXEC_DONE_def
lemmas reason_defs = REASON_FILLED_def REASON_CANCELLED_def REASON_EXPIRED_def
  REASON_NO_LIQUIDITY_def REASON_REJECTED_def

datatype protocol_error =
    Truncated
  | UnknownVersion u8
  | UnknownMessage u8
  | UnknownSide u8
  | UnknownKindTag u8
  | UnknownExecType u8
  | UnknownReason u8
  | TrailingBytes

datatype client_message = ClientNewOrder new_order | ClientCancel order_id
datatype server_message = Execution event

section \<open>Encoding\<close>

text \<open>Overwrite the 4-byte placeholder at \<open>frame_start\<close> with the length of what follows it.\<close>

definition patch_len :: "nat \<Rightarrow> bytes \<Rightarrow> bytes" where
  "patch_len frame_start out =
     (let body_len = length out - frame_start - 4;
          len_bytes = u32_le (if body_len < 2 ^ 32 then of_nat body_len else - 1)
      in List.take frame_start out @ len_bytes @ drop (frame_start + 4) out)"

definition encode_client :: "client_message \<Rightarrow> bytes \<Rightarrow> bytes" where
  "encode_client msg out =
     (let frame_start = length out;
          out = out @ [0, 0, 0, 0];
          out = out @ [PROTOCOL_VERSION];
          out = (case msg of
              ClientNewOrder no \<Rightarrow> encode_new_order no (out @ [MSG_NEW_ORDER])
            | ClientCancel i \<Rightarrow> (out @ [MSG_CANCEL]) @ u64_le i)
      in patch_len frame_start out)"

fun encode_reason :: "done_reason \<Rightarrow> u8" where
  "encode_reason Filled = REASON_FILLED"
| "encode_reason Cancelled = REASON_CANCELLED"
| "encode_reason Expired = REASON_EXPIRED"
| "encode_reason NoLiquidity = REASON_NO_LIQUIDITY"
| "encode_reason Rejected = REASON_REJECTED"

fun encode_event :: "event \<Rightarrow> bytes \<Rightarrow> bytes" where
  "encode_event (Accepted i q sq) out = out @ [EXEC_ACCEPTED] @ u64_le i @ u64_le q @ u64_le sq"
| "encode_event (Trade t m p q sq) out =
     out @ [EXEC_TRADE] @ u64_le t @ u64_le m @ u64_le (price_raw p) @ u64_le q @ u64_le sq"
| "encode_event (Done i q r sq) out =
     out @ [EXEC_DONE] @ u64_le i @ u64_le q @ [encode_reason r] @ u64_le sq"

definition encode_server :: "server_message \<Rightarrow> bytes \<Rightarrow> bytes" where
  "encode_server msg out =
     (let frame_start = length out;
          out = out @ [0, 0, 0, 0];
          out = out @ [PROTOCOL_VERSION];
          out = (case msg of Execution e \<Rightarrow> encode_event e (out @ [MSG_EXECUTION]))
      in patch_len frame_start out)"

section \<open>Decoding\<close>

definition at_end :: "cursor \<Rightarrow> 'a \<Rightarrow> protocol_error + 'a" where
  "at_end c msg = (if c_pos c \<noteq> length (c_bytes c) then Inl TrailingBytes else Inr msg)"

definition decode_client :: "bytes \<Rightarrow> protocol_error + client_message" where
  "decode_client body =
     try_bind (read_u8 Truncated (cursor_new body)) (\<lambda>(version, c).
       if version \<noteq> PROTOCOL_VERSION then Inl (UnknownVersion version)
       else try_bind (read_u8 Truncated c) (\<lambda>(tag, c).
         if tag = MSG_NEW_ORDER
         then try_bind (decode_new_order Truncated UnknownSide UnknownKindTag c)
           (\<lambda>(no, c). at_end c (ClientNewOrder no))
         else if tag = MSG_CANCEL
         then try_bind (read_u64 Truncated c) (\<lambda>(i, c). at_end c (ClientCancel i))
         else Inl (UnknownMessage tag)))"

definition decode_reason :: "u8 \<Rightarrow> protocol_error + done_reason" where
  "decode_reason b =
     (if b = REASON_FILLED then Inr Filled
      else if b = REASON_CANCELLED then Inr Cancelled
      else if b = REASON_EXPIRED then Inr Expired
      else if b = REASON_NO_LIQUIDITY then Inr NoLiquidity
      else if b = REASON_REJECTED then Inr Rejected
      else Inl (UnknownReason b))"

definition decode_event :: "cursor \<Rightarrow> protocol_error + (event \<times> cursor)" where
  "decode_event c =
     try_bind (read_u8 Truncated c) (\<lambda>(tag, c).
       if tag = EXEC_ACCEPTED then
         try_bind (read_u64 Truncated c) (\<lambda>(i, c).
         try_bind (read_u64 Truncated c) (\<lambda>(q, c).
         try_bind (read_u64 Truncated c) (\<lambda>(sq, c).
           Inr (Accepted i q sq, c))))
       else if tag = EXEC_TRADE then
         try_bind (read_u64 Truncated c) (\<lambda>(t, c).
         try_bind (read_u64 Truncated c) (\<lambda>(m, c).
         try_bind (read_i64 Truncated c) (\<lambda>(p, c).
         try_bind (read_u64 Truncated c) (\<lambda>(q, c).
         try_bind (read_u64 Truncated c) (\<lambda>(sq, c).
           Inr (Trade t m (Price p) q sq, c))))))
       else if tag = EXEC_DONE then
         try_bind (read_u64 Truncated c) (\<lambda>(i, c).
         try_bind (read_u64 Truncated c) (\<lambda>(q, c).
         try_bind (read_u8 Truncated c) (\<lambda>(b, c).
         try_bind (decode_reason b) (\<lambda>r.
         try_bind (read_u64 Truncated c) (\<lambda>(sq, c).
           Inr (Done i q r sq, c))))))
       else Inl (UnknownExecType tag))"

definition decode_server :: "bytes \<Rightarrow> protocol_error + server_message" where
  "decode_server body =
     try_bind (read_u8 Truncated (cursor_new body)) (\<lambda>(version, c).
       if version \<noteq> PROTOCOL_VERSION then Inl (UnknownVersion version)
       else try_bind (read_u8 Truncated c) (\<lambda>(tag, c).
         if tag = MSG_EXECUTION
         then try_bind (decode_event c) (\<lambda>(e, c). at_end c (Execution e))
         else Inl (UnknownMessage tag)))"

section \<open>Events\<close>

lemma decode_reason_Inr [simp]: "decode_reason b = Inr r \<longleftrightarrow> b = encode_reason r"
  by (cases r) (auto simp: decode_reason_def reason_defs)

interpretation event_codec: codec "\<lambda>e. encode_event e []" decode_event
proof
  fix pre bs suf e c
  have reason: "decode_reason (encode_reason r) = Inr r" for r by simp
  show "decode_event (cur pre (encode_event e [] @ suf)) = Inr (e, cur (pre @ encode_event e []) suf)"
    by (cases e) (simp_all add: decode_event_def codec_simps exec_defs reason)
  show "\<exists>suf. bs = encode_event e [] @ suf \<and> c = cur (pre @ encode_event e []) suf"
    if "decode_event (cur pre bs) = Inr (e, c)"
    using that by (auto simp: decode_event_def try_bind_Inr_iff read_Inr split: if_splits)
qed

interpretation event_codec: codec_short "\<lambda>e. encode_event e []" decode_event Truncated
proof
  fix n e pre
  assume n: "n < length (encode_event e [])"
  have reason: "decode_reason (encode_reason r) = Inr r" for r by simp
  show "decode_event (cur pre (List.take n (encode_event e []))) = Inl Truncated"
    using n
    by (cases e) (auto simp: decode_event_def read_take exec_defs reason simp del: take_append)
qed

section \<open>Frames\<close>

text \<open>The body of a frame, and the frame as the body behind its length.\<close>

fun client_body :: "client_message \<Rightarrow> bytes" where
  "client_body (ClientNewOrder no) = PROTOCOL_VERSION # MSG_NEW_ORDER # encode_new_order no []"
| "client_body (ClientCancel i) = PROTOCOL_VERSION # MSG_CANCEL # u64_le i"

fun server_body :: "server_message \<Rightarrow> bytes" where
  "server_body (Execution e) = PROTOCOL_VERSION # MSG_EXECUTION # encode_event e []"

definition frame :: "bytes \<Rightarrow> bytes" where
  "frame body = u32_le (of_nat (length body)) @ body"

lemma encode_new_order_append: "encode_new_order no out = out @ encode_new_order no []"
  by (simp add: encode_new_order_def)

lemma encode_event_append: "encode_event e out = out @ encode_event e []"
  by (cases e) simp_all

lemma patch_len_frame:
  "length body < 2 ^ 32 \<Longrightarrow> patch_len (length out) (out @ [0, 0, 0, 0] @ body) = out @ frame body"
  by (simp add: patch_len_def frame_def Let_def)

lemma length_encode_kind: "length (encode_kind k) \<le> 9"
  by (cases k) simp_all

lemma length_client_body: "length (client_body msg) \<le> 36"
  by (cases msg) (simp_all add: encode_new_order_def, metis length_encode_kind)

lemma length_server_body: "length (server_body msg) \<le> 43"
  by (cases msg; cases "case msg of Execution e \<Rightarrow> e") simp_all

lemma encode_client_frame: "encode_client msg out = out @ frame (client_body msg)"
  using length_client_body [of msg] patch_len_frame [of "client_body msg" out]
  by (cases msg) (simp_all add: encode_client_def Let_def, subst encode_new_order_append, simp)

lemma encode_server_frame: "encode_server msg out = out @ frame (server_body msg)"
  using length_server_body [of msg] patch_len_frame [of "server_body msg" out]
  by (cases msg) (simp add: encode_server_def Let_def, subst encode_event_append, simp)

lemma decode_client_iff: "decode_client body = Inr msg \<longleftrightarrow> body = client_body msg"
proof
  assume "decode_client body = Inr msg"
  then show "body = client_body msg"
    by (auto simp: decode_client_def cursor_new_cur at_end_def try_bind_Inr_iff read_Inr
        order_codec.dec_iff split: if_splits)
next
  assume "body = client_body msg"
  then show "decode_client body = Inr msg"
    using read_u64_cur [of Truncated _ _ "[]"] order_codec.dec_enc [of Truncated UnknownSide UnknownKindTag _ _ "[]"]
    by (cases msg) (simp_all add: decode_client_def cursor_new_cur at_end_def codec_simps msg_defs)
qed

lemma decode_server_iff: "decode_server body = Inr msg \<longleftrightarrow> body = server_body msg"
proof
  assume "decode_server body = Inr msg"
  then show "body = server_body msg"
    by (auto simp: decode_server_def cursor_new_cur at_end_def try_bind_Inr_iff read_Inr
        event_codec.dec_iff split: if_splits)
next
  assume "body = server_body msg"
  then show "decode_server body = Inr msg"
    using event_codec.dec_enc [of _ _ "[]"]
    by (cases msg) (simp add: decode_server_def cursor_new_cur at_end_def codec_simps msg_defs)
qed

section \<open>Guarantees\<close>

lemma frame_inj: "frame a = frame b \<longleftrightarrow> a = b"
  by (auto simp: frame_def)

text \<open>C35. The client codec is exact: a frame body decodes to a message if and only if the frame the
  encoder appends for that message is the body behind its 4-byte length. So every message survives
  the wire, no two messages share a frame, and no other bytes are accepted.\<close>

theorem client_codec_exact:
  "decode_client body = Inr msg \<longleftrightarrow> encode_client msg out = out @ u32_le (of_nat (length body)) @ body"
  using frame_inj [of "client_body msg" body]
  by (auto simp: decode_client_iff encode_client_frame frame_def)

text \<open>C36. The server codec is exact in the same way: an event survives the wire unchanged, and the
  decoder accepts nothing but what the encoder produces.\<close>

theorem server_codec_exact:
  "decode_server body = Inr msg \<longleftrightarrow> encode_server msg out = out @ u32_le (of_nat (length body)) @ body"
  using frame_inj [of "server_body msg" body]
  by (auto simp: decode_server_iff encode_server_frame frame_def)

text \<open>Incomplete and oversized client bodies are told apart: every proper prefix of a valid body
  is reported as truncated, and a valid body with anything behind it as having trailing bytes.\<close>

theorem client_body_length_errors:
  assumes "n < length (client_body msg)" "extra \<noteq> []"
  shows "decode_client (List.take n (client_body msg)) = Inl Truncated \<and>
    decode_client (client_body msg @ extra) = Inl TrailingBytes"
proof
  show "decode_client (List.take n (client_body msg)) = Inl Truncated"
    using assms(1) order_codec.truncated_short [of _ _ Truncated UnknownSide UnknownKindTag]
    by (cases msg) (auto simp: decode_client_def cursor_new_cur read_take msg_defs)
  show "decode_client (client_body msg @ extra) = Inl TrailingBytes"
    using assms(2)
    by (cases msg) (simp_all add: decode_client_def cursor_new_cur at_end_def codec_simps msg_defs order_codec.dec_enc)
qed

theorem client_body_length_errors_witness:
  "decode_client [1, 2, 7, 0, 0] = Inl Truncated \<and> decode_client [1, 2, 7, 0, 0, 0, 0, 0, 0, 0, 9] = Inl TrailingBytes"
proof -
  have "client_body (ClientCancel 7) = [1, 2, 7, 0, 0, 0, 0, 0, 0, 0]" by code_simp
  then show ?thesis
    using client_body_length_errors [of 5 "ClientCancel 7" "[9]"] by simp
qed

end
