(* ===== verification/Server.thy ===== *)
theory Server
  imports Protocol Wal Hub_Correct
begin

text \<open>
  The TCP front of \<^verbatim>\<open>bourse-server/src/lib.rs\<close>: the loop that reads framed client messages and submits
  them to the hub, the loop that frames events back, and the reader the clients use. A half of a
  stream is the list of bytes that arrive on it before it is closed; errors of the network other than its end
  are not modelled. The accept loop with its shutdown is a machine that takes one turn per \<open>select!\<close>, given
  which of the futures are ready; what a task of a connection contributes to the hub is a list of messages.
\<close>

section \<open>Configuration\<close>

record config =
  inbox_capacity :: u64
  shutdown_grace :: nat

definition config_default :: config where
  "config_default = \<lparr>inbox_capacity = 8192, shutdown_grace = 5\<rparr>"

section \<open>Reading from a client\<close>

datatype server_error = NetIo io_error | InvalidData protocol_error

fun client_command :: "client_message \<Rightarrow> hub_command" where
  "client_command (ClientNewOrder no) = New no"
| "client_command (ClientCancel i) = Cancel i"

text \<open>One turn of the loop: the end of the stream, an error, or a command to submit and the rest.\<close>

definition read_command :: "bytes \<Rightarrow> server_error + (hub_command \<times> bytes) option" where
  "read_command bs =
     (case read_exact 4 bs of
        Inl UnexpectedEof \<Rightarrow> Inr None
      | Inl e \<Rightarrow> Inl (NetIo e)
      | Inr (len_buf, bs) \<Rightarrow>
          (case read_exact (unat (from_le_bytes len_buf :: u32)) bs of
             Inl e \<Rightarrow> Inl (NetIo e)
           | Inr (body, bs) \<Rightarrow>
               (case decode_client body of
                  Inl e \<Rightarrow> Inl (InvalidData e)
                | Inr msg \<Rightarrow> Inr (Some (client_command msg, bs)))))"

lemma read_command_consumes: "read_command bs = Inr (Some (cmd, rest)) \<Longrightarrow> length rest < length bs"
  by (auto simp: read_command_def dest!: read_exact_rest split: sum.splits io_error.splits)

text \<open>The commands submitted, in order, and how the loop ends.\<close>

function reader_loop :: "bytes \<Rightarrow> hub_command list \<times> (server_error + unit)" where
  "reader_loop bs =
     (case read_command bs of
        Inl e \<Rightarrow> ([], Inl e)
      | Inr None \<Rightarrow> ([], Inr ())
      | Inr (Some (cmd, rest)) \<Rightarrow> (case reader_loop rest of (cmds, r) \<Rightarrow> (cmd # cmds, r)))"
  by pat_completeness auto
termination
  by (relation "measure length") (auto dest: sym read_command_consumes)

declare reader_loop.simps [simp del]

section \<open>Writing to a client, and reading there\<close>

fun writer_loop :: "event list \<Rightarrow> bytes" where
  "writer_loop [] = []"
| "writer_loop (e # es) = encode_server (Execution e) [] @ writer_loop es"

definition read_one_server_message :: "bytes \<Rightarrow> server_error + (server_message \<times> bytes) option" where
  "read_one_server_message bs =
     (case read_exact 4 bs of
        Inl UnexpectedEof \<Rightarrow> Inr None
      | Inl e \<Rightarrow> Inl (NetIo e)
      | Inr (len_buf, bs) \<Rightarrow>
          (case read_exact (unat (from_le_bytes len_buf :: u32)) bs of
             Inl e \<Rightarrow> Inl (NetIo e)
           | Inr (body, bs) \<Rightarrow>
               (case decode_server body of
                  Inl e \<Rightarrow> Inl (InvalidData e)
                | Inr msg \<Rightarrow> Inr (Some (msg, bs)))))"

section \<open>A connection\<close>

text \<open>\<open>handle_connection\<close>, as the hub sees it: a registration and the commands of the reader; when the
  reader returns, however it ends, the submitter is dropped.\<close>

definition connection_open :: "conn_id \<Rightarrow> 'tx \<Rightarrow> bytes \<Rightarrow> 'tx msg list" where
  "connection_open conn_id tx bs = Connect conn_id tx # map (Cmd conn_id) (fst (reader_loop bs))"

definition handle_connection :: "conn_id \<Rightarrow> 'tx \<Rightarrow> bytes \<Rightarrow> 'tx msg list" where
  "handle_connection conn_id tx bs = connection_open conn_id tx bs @ [Disconnect conn_id]"

text \<open>Once the reader has returned the writer is aborted, at whatever byte it has reached.\<close>

definition writer_aborted :: "nat \<Rightarrow> event list \<Rightarrow> bytes" where
  "writer_aborted k events = List.take k (writer_loop events)"

section \<open>The accept loop and the shutdown\<close>

text \<open>Accepting; draining the handlers up to the deadline; awaiting those that were aborted; leaving the function, with its result, while
  its locals are dropped; returned.\<close>

datatype serve_phase = Accepting | Draining | Reaping | Leaving "io_error option" | ServeOk | ServeErr io_error

text \<open>The tasks of the \<open>JoinSet\<close>, named by their peers, and those that have left it, by finishing or after
  being aborted.\<close>

record 'p serve_state =
  sv_handlers :: "'p list"
  sv_finished :: "'p list"
  sv_aborted :: "'p list"
  sv_phase :: serve_phase

text \<open>What is ready at a turn: the shutdown future, an accepted connection or its error, a handler that has
  finished or was cancelled, the deadline, and the drop of the \<open>Arc<Hub>\<close>, which joins the matcher thread
  (\<open>hub_drop\<close>) unless some handler still holds another.\<close>

record 'p ready =
  rd_shutdown :: bool
  rd_accepted :: "(io_error + 'p) option"
  rd_done :: "'p option"
  rd_deadline :: bool
  rd_hub_dropped :: bool

definition serve_start :: "'p serve_state" where
  "serve_start = \<lparr>sv_handlers = [], sv_finished = [], sv_aborted = [], sv_phase = Accepting\<rparr>"

definition join_next :: "'p ready \<Rightarrow> 'p serve_state \<Rightarrow> 'p serve_state" where
  "join_next r s =
     (case rd_done r of
        Some p \<Rightarrow>
          if p \<in> set (sv_handlers s)
          then s\<lparr>sv_handlers := remove1 p (sv_handlers s), sv_finished := sv_finished s @ [p]\<rparr> else s
      | None \<Rightarrow> s)"

text \<open>Dropping the set aborts its tasks without waiting for them.\<close>

definition drop_handlers :: "'p serve_state \<Rightarrow> 'p serve_state" where
  "drop_handlers s = s\<lparr>sv_handlers := [], sv_aborted := sv_aborted s @ sv_handlers s\<rparr>"

definition accept_turn :: "'p ready \<Rightarrow> 'p serve_state \<Rightarrow> 'p serve_state" where
  "accept_turn r s =
     (if rd_shutdown r then s\<lparr>sv_phase := Draining\<rparr>
      else case rd_accepted r of
        Some (Inl e) \<Rightarrow> (drop_handlers s)\<lparr>sv_phase := Leaving (Some e)\<rparr>
      | Some (Inr peer) \<Rightarrow> s\<lparr>sv_handlers := sv_handlers s @ [peer]\<rparr>
      | None \<Rightarrow> join_next r s)"

text \<open>At the deadline \<open>abort_all\<close> tells the tasks to stop, and they stay in the set until they have been joined.\<close>

definition drain_turn :: "'p ready \<Rightarrow> 'p serve_state \<Rightarrow> 'p serve_state" where
  "drain_turn r s =
     (if rd_deadline r then s\<lparr>sv_phase := Reaping\<rparr>
      else if sv_handlers s = [] then s\<lparr>sv_phase := Leaving None\<rparr>
      else join_next r s)"

definition reap_turn :: "'p ready \<Rightarrow> 'p serve_state \<Rightarrow> 'p serve_state" where
  "reap_turn r s =
     (if sv_handlers s = [] then s\<lparr>sv_phase := Leaving None\<rparr>
      else case rd_done r of
        Some p \<Rightarrow>
          if p \<in> set (sv_handlers s)
          then s\<lparr>sv_handlers := remove1 p (sv_handlers s), sv_aborted := sv_aborted s @ [p]\<rparr> else s
      | None \<Rightarrow> s)"

definition leave_turn :: "io_error option \<Rightarrow> 'p ready \<Rightarrow> 'p serve_state \<Rightarrow> 'p serve_state" where
  "leave_turn err r s =
     (if rd_hub_dropped r then s\<lparr>sv_phase := (case err of None \<Rightarrow> ServeOk | Some e \<Rightarrow> ServeErr e)\<rparr> else s)"

definition serve_turn :: "'p ready \<Rightarrow> 'p serve_state \<Rightarrow> 'p serve_state" where
  "serve_turn r s =
     (case sv_phase s of
        Accepting \<Rightarrow> accept_turn r s
      | Draining \<Rightarrow> drain_turn r s
      | Reaping \<Rightarrow> reap_turn r s
      | Leaving err \<Rightarrow> leave_turn err r s
      | _ \<Rightarrow> s)"

definition serve_until :: "'p ready list \<Rightarrow> 'p serve_state" where
  "serve_until rs = fold serve_turn rs serve_start"

text \<open>\<open>serve\<close>, with a shutdown that never comes.\<close>

definition serve :: "'p ready list \<Rightarrow> 'p serve_state" where
  "serve rs = serve_until (map (\<lambda>r. r\<lparr>rd_shutdown := False\<rparr>) rs)"

section \<open>The program\<close>

text \<open>\<^verbatim>\<open>bourse-server/src/main.rs\<close>: the address, and a shutdown at the first of the two signals. An argument
  of the command line that is missing or does not parse has a default.\<close>

definition arg_or :: "nat \<Rightarrow> (string \<Rightarrow> 'a option) \<Rightarrow> 'a \<Rightarrow> string list \<Rightarrow> 'a" where
  "arg_or k parse dflt args =
     (if k < length args then case parse (args ! k) of Some x \<Rightarrow> x | None \<Rightarrow> dflt else dflt)"

definition server_addr :: "string list \<Rightarrow> string" where
  "server_addr args = arg_or 1 Some ''127.0.0.1:9000'' args"

definition shutdown_signal :: "bool \<Rightarrow> bool \<Rightarrow> bool" where
  "shutdown_signal sigterm sigint \<longleftrightarrow> sigterm \<or> sigint"

text \<open>At each turn, which signals have arrived and what else is ready. Binding is a parameter.\<close>

definition signalled :: "bool \<times> bool \<times> 'p ready \<Rightarrow> 'p ready" where
  "signalled turn = (case turn of (sigterm, sigint, r) \<Rightarrow> r\<lparr>rd_shutdown := shutdown_signal sigterm sigint\<rparr>)"

definition server_main :: "(string \<Rightarrow> io_error + unit) \<Rightarrow> string list \<Rightarrow> (bool \<times> bool \<times> 'p ready) list \<Rightarrow> io_error + 'p serve_state" where
  "server_main bind args turns = try_bind (bind (server_addr args)) (\<lambda>_. Inr (serve_until (map signalled turns)))"

section \<open>Streams of frames\<close>

text \<open>Both directions read a frame the same way.\<close>

lemma read_frame:
  assumes "length body < 2 ^ 32"
  shows "read_exact 4 (frame body @ bs) = Inr (u32_le (of_nat (length body)), body @ bs)"
    "read_exact (unat (from_le_bytes (u32_le (of_nat (length body))) :: u32)) (body @ bs) = Inr (body, bs)"
  using assms by (simp_all add: read_exact_def frame_def unat_of_nat)

lemma read_client_frame: "read_command (encode_client msg [] @ bs) = Inr (Some (client_command msg, bs))"
  using length_client_body [of msg] read_frame [of "client_body msg" bs] decode_client_iff [of "client_body msg" msg]
  by (simp add: read_command_def encode_client_frame)

lemma read_server_frame:
  "read_one_server_message (encode_server msg [] @ bs) = Inr (Some (msg, bs))"
  using length_server_body [of msg] read_frame [of "server_body msg" bs] decode_server_iff [of "server_body msg" msg]
  by (simp add: read_one_server_message_def encode_server_frame)

text \<open>The bytes of a list of client messages.\<close>

definition client_stream :: "client_message list \<Rightarrow> bytes" where
  "client_stream msgs = concat (map (\<lambda>m. encode_client m []) msgs)"

lemma client_stream_simps [simp]:
  "client_stream [] = []" "client_stream (m # msgs) = encode_client m [] @ client_stream msgs"
  by (simp_all add: client_stream_def)

lemma reader_stream:
  "reader_loop (client_stream msgs @ bs) = (case reader_loop bs of (cmds, r) \<Rightarrow> (map client_command msgs @ cmds, r))"
  by (induction msgs) (simp_all add: reader_loop.simps [of "encode_client _ _ @ _"] read_client_frame split: prod.split)

text \<open>The commands of a stream of frames.\<close>

lemma session_commands: "fst (reader_loop (client_stream msgs)) = map client_command msgs"
proof -
  have "reader_loop [] = ([], Inr ())" by (subst reader_loop.simps) (simp add: read_command_def read_exact_def)
  then show ?thesis using reader_stream [of msgs "[]"] by simp
qed

text \<open>What a message asks for.\<close>

fun requested :: "client_message \<Rightarrow> command" where
  "requested (ClientNewOrder no) = New no"
| "requested (ClientCancel i) = Cancel i"

lemma client_command_requested: "client_command = requested"
proof
  fix m show "client_command m = requested m" by (cases m) simp_all
qed

lemma reader_partial:
  assumes "n < length (encode_client msg [])"
  shows "reader_loop (List.take n (encode_client msg [])) = ([], if n < 4 then Inr () else Inl (NetIo UnexpectedEof))"
proof (cases "n < 4")
  case True
  then show ?thesis by (subst reader_loop.simps) (simp add: read_command_def read_exact_def)
next
  case False
  let ?body = "client_body msg"
  have body: "length ?body < 2 ^ 32" using length_client_body [of msg] by simp
  have "List.take n (encode_client msg []) = u32_le (of_nat (length ?body)) @ List.take (n - 4) ?body"
    using False by (simp add: encode_client_frame frame_def)
  moreover have "unat (of_nat (length ?body) :: u32) = length ?body" using body by (simp add: unat_of_nat)
  moreover have "\<not> length ?body \<le> n - 4"
    using assms False by (simp add: encode_client_frame frame_def)
  ultimately show ?thesis
    using False by (subst reader_loop.simps) (simp add: read_command_def read_exact_def)
qed

section \<open>One connection through the hub\<close>

text \<open>With a single connection every event is its own.\<close>

lemma dispatch_single:
  "ran ow \<subseteq> {c} \<Longrightarrow> routes c = Some tx \<Longrightarrow>
     fst (dispatch routes c es ow) = map (Pair tx) es \<and> ran (snd (dispatch routes c es ow)) \<subseteq> {c}"
proof (induction es arbitrary: ow)
  case (Cons e es)
  have own: "owner_or ow i c = c" for i using Cons.prems(1) by (auto simp: owner_or_def ran_def split: option.split)
  have "event_targets ow c e = [c]" by (cases e) (simp_all add: own)
  moreover have "ran (forget_done e ow) \<subseteq> {c}" using Cons.prems(1) by (cases e) (auto simp: ran_def split: if_splits)
  ultimately show ?case
    using Cons.IH [of "forget_done e ow"] Cons.prems(2) by (simp add: send_to_def split_beta)
qed simp

lemma hub_run_single:
  assumes "ran (hl_order_owner h) \<subseteq> {c}" "hl_routes h c = Some tx"
  shows "fst (hub_run (map (Cmd c) cmds) (out, h)) = out @ map (Pair tx) (snd (run_commands cmds (hl_matcher h, []))) \<and>
    ran (hl_order_owner (snd (hub_run (map (Cmd c) cmds) (out, h)))) \<subseteq> {c} \<and>
    hl_routes (snd (hub_run (map (Cmd c) cmds) (out, h))) c = Some tx"
  using assms
proof (induction cmds arbitrary: h out)
  case (Cons cmd cmds)
  let ?m = "apply_command cmd (hl_matcher h, [])"
  let ?ow = "case cmd of New no \<Rightarrow> (hl_order_owner h)(no_id no \<mapsto> c) | Cancel i \<Rightarrow> hl_order_owner h"
  obtain sends ow' where d: "dispatch (hl_routes h) c (snd ?m) ?ow = (sends, ow')" by fastforce
  have "ran ?ow \<subseteq> {c}" using Cons.prems(1) by (auto simp: ran_def split: command.split)
  then have s: "sends = map (Pair tx) (snd ?m)" "ran ow' \<subseteq> {c}"
    using dispatch_single [of ?ow c "hl_routes h" tx "snd ?m"] d Cons.prems(2) by simp_all
  have "run_commands cmds ?m = after (snd ?m) (run_commands cmds (fst ?m, []))"
    using after_run_commands [of cmds "snd ?m" "(fst ?m, [])"] by (simp add: after_def)
  moreover have "hub_handle (Cmd c cmd) h = (sends, h\<lparr>hl_matcher := fst ?m, hl_order_owner := ow'\<rparr>)"
    using d by (simp add: split_beta Let_def)
  ultimately show ?case
    using Cons.IH [of "h\<lparr>hl_matcher := fst ?m, hl_order_owner := ow'\<rparr>" "out @ sends"] Cons.prems(2) s
    by (simp del: hub_handle.simps)
qed simp

text \<open>What the hub sends to a connection that is alone.\<close>

lemma connection_events:
  "fst (hub_run (connection_open c tx bs) ([], hub_loop_new)) =
     map (Pair tx) (snd (run_commands (fst (reader_loop bs)) (matcher_new, [])))"
  "fst (hub_run (handle_connection c tx bs) ([], hub_loop_new)) =
     map (Pair tx) (snd (run_commands (fst (reader_loop bs)) (matcher_new, [])))"
proof -
  let ?h = "hub_loop_new\<lparr>hl_routes := [c \<mapsto> tx]\<rparr>"
  show "fst (hub_run (connection_open c tx bs) ([], hub_loop_new)) =
     map (Pair tx) (snd (run_commands (fst (reader_loop bs)) (matcher_new, [])))"
    using hub_run_single [of ?h c tx "fst (reader_loop bs)" "[]"] by (simp add: hub_loop_new_def connection_open_def)
  moreover have "fst (hub_run [Disconnect c] st) = fst st" for st by simp
  ultimately show "fst (hub_run (handle_connection c tx bs) ([], hub_loop_new)) =
     map (Pair tx) (snd (run_commands (fst (reader_loop bs)) (matcher_new, [])))"
    by (simp add: handle_connection_def)
qed

section \<open>The server's life\<close>

text \<open>The connections accepted at a turn, whatever becomes of them.\<close>

definition accepted_now :: "'p ready \<Rightarrow> 'p serve_state \<Rightarrow> 'p list" where
  "accepted_now r s =
     (case rd_accepted r of Some (Inr p) \<Rightarrow> if sv_phase s = Accepting \<and> \<not> rd_shutdown r then [p] else [] | _ \<Rightarrow> [])"

fun accepted_by :: "'p ready list \<Rightarrow> 'p serve_state \<Rightarrow> 'p list" where
  "accepted_by [] s = []"
| "accepted_by (r # rs) s = accepted_now r s @ accepted_by rs (serve_turn r s)"

definition connections :: "'p serve_state \<Rightarrow> 'p multiset" where
  "connections s = mset (sv_handlers s) + mset (sv_finished s) + mset (sv_aborted s)"

lemmas serve_defs = serve_turn_def accept_turn_def drain_turn_def reap_turn_def leave_turn_def join_next_def drop_handlers_def
  accepted_now_def connections_def

lemma serve_turn_simps:
  "sv_phase s = Draining \<Longrightarrow> serve_turn r s = drain_turn r s" "sv_phase s = Reaping \<Longrightarrow> serve_turn r s = reap_turn r s"
  "sv_phase s = Leaving err \<Longrightarrow> serve_turn r s = leave_turn err r s"
  by (simp_all add: serve_turn_def)

lemma serve_turn_connections: "connections (serve_turn r s) = connections s + mset (accepted_now r s)"
  by (simp add: serve_defs split: serve_phase.split option.split sum.split)

lemma serve_run_connections: "connections (fold serve_turn rs s) = connections s + mset (accepted_by rs s)"
  by (induction rs arbitrary: s) (simp_all add: serve_turn_connections)

definition serve_inv :: "'p serve_state \<Rightarrow> bool" where
  "serve_inv s \<longleftrightarrow>
     (sv_phase s \<notin> {Accepting, Draining, Reaping} \<longrightarrow> sv_handlers s = []) \<and> (sv_phase s \<in> {Accepting, Draining} \<longrightarrow> sv_aborted s = [])"

lemma serve_inv_turn: "serve_inv s \<Longrightarrow> serve_inv (serve_turn r s)"
  by (cases "sv_phase s") (auto simp: serve_inv_def serve_defs split: option.split sum.split)

interpretation srv: machine serve_turn serve_inv
  by unfold_locales (rule serve_inv_turn)

lemma serve_start_inv [simp]: "serve_inv serve_start" "sv_phase serve_start = Accepting" "connections serve_start = {#}"
  by (simp_all add: serve_inv_def serve_start_def connections_def)

lemma serve_run_inv: "serve_inv (serve_until rs)"
  unfolding serve_until_def by (rule srv.inv_run) simp

lemma serve_until_connections: "connections (serve_until rs) = mset (accepted_by rs serve_start)"
  by (simp add: serve_until_def serve_run_connections)

lemma shutdown_turn: "sv_phase s = Accepting \<Longrightarrow> rd_shutdown r \<Longrightarrow> serve_turn r s = s\<lparr>sv_phase := Draining\<rparr>"
  by (simp add: serve_defs)

text \<open>The phases of a shutdown, in order.\<close>

fun ending :: "serve_phase \<Rightarrow> bool" where
  "ending Draining = True"
| "ending Reaping = True"
| "ending (Leaving None) = True"
| "ending ServeOk = True"
| "ending _ = False"

lemma ending_turn:
  assumes "ending (sv_phase s)"
  shows "ending (sv_phase (serve_turn r s))" "set (sv_handlers (serve_turn r s)) \<subseteq> set (sv_handlers s)"
proof -
  have "ending (sv_phase (serve_turn r s)) \<and> set (sv_handlers (serve_turn r s)) \<subseteq> set (sv_handlers s)"
    using assms by (cases "sv_phase s") (auto simp: serve_defs split: option.split dest: subsetD [OF set_remove1_subset])
  then show "ending (sv_phase (serve_turn r s))" "set (sv_handlers (serve_turn r s)) \<subseteq> set (sv_handlers s)" by simp_all
qed

lemma ending_accepts_nothing: "ending (sv_phase s) \<Longrightarrow> accepted_by rs s = []"
proof (induction rs arbitrary: s)
  case (Cons r rs)
  then show ?case using ending_turn(1) [of s r] by (auto simp: accepted_now_def split: option.split sum.split)
qed simp

lemma accepted_by_append: "accepted_by (rs @ rs') s = accepted_by rs s @ accepted_by rs' (fold serve_turn rs s)"
  by (induction rs arbitrary: s) simp_all

text \<open>Under a schedule in which the deadline passes, the handlers end once told to and the drop of the hub is done, each phase gives
  way to the next.\<close>

abbreviation serve_at :: "(nat \<Rightarrow> 'p ready) \<Rightarrow> 'p serve_state \<Rightarrow> nat \<Rightarrow> 'p serve_state" where
  "serve_at rdy \<equiv> run_at serve_turn rdy"

lemma serve_at_ending:
  assumes "ending (sv_phase s)"
  shows "ending (sv_phase (serve_at rdy s k)) \<and> set (sv_handlers (serve_at rdy s k)) \<subseteq> set (sv_handlers s)"
  by (induction k) (use assms ending_turn in \<open>auto, blast\<close>)

lemma leaves_draining:
  assumes "sv_phase s = Draining" "rd_deadline (rdy i)"
  shows "\<exists>k. sv_phase (serve_at rdy s k) \<noteq> Draining"
proof (rule ccontr)
  assume "\<not> (\<exists>k. sv_phase (serve_at rdy s k) \<noteq> Draining)"
  then have "sv_phase (serve_at rdy s i) = Draining" "sv_phase (serve_at rdy s (Suc i)) = Draining" by blast+
  then show False using assms(2) by (simp add: serve_turn_def drain_turn_def)
qed

text \<open>A phase that only an event of the schedule ends, and that the turns before leave as it is.\<close>

lemma until_event:
  assumes "P (run_at step rdy s i)" "\<exists>j\<ge>i. Q (rdy j)"
    "\<And>r s. P s \<Longrightarrow> \<not> Q r \<Longrightarrow> P (step r s) \<or> G (step r s)" "\<And>r s. P s \<Longrightarrow> Q r \<Longrightarrow> G (step r s)"
  shows "\<exists>k\<ge>i. G (run_at step rdy s k)"
proof -
  obtain j where j: "i \<le> j" "Q (rdy j)" using assms(2) by blast
  have "P (run_at step rdy s k) \<or> (\<exists>k\<ge>i. G (run_at step rdy s k))" if "i \<le> k" for k
    using that
  proof (induction k rule: dec_induct)
    case (step k)
    then show ?case using assms(3,4) [of "run_at _ rdy s k" "rdy k"] by (metis le_SucI run_at.simps(2))
  qed (use assms(1) in simp)
  from this [OF j(1)] show ?thesis using assms(4) [OF _ j(2)] j(1) by (metis le_SucI run_at.simps(2))
qed

lemma reaps_one:
  assumes "sv_phase (serve_at rdy s i) = Reaping" "sv_handlers (serve_at rdy s i) = p # ps" "\<exists>j\<ge>i. rd_done (rdy j) = Some p"
  shows "\<exists>k\<ge>i. sv_phase (serve_at rdy s k) = Reaping \<and> length (sv_handlers (serve_at rdy s k)) < Suc (length ps)"
proof (rule until_event [where P = "\<lambda>s. sv_phase s = Reaping \<and> p \<in> set (sv_handlers s) \<and> length (sv_handlers s) = Suc (length ps)"
      and Q = "\<lambda>r. rd_done r = Some p"])
  fix r :: "'a ready" and s :: "'a serve_state"
  assume s: "sv_phase s = Reaping \<and> p \<in> set (sv_handlers s) \<and> length (sv_handlers s) = Suc (length ps)"
  then have some: "sv_handlers s \<noteq> []" by auto
  have gone: "length (remove1 q (sv_handlers s)) < Suc (length ps)" if "q \<in> set (sv_handlers s)" for q
    using s that by (simp add: length_remove1)
  show "(sv_phase (serve_turn r s) = Reaping \<and> p \<in> set (sv_handlers (serve_turn r s)) \<and> length (sv_handlers (serve_turn r s)) = Suc (length ps)) \<or>
      sv_phase (serve_turn r s) = Reaping \<and> length (sv_handlers (serve_turn r s)) < Suc (length ps)"
    using s some gone by (auto simp: serve_turn_def reap_turn_def split: option.split)
  show "sv_phase (serve_turn r s) = Reaping \<and> length (sv_handlers (serve_turn r s)) < Suc (length ps)" if "rd_done r = Some p"
    using s some gone that by (auto simp: serve_turn_def reap_turn_def)
qed (use assms in auto)

lemma leaves_reaping:
  assumes "sv_phase (serve_at rdy s i) = Reaping" "ending (sv_phase s)" "\<forall>p \<in> set (sv_handlers s). \<forall>i. \<exists>j\<ge>i. rd_done (rdy j) = Some p"
  shows "\<exists>k. sv_phase (serve_at rdy s k) = Leaving None"
  using assms(1)
proof (induction "length (sv_handlers (serve_at rdy s i))" arbitrary: i rule: less_induct)
  case less
  show ?case
  proof (cases "sv_handlers (serve_at rdy s i)")
    case Nil
    then have "sv_phase (serve_at rdy s (Suc i)) = Leaving None" using less.prems by (simp add: serve_turn_def reap_turn_def)
    then show ?thesis by blast
  next
    case (Cons p ps)
    then have "p \<in> set (sv_handlers s)" using serve_at_ending [OF assms(2), of rdy i] by auto
    then have "\<exists>j\<ge>i. rd_done (rdy j) = Some p" using assms(3) by blast
    from reaps_one [OF less.prems Cons this] Cons less.hyps show ?thesis by auto
  qed
qed

lemma leaves:
  assumes "sv_phase (serve_at rdy s i) = Leaving None" "\<forall>i. \<exists>j\<ge>i. rd_hub_dropped (rdy j)"
  shows "\<exists>k. sv_phase (serve_at rdy s k) = ServeOk"
proof -
  have "\<exists>k\<ge>i. sv_phase (serve_at rdy s k) = ServeOk"
    by (rule until_event [where P = "\<lambda>s. sv_phase s = Leaving None" and Q = rd_hub_dropped])
      (use assms in \<open>auto simp: serve_turn_simps leave_turn_def\<close>)
  then show ?thesis by blast
qed

lemma shutdown_returns:
  assumes "sv_phase s = Draining" "rd_deadline (rdy i)" "\<forall>p \<in> set (sv_handlers s). \<forall>i. \<exists>j\<ge>i. rd_done (rdy j) = Some p"
    "\<forall>i. \<exists>j\<ge>i. rd_hub_dropped (rdy j)"
  shows "\<exists>k. sv_phase (serve_at rdy s k) = ServeOk"
proof -
  have e: "ending (sv_phase s)" using assms(1) by simp
  obtain k where k: "sv_phase (serve_at rdy s k) \<noteq> Draining" using leaves_draining [of s rdy i] assms(1,2) by blast
  have "ending (sv_phase (serve_at rdy s k))" using serve_at_ending [OF e] by blast
  then consider "sv_phase (serve_at rdy s k) = Reaping" | "sv_phase (serve_at rdy s k) = Leaving None" | "sv_phase (serve_at rdy s k) = ServeOk"
    using k by (cases rule: ending.cases [of "sv_phase (serve_at rdy s k)"]) auto
  then show ?thesis
  proof cases
    case 1
    then show ?thesis using leaves_reaping [OF 1 e assms(3)] leaves [OF _ assms(4)] by blast
  qed (use leaves [OF _ assms(4)] in blast)+
qed

text \<open>It does not return before the handlers have left and the hub has been dropped.\<close>

lemma returns_at_drop: "sv_phase s \<noteq> ServeOk \<Longrightarrow> sv_phase (serve_turn r s) = ServeOk \<Longrightarrow> rd_hub_dropped r"
  by (cases "sv_phase s") (auto simp: serve_defs split: option.splits sum.splits if_splits)

lemma not_before_drop:
  "sv_phase s \<noteq> ServeOk \<Longrightarrow> sv_phase (serve_at rdy s k) = ServeOk \<Longrightarrow> \<exists>j<k. rd_hub_dropped (rdy j)"
proof (induction k)
  case (Suc k)
  show ?case
  proof (cases "sv_phase (serve_at rdy s k) = ServeOk")
    case False
    then have "rd_hub_dropped (rdy k)" using Suc.prems(2) returns_at_drop by simp
    then show ?thesis by blast
  qed (use Suc less_SucI in blast)
qed simp

lemma drain_finishes:
  "sv_phase s = Draining \<Longrightarrow> map rd_done rs = map Some ps \<Longrightarrow> mset ps = mset (sv_handlers s) \<Longrightarrow> \<forall>d\<in>set rs. \<not> rd_deadline d \<Longrightarrow>
     fold serve_turn rs s = s\<lparr>sv_handlers := [], sv_finished := sv_finished s @ ps\<rparr>"
proof (induction rs arbitrary: s ps)
  case Nil
  then show ?case by simp
next
  case (Cons r rs)
  then obtain p ps' where ps: "ps = p # ps'" "rd_done r = Some p" "map rd_done rs = map Some ps'" by (cases ps) auto
  then have "p \<in> set (sv_handlers s)" "mset ps' = mset (remove1 p (sv_handlers s))"
    using Cons.prems(3) by (metis list.set_intros(1) mset_eq_setD, simp add: Cons.prems(3) [symmetric])
  moreover from this have "serve_turn r s = s\<lparr>sv_handlers := remove1 p (sv_handlers s), sv_finished := sv_finished s @ [p]\<rparr>"
    using Cons.prems(1,4) ps(2) by (auto simp: serve_defs)
  ultimately show ?case using Cons.IH [of "serve_turn r s" ps'] Cons.prems(1,4) ps by simp
qed

section \<open>Guarantees\<close>

text \<open>C37. The stream from a client is read message by message whatever its length: complete frames become
  exactly the commands the client encoded, in order, and are submitted even if the stream breaks off
  later; a stream that ends between frames or inside a length is a clean disconnect, one that ends inside a body is an
  unexpected end of file, and nothing of the incomplete frame is submitted.\<close>

theorem reader_submits_complete_frames:
  assumes "n < length (encode_client msg [])"
  shows "reader_loop (client_stream msgs @ List.take n (encode_client msg [])) =
    (map requested msgs, if n < 4 then Inr () else Inl (NetIo UnexpectedEof))"
  by (simp add: reader_stream reader_partial [OF assms] client_command_requested)

theorem reader_submits_complete_frames_witness:
  "reader_loop (client_stream [ClientCancel 7, ClientCancel 8] @ List.take 6 (encode_client (ClientCancel 9) [])) =
    ([Cancel 7, Cancel 8], Inl (NetIo UnexpectedEof))"
  using reader_submits_complete_frames [of 6 "ClientCancel 9" "[ClientCancel 7, ClientCancel 8]"]
  by (simp add: encode_client_frame frame_def)

text \<open>A malformed frame ends the connection at that point: every message before it has been submitted,
  nothing after it is, and the error is the decoder's.\<close>

theorem reader_stops_at_malformed_frame:
  assumes "decode_client body = Inl e" "length body < 2 ^ 32"
  shows "reader_loop (client_stream msgs @ u32_le (of_nat (length body)) @ body @ rest) = (map requested msgs, Inl (InvalidData e))"
proof -
  have "reader_loop (frame body @ rest) = ([], Inl (InvalidData e))"
    using read_frame [OF assms(2), of rest] assms(1) by (subst reader_loop.simps) (simp add: read_command_def)
  then show ?thesis by (simp add: reader_stream frame_def client_command_requested)
qed

theorem reader_stops_at_malformed_frame_witness:
  "reader_loop (client_stream [ClientCancel 7] @ u32_le 2 @ [9, 1] @ client_stream [ClientCancel 8]) =
     ([Cancel 7], Inl (InvalidData (UnknownVersion 9)))"
proof -
  have "decode_client [9, 1] = Inl (UnknownVersion 9)" by code_simp
  from reader_stops_at_malformed_frame [OF this, of "[ClientCancel 7]" "client_stream [ClientCancel 8]"]
  show ?thesis by simp
qed

text \<open>Without a shutdown the server accepts until accepting fails.\<close>

lemma serve_phase: "sv_phase (serve rs) = Accepting \<or> (\<exists>e. sv_phase (serve rs) = Leaving (Some e) \<or> sv_phase (serve rs) = ServeErr e)"
proof (induction rs rule: rev_induct)
  case (snoc r rs)
  then show ?case
    by (auto simp: serve_def serve_until_def serve_turn_def accept_turn_def leave_turn_def join_next_def split: option.split sum.split if_splits)
qed (simp add: serve_def serve_until_def serve_start_def)


definition quiet :: "nat ready" where
  "quiet = \<lparr>rd_shutdown = False, rd_accepted = None, rd_done = None, rd_deadline = False, rd_hub_dropped = False\<rparr>"

definition sample_life :: "nat ready list" where
  "sample_life = [quiet\<lparr>rd_accepted := Some (Inr 1)\<rparr>, quiet\<lparr>rd_accepted := Some (Inr 2)\<rparr>, quiet\<lparr>rd_done := Some 1\<rparr>, quiet\<lparr>rd_accepted := Some (Inr 3)\<rparr>]"

abbreviation no_signal :: "nat ready \<Rightarrow> bool \<times> bool \<times> nat ready" where
  "no_signal r \<equiv> (False, False, r)"

definition sample_main :: "(bool \<times> bool \<times> nat ready) list \<Rightarrow> io_error + nat serve_state" where
  "sample_main = server_main (\<lambda>addr. if addr = ''127.0.0.1:9000'' then Inr () else Inl NotFound) [''bourse-server'']"

text \<open>The deadline has passed, the handlers end in turn, and so does the drop of the hub.\<close>

definition sample_end :: "nat \<Rightarrow> bool \<times> bool \<times> nat ready" where
  "sample_end k = no_signal (quiet\<lparr>rd_deadline := True, rd_done := Some (if even k then 2 else 3), rd_hub_dropped := True\<rparr>)"


text \<open>Shutting down is graceful: when the handlers in flight finish, in any order, before the
  grace period is over, the server waits for every one of them, leaves without an error at the next turn, and
  aborts none.\<close>

theorem shutdown_graceful:
  assumes "sv_phase (serve_until qs) = Accepting" "rd_shutdown r" "map rd_done rs = map Some ps"
    "mset ps = mset (sv_handlers (serve_until qs))" "\<forall>d\<in>set (rs @ [l]). \<not> rd_deadline d"
  shows "serve_until (qs @ r # rs @ [l]) =
    (serve_until qs)\<lparr>sv_handlers := [], sv_finished := sv_finished (serve_until qs) @ ps, sv_aborted := [], sv_phase := Leaving None\<rparr>"
proof -
  let ?s = "serve_until qs"
  have "sv_aborted ?s = []" using serve_run_inv [of qs] assms(1) by (simp add: serve_inv_def)
  moreover have "fold serve_turn rs (?s\<lparr>sv_phase := Draining\<rparr>) =
    ?s\<lparr>sv_phase := Draining, sv_handlers := [], sv_finished := sv_finished ?s @ ps\<rparr>"
    using drain_finishes [OF _ assms(3), of "?s\<lparr>sv_phase := Draining\<rparr>"] assms(4,5) by simp
  ultimately have "fold serve_turn (rs @ [l]) (?s\<lparr>sv_phase := Draining\<rparr>) =
    ?s\<lparr>sv_handlers := [], sv_finished := sv_finished ?s @ ps, sv_aborted := [], sv_phase := Leaving None\<rparr>"
    using assms(5) by (simp add: serve_turn_def drain_turn_def)
  then show ?thesis using shutdown_turn [OF assms(1,2)] by (simp add: serve_until_def)
qed

theorem shutdown_graceful_witness:
  "serve_until (sample_life @ quiet\<lparr>rd_shutdown := True\<rparr> # map (\<lambda>p. quiet\<lparr>rd_done := Some p\<rparr>) [3, 2] @ [quiet]) =
    \<lparr>sv_handlers = [], sv_finished = [1, 3, 2], sv_aborted = [], sv_phase = Leaving None\<rparr>"
proof -
  have life: "serve_until sample_life = \<lparr>sv_handlers = [2, 3], sv_finished = [1], sv_aborted = [], sv_phase = Accepting\<rparr>" by code_simp
  show ?thesis
    using shutdown_graceful [of sample_life "quiet\<lparr>rd_shutdown := True\<rparr>" "map (\<lambda>p. quiet\<lparr>rd_done := Some p\<rparr>) [3, 2]" "[3, 2]" quiet] life
    by (simp add: quiet_def)
qed

end
