(* ===== verification/Server_Tasks.thy ===== *)
theory Server_Tasks
  imports Server
begin

text \<open>
  The tasks of one connection in \<^verbatim>\<open>bourse-server/src/lib.rs\<close>. \<open>handle_connection\<close> spawns a reader and a writer and waits for
  the reader; then it aborts the writer and waits for it. \<open>abort_all\<close> of the shutdown reaches \<open>handle_connection\<close> only: the
  handles it was waiting on are dropped, which in \<open>tokio\<close> detaches their tasks. Each task advances on its own.
\<close>

section \<open>Tasks\<close>

datatype parent_task = AwaitReader | AwaitWriter | ParentDone | ParentAborted
datatype reader_task = Reading bytes | ReaderDone "server_error + unit"
datatype writer_task = Writing | WriterCancelled | WriterDone

record conn_tasks =
  ct_parent :: parent_task
  ct_reader :: reader_task
  ct_writer :: writer_task
  ct_submitted :: "hub_command list"

definition tasks_start :: "bytes \<Rightarrow> conn_tasks" where
  "tasks_start bs = \<lparr>ct_parent = AwaitReader, ct_reader = Reading bs, ct_writer = Writing, ct_submitted = []\<rparr>"

datatype task_label = ReaderStep | WriterStep | ParentStep | AbortAll

text \<open>The writer ends by itself when its channel or its socket is closed, and at the next await when it is cancelled.\<close>

inductive task_step :: "conn_tasks \<Rightarrow> task_label \<Rightarrow> conn_tasks \<Rightarrow> bool" where
  submits: "ct_reader s = Reading bs \<Longrightarrow> read_command bs = Inr (Some (cmd, rest)) \<Longrightarrow>
    task_step s ReaderStep (s\<lparr>ct_reader := Reading rest, ct_submitted := ct_submitted s @ [cmd]\<rparr>)"
| ends: "ct_reader s = Reading bs \<Longrightarrow> read_command bs = Inr None \<Longrightarrow> task_step s ReaderStep (s\<lparr>ct_reader := ReaderDone (Inr ())\<rparr>)"
| fails: "ct_reader s = Reading bs \<Longrightarrow> read_command bs = Inl e \<Longrightarrow> task_step s ReaderStep (s\<lparr>ct_reader := ReaderDone (Inl e)\<rparr>)"
| writer_ends: "ct_writer s \<noteq> WriterDone \<Longrightarrow> task_step s WriterStep (s\<lparr>ct_writer := WriterDone\<rparr>)"
| aborts_writer: "ct_parent s = AwaitReader \<Longrightarrow> ct_reader s = ReaderDone r \<Longrightarrow>
    task_step s ParentStep (s\<lparr>ct_parent := AwaitWriter, ct_writer := if ct_writer s = WriterDone then WriterDone else WriterCancelled\<rparr>)"
| returns: "ct_parent s = AwaitWriter \<Longrightarrow> ct_writer s = WriterDone \<Longrightarrow> task_step s ParentStep (s\<lparr>ct_parent := ParentDone\<rparr>)"
| abort_all: "ct_parent s \<in> {AwaitReader, AwaitWriter} \<Longrightarrow> task_step s AbortAll (s\<lparr>ct_parent := ParentAborted\<rparr>)"

inductive_cases task_stepE: "task_step s l s'"

section \<open>What they do\<close>

text \<open>The reader is somewhere in \<open>reader_loop\<close>; the parent is never ahead of the tasks it waits for.\<close>

definition tasks_inv :: "bytes \<Rightarrow> conn_tasks \<Rightarrow> bool" where
  "tasks_inv bs s \<longleftrightarrow>
     reader_loop bs = (case ct_reader s of
         Reading rest \<Rightarrow> (ct_submitted s @ fst (reader_loop rest), snd (reader_loop rest))
       | ReaderDone r \<Rightarrow> (ct_submitted s, r)) \<and>
     (ct_parent s \<in> {AwaitWriter, ParentDone} \<longrightarrow> (\<exists>r. ct_reader s = ReaderDone r)) \<and>
     (ct_parent s = ParentDone \<longrightarrow> ct_writer s = WriterDone)"

lemma reader_unfold:
  "reader_loop bs = (case read_command bs of
     Inl e \<Rightarrow> ([], Inl e)
   | Inr None \<Rightarrow> ([], Inr ())
   | Inr (Some (cmd, rest)) \<Rightarrow> (cmd # fst (reader_loop rest), snd (reader_loop rest)))"
  by (subst reader_loop.simps) (auto split: sum.split option.split prod.split)

lemma tasks_inv_step: "task_step s l s' \<Longrightarrow> tasks_inv bs s \<Longrightarrow> tasks_inv bs s'"
proof (induction rule: task_step.induct)
  case (submits s rest cmd rest')
  then show ?case using reader_unfold [of rest] by (auto simp: tasks_inv_def)
next
  case (ends s rest)
  then show ?case using reader_unfold [of rest] by (auto simp: tasks_inv_def)
next
  case (fails s rest e)
  then show ?case using reader_unfold [of rest] by (auto simp: tasks_inv_def)
qed (auto simp: tasks_inv_def split: reader_task.splits)

lemma tasks_inv_run: "steps task_step (tasks_start bs) ls s \<Longrightarrow> tasks_inv bs s"
proof (induction "tasks_start bs" ls s rule: steps.induct)
  case steps_refl
  then show ?case by (simp add: tasks_inv_def tasks_start_def)
qed (rule tasks_inv_step)

text \<open>Left to itself, the reader finishes its stream, whatever has become of its parent.\<close>

lemma reader_finishes:
  "ct_reader s = Reading bs \<Longrightarrow> \<exists>ls. set ls \<subseteq> {ReaderStep} \<and>
     steps task_step s ls (s\<lparr>ct_reader := ReaderDone (snd (reader_loop bs)), ct_submitted := ct_submitted s @ fst (reader_loop bs)\<rparr>)"
proof (induction "length bs" arbitrary: bs s rule: less_induct)
  case less
  consider (Error) e where "read_command bs = Inl e" | (End) "read_command bs = Inr None" | (Command) cmd rest where "read_command bs = Inr (Some (cmd, rest))"
    by (cases "read_command bs") (auto, metis option.exhaust prod.exhaust)
  then show ?case
  proof cases
    case Error
    have "task_step s ReaderStep (s\<lparr>ct_reader := ReaderDone (Inl e)\<rparr>)" using less.prems Error by (rule task_step.fails)
    then show ?thesis using steps_one [of task_step] reader_unfold [of bs] Error by (intro exI [of _ "[ReaderStep]"]) simp
  next
    case End
    have "task_step s ReaderStep (s\<lparr>ct_reader := ReaderDone (Inr ())\<rparr>)" using less.prems End by (rule task_step.ends)
    then show ?thesis using steps_one [of task_step] reader_unfold [of bs] End by (intro exI [of _ "[ReaderStep]"]) simp
  next
    case Command
    let ?s = "s\<lparr>ct_reader := Reading rest, ct_submitted := ct_submitted s @ [cmd]\<rparr>"
    have step: "task_step s ReaderStep ?s" using less.prems Command by (rule task_step.submits)
    obtain ls where "set ls \<subseteq> {ReaderStep}" "steps task_step ?s ls (?s\<lparr>ct_reader := ReaderDone (snd (reader_loop rest)),
        ct_submitted := ct_submitted ?s @ fst (reader_loop rest)\<rparr>)"
      using less.hyps [of rest ?s] read_command_consumes [OF Command] by auto
    with steps_Cons [of task_step, OF step] reader_unfold [of bs] Command show ?thesis
      by (intro exI [of _ "ReaderStep # ls"]) simp
  qed
qed

section \<open>Guarantees\<close>

text \<open>C38. The tasks of a connection. In any interleaving of reader, writer, handler and an abort: the commands submitted are a
  prefix of those of the client's complete frames; when the handler has returned by itself, the reader has returned, all of them are
  submitted, and the writer is gone. But when the handler was aborted at the end of the grace period, the reader is still at
  work: all remaining frames can still be submitted, up to the end of the client's stream.\<close>

theorem connection_tasks:
  assumes "steps task_step (tasks_start bs) ls s"
  shows "prefix (ct_submitted s) (fst (reader_loop bs)) \<and>
    (ct_parent s = ParentDone \<longrightarrow> ct_reader s = ReaderDone (snd (reader_loop bs)) \<and> ct_submitted s = fst (reader_loop bs) \<and> ct_writer s = WriterDone) \<and>
    (ct_parent s = ParentAborted \<longrightarrow> (\<exists>ls'. set ls' \<subseteq> {ReaderStep} \<and>
       steps task_step s ls' (s\<lparr>ct_reader := ReaderDone (snd (reader_loop bs)), ct_submitted := fst (reader_loop bs)\<rparr>)))"
proof -
  have inv: "tasks_inv bs s" by (rule tasks_inv_run [OF assms])
  then have "prefix (ct_submitted s) (fst (reader_loop bs))"
    by (cases "ct_reader s") (auto simp: tasks_inv_def)
  moreover have "ct_reader s = ReaderDone (snd (reader_loop bs)) \<and> ct_submitted s = fst (reader_loop bs) \<and> ct_writer s = WriterDone"
    if "ct_parent s = ParentDone" using inv that by (auto simp: tasks_inv_def)
  moreover have "\<exists>ls'. set ls' \<subseteq> {ReaderStep} \<and>
      steps task_step s ls' (s\<lparr>ct_reader := ReaderDone (snd (reader_loop bs)), ct_submitted := fst (reader_loop bs)\<rparr>)"
  proof (cases "ct_reader s")
    case (Reading rest)
    then show ?thesis using reader_finishes [OF Reading] inv by (auto simp: tasks_inv_def)
  next
    case (ReaderDone r)
    then have "s\<lparr>ct_reader := ReaderDone (snd (reader_loop bs)), ct_submitted := fst (reader_loop bs)\<rparr> = s"
      using inv by (simp add: tasks_inv_def)
    then show ?thesis using steps_refl [of task_step s] by (intro exI [of _ "[]"]) simp
  qed
  ultimately show ?thesis by blast
qed

theorem connection_tasks_witness:
  "\<exists>ls s. steps task_step (tasks_start (client_stream [ClientCancel 7])\<lparr>ct_parent := ParentAborted\<rparr>) ls s \<and> ct_submitted s = [Cancel 7]"
proof -
  let ?bs = "client_stream [ClientCancel 7]"
  have "task_step (tasks_start ?bs) AbortAll (tasks_start ?bs\<lparr>ct_parent := ParentAborted\<rparr>)" by (rule task_step.abort_all) (simp add: tasks_start_def)
  then have "steps task_step (tasks_start ?bs) [AbortAll] (tasks_start ?bs\<lparr>ct_parent := ParentAborted\<rparr>)" by (rule steps_one)
  from connection_tasks [OF this] have "\<exists>ls. steps task_step (tasks_start ?bs\<lparr>ct_parent := ParentAborted\<rparr>) ls
      (tasks_start ?bs\<lparr>ct_parent := ParentAborted, ct_reader := ReaderDone (snd (reader_loop ?bs)), ct_submitted := fst (reader_loop ?bs)\<rparr>)" by auto
  moreover have "fst (reader_loop ?bs) = [Cancel 7]" using session_commands [of "[ClientCancel 7]"] by simp
  ultimately show ?thesis by (metis conn_tasks.select_convs(4) conn_tasks.surjective conn_tasks.update_convs(4))
qed

end
