(* ===== verification/Client.thy ===== *)
theory Client
  imports Server "HOL-Library.Sublist"
begin

text \<open>
  The load generator of \<^verbatim>\<open>bourse-client/src/main.rs\<close>: the orders it sends, the loop that waits for an
  event, the sequential round trips, and the pipelined burst with the loop that counts its fills. The two buffers
  whose size depends on the arguments are allocated as in the code, with the panics of an
  overflow and of a refused allocation. Clocks are not modelled, and the histogram is a parameter.
\<close>

section \<open>Orders\<close>

definition limit :: "u64 \<Rightarrow> side \<Rightarrow> i64 \<Rightarrow> u64 \<Rightarrow> client_message" where
  "limit i s p q = ClientNewOrder \<lparr>no_id = i, no_side = s, no_qty = q, no_kind = Limit (Price p), no_timestamp = 0\<rparr>"

section \<open>How the program can end\<close>

text \<open>An error that \<open>main\<close> returns, or a panic or an abort.\<close>

datatype client_end = ClientErr server_error | Aborted

definition io_end :: "server_error + 'a \<Rightarrow> client_end + 'a" where
  "io_end r = (case r of Inl e \<Rightarrow> Inl (ClientErr e) | Inr x \<Rightarrow> Inr x)"

text \<open>\<open>Vec\<close>: a request for more than \<open>isize::MAX\<close> bytes panics, one that the allocator refuses aborts. Which requests the allocator
  grants is a parameter. A vector that is full grows to the double.\<close>

definition isize_max :: nat where
  "isize_max = 2 ^ 63 - 1"

definition vec_request :: "(nat \<Rightarrow> bool) \<Rightarrow> nat \<Rightarrow> client_end + unit" where
  "vec_request alloc bytes = (if bytes = 0 \<or> bytes \<le> isize_max \<and> alloc bytes then Inr () else Inl Aborted)"

definition vec_grow :: "(nat \<Rightarrow> bool) \<Rightarrow> nat \<Rightarrow> nat \<Rightarrow> nat \<Rightarrow> client_end + nat" where
  "vec_grow alloc cap len additional =
     (if len + additional \<le> cap then Inr cap
      else let cap' = max (max (2 * cap) (len + additional)) 8 in try_bind (vec_request alloc cap') (\<lambda>_. Inr cap'))"

text \<open>\<open>usize\<close> multiplication, which panics or wraps according to the build.\<close>

definition usize_mul :: "bool \<Rightarrow> nat \<Rightarrow> nat \<Rightarrow> client_end + nat" where
  "usize_mul overflow_checks m n =
     (if m * n < 2 ^ 64 then Inr (m * n) else if overflow_checks then Inl Aborted else Inr (m * n mod 2 ^ 64))"

section \<open>Waiting for an event\<close>

lemma read_message_consumes: "read_one_server_message bs = Inr (Some (msg, rest)) \<Longrightarrow> length rest < length bs"
  by (auto simp: read_one_server_message_def dest!: read_exact_rest split: sum.splits io_error.splits)

function drain_until :: "(event \<Rightarrow> bool) \<Rightarrow> bytes \<Rightarrow> server_error + bytes" where
  "drain_until stop bs =
     (case read_one_server_message bs of
        Inl e \<Rightarrow> Inl e
      | Inr (Some (Execution e, rest)) \<Rightarrow> if stop e then Inr rest else drain_until stop rest
      | Inr None \<Rightarrow> Inl (NetIo UnexpectedEof))"
  by pat_completeness auto
termination
  by (relation "measure (length \<circ> snd)") (auto dest: sym read_message_consumes)

declare drain_until.simps [simp del]

section \<open>Round trips\<close>

text \<open>A client that is alone on its server: the loop of the hub, and the bytes that have come back and are
  not yet read. The frames it writes are read and executed, and the answer arrives behind those bytes.\<close>

definition exchange :: "conn_id \<Rightarrow> bytes \<Rightarrow> 'tx hub_loop \<times> bytes \<Rightarrow> 'tx hub_loop \<times> bytes" where
  "exchange c buf st =
     (case hub_run (map (Cmd c) (fst (reader_loop buf))) ([], fst st) of
        (sends, h) \<Rightarrow> (h, snd st @ writer_loop (map snd sends)))"

fun is_accepted :: "u64 \<Rightarrow> event \<Rightarrow> bool" where
  "is_accepted sell_id (Accepted i q sq) \<longleftrightarrow> i = sell_id"
| "is_accepted sell_id _ \<longleftrightarrow> False"

fun is_filled :: "u64 \<Rightarrow> event \<Rightarrow> bool" where
  "is_filled buy_id (Done i q Filled sq) \<longleftrightarrow> i = buy_id"
| "is_filled buy_id _ \<longleftrightarrow> False"

definition rtt_one :: "conn_id \<Rightarrow> u64 \<Rightarrow> u64 \<Rightarrow> 'tx hub_loop \<times> bytes \<Rightarrow> server_error + 'tx hub_loop \<times> bytes" where
  "rtt_one c sell_id buy_id st =
     (case exchange c (encode_client (limit sell_id Sell 100 1) []) st of (h, bs) \<Rightarrow>
        try_bind (drain_until (is_accepted sell_id) bs) (\<lambda>bs.
          case exchange c (encode_client (limit buy_id Buy 100 1) []) (h, bs) of (h, bs) \<Rightarrow>
            try_bind (drain_until (is_filled buy_id) bs) (\<lambda>bs. Inr (h, bs))))"

fun rtt_loop :: "conn_id \<Rightarrow> (u64 \<times> u64) list \<Rightarrow> 'tx hub_loop \<times> bytes \<Rightarrow> server_error + 'tx hub_loop \<times> bytes" where
  "rtt_loop c [] st = Inr st"
| "rtt_loop c ((sell_id, buy_id) # pairs) st = try_bind (rtt_one c sell_id buy_id st) (\<lambda>st. rtt_loop c pairs st)"

text \<open>The latencies, eight bytes each, have their room before the measured round trips begin; so the ids do not overflow.\<close>

definition rtt_bench :: "(nat \<Rightarrow> bool) \<Rightarrow> conn_id \<Rightarrow> nat \<Rightarrow> 'tx hub_loop \<times> bytes \<Rightarrow> client_end + 'tx hub_loop \<times> bytes" where
  "rtt_bench alloc c n st =
     (let warmup = min 100 n;
          base = of_nat warmup * 2 + 1
      in try_bind (io_end (rtt_loop c (map (\<lambda>i. (of_nat i * 2 + 1, of_nat i * 2 + 2)) [0..<warmup]) st)) (\<lambda>st.
         try_bind (vec_request alloc (8 * n)) (\<lambda>_.
           io_end (rtt_loop c (map (\<lambda>i. (base + of_nat i * 2, base + of_nat i * 2 + 1)) [0..<n]) st))))"

section \<open>The burst\<close>

definition burst_order :: "nat \<Rightarrow> client_message" where
  "burst_order i = limit (of_nat i) (if i mod 2 = 1 then Sell else Buy) 100 1"

text \<open>The loop that fills the buffer, with its capacity; and the bytes it makes.\<close>

fun burst_loop :: "(nat \<Rightarrow> bool) \<Rightarrow> nat list \<Rightarrow> nat \<Rightarrow> bytes \<Rightarrow> client_end + bytes" where
  "burst_loop alloc [] cap buf = Inr buf"
| "burst_loop alloc (i # is) cap buf =
     (let buf' = encode_client (burst_order i) buf
      in try_bind (vec_grow alloc cap (length buf) (length buf' - length buf)) (\<lambda>cap. burst_loop alloc is cap buf'))"

definition burst :: "nat \<Rightarrow> bytes" where
  "burst n = fold (\<lambda>i buf. encode_client (burst_order i) buf) [1..<Suc n] []"

fun counts :: "event \<Rightarrow> bool" where
  "counts (Done i q Filled sq) \<longleftrightarrow> i mod 2 = 0"
| "counts _ \<longleftrightarrow> False"

text \<open>The receiving task: how many fills it has seen when it stops.\<close>

function count_fills :: "nat \<Rightarrow> nat \<Rightarrow> bytes \<Rightarrow> server_error + nat" where
  "count_fills target_dones got bs =
     (if \<not> got < target_dones then Inr got
      else case read_one_server_message bs of
        Inl e \<Rightarrow> Inl e
      | Inr (Some (Execution e, rest)) \<Rightarrow> count_fills target_dones (if counts e then got + 1 else got) rest
      | Inr None \<Rightarrow> Inr got)"
  by pat_completeness auto
termination
  by (relation "measure (\<lambda>(t, g, bs). length bs)") (auto dest: sym read_message_consumes)

declare count_fills.simps [simp del]

definition throughput_bench :: "bool \<Rightarrow> (nat \<Rightarrow> bool) \<Rightarrow> conn_id \<Rightarrow> nat \<Rightarrow> 'tx hub_loop \<times> bytes \<Rightarrow> client_end + nat" where
  "throughput_bench overflow_checks alloc c n st =
     try_bind (usize_mul overflow_checks n 32) (\<lambda>cap.
     try_bind (vec_request alloc cap) (\<lambda>_.
     try_bind (burst_loop alloc [1..<Suc n] cap []) (\<lambda>buf.
       io_end (count_fills (n div 2) 0 (snd (exchange c buf st))))))"

section \<open>The program\<close>

definition client_args :: "string list \<Rightarrow> string \<times> nat \<times> nat" where
  "client_args args =
     (arg_or 1 Some ''127.0.0.1:9000'' args,
      arg_or 2 (map_option unat \<circ> parse_u64) 10000 args,
      arg_or 3 (map_option unat \<circ> parse_u64) 100000 args)"

text \<open>The server gives the two connections the ids \<open>c\<close> and \<open>c'\<close>; the first is closed when its benchmark returns. Whether the first
  and the second attempt to connect succeed, how the build treats overflow and what the allocator grants are parameters.\<close>

definition client_main :: "bool \<Rightarrow> (nat \<Rightarrow> bool) \<Rightarrow> (nat \<Rightarrow> string \<Rightarrow> server_error + unit) \<Rightarrow> conn_id \<times> 'tx \<Rightarrow> conn_id \<times> 'tx \<Rightarrow> string list \<Rightarrow>
    'tx hub_loop \<Rightarrow> client_end + nat" where
  "client_main overflow_checks alloc connect first second args h =
     (let (addr, n_rtt, n_throughput) = client_args args;
          (c, tx) = first;
          (c', tx') = second
      in try_bind (io_end (connect 1 addr)) (\<lambda>_.
         try_bind (rtt_bench alloc c n_rtt (snd (hub_handle (Connect c tx) h), [])) (\<lambda>(h, _).
         try_bind (io_end (connect 2 addr)) (\<lambda>_.
           throughput_bench overflow_checks alloc c' n_throughput (snd (hub_run [Disconnect c, Connect c' tx'] ([], h)), [])))))"

text \<open>\<open>print_histogram\<close>. The histogram (\<open>hdrhistogram\<close>) is a parameter: an empty one, recording a value, which may fail, and
  what is read off it, with quantiles in thousandths.\<close>

definition record_latencies :: "(u64 \<Rightarrow> 'h \<Rightarrow> 'e + 'h) \<Rightarrow> u64 list \<Rightarrow> 'h \<Rightarrow> 'h" where
  "record_latencies rec latencies h = fold (\<lambda>v h. case rec (max v 1) h of Inl _ \<Rightarrow> h | Inr h' \<Rightarrow> h') latencies h"

record histogram_report =
  hr_samples :: u64
  hr_quantiles :: "u64 list"
  hr_max :: u64

definition print_histogram :: "'h \<Rightarrow> (u64 \<Rightarrow> 'h \<Rightarrow> 'e + 'h) \<Rightarrow> ('h \<Rightarrow> u64) \<Rightarrow> (nat \<Rightarrow> 'h \<Rightarrow> u64) \<Rightarrow> ('h \<Rightarrow> u64) \<Rightarrow> u64 list \<Rightarrow> histogram_report" where
  "print_histogram new rec len value_at_quantile max_value latencies =
     (let h = record_latencies rec latencies new
      in \<lparr>hr_samples = len h, hr_quantiles = map (\<lambda>q. value_at_quantile q h) [500, 900, 990, 999], hr_max = max_value h\<rparr>)"

text \<open>If recording a positive value succeeds and counts it, every latency is counted.\<close>

lemma all_latencies_counted:
  assumes "len new = 0" "\<And>v h. v \<noteq> 0 \<Longrightarrow> \<exists>h'. rec v h = Inr h' \<and> len h' = len h + 1"
  shows "hr_samples (print_histogram new rec len value_at_quantile max_value latencies) = of_nat (length latencies)"
proof -
  have "len (record_latencies rec latencies h) = len h + of_nat (length latencies)" for h
  proof (induction latencies arbitrary: h)
    case (Cons v latencies)
    have "max v 1 \<noteq> 0" using max.cobounded2 [of 1 v] by (metis word_le_0_iff zero_neq_one)
    then obtain h' where "rec (max v 1) h = Inr h'" "len h' = len h + 1" using assms(2) by blast
    with Cons [of h'] show ?case by (simp add: record_latencies_def)
  qed (simp add: record_latencies_def)
  then show ?thesis using assms(1) by (simp add: print_histogram_def Let_def)
qed

section \<open>What comes back\<close>

lemma read_writer_loop:
  "read_one_server_message (writer_loop (e # es)) = Inr (Some (Execution e, writer_loop es))"
  "read_one_server_message (writer_loop []) = Inr None"
  by (simp_all add: read_server_frame) (simp add: read_one_server_message_def read_exact_def)

lemma count_fills_events:
  "got \<le> t \<Longrightarrow> count_fills t got (writer_loop es) = Inr (min t (got + length (filter counts es)))"
proof (induction es arbitrary: got)
  case Nil
  then show ?case by (subst count_fills.simps) (simp add: read_writer_loop min_def del: writer_loop.simps)
next
  case (Cons e es)
  then show ?case
    by (subst count_fills.simps) (auto simp: read_writer_loop min_def simp del: writer_loop.simps)
qed

lemma drain_until_events:
  "drain_until stop (writer_loop es) =
     (case dropWhile (\<lambda>e. \<not> stop e) es of [] \<Rightarrow> Inl (NetIo UnexpectedEof) | e # rest \<Rightarrow> Inr (writer_loop rest))"
  by (induction es) (subst drain_until.simps, simp add: read_writer_loop del: writer_loop.simps)+

text \<open>Everything a client reads until the stream ends or breaks.\<close>

function server_messages :: "bytes \<Rightarrow> server_message list" where
  "server_messages bs =
     (case read_one_server_message bs of
        Inr (Some (msg, rest)) \<Rightarrow> msg # server_messages rest
      | _ \<Rightarrow> [])"
  by pat_completeness auto
termination
  by (relation "measure length") (auto dest: sym read_message_consumes)

declare server_messages.simps [simp del]

lemma server_messages_writer: "server_messages (writer_loop es) = map Execution es"
  by (induction es) (subst server_messages.simps, simp add: read_writer_loop del: writer_loop.simps)+

lemma read_partial_server:
  assumes "k < length (encode_server msg [])"
  shows "server_messages (List.take k (encode_server msg [])) = []"
proof (cases "k < 4")
  case True
  then show ?thesis by (subst server_messages.simps) (simp add: read_one_server_message_def read_exact_def)
next
  case False
  let ?body = "server_body msg"
  have "unat (of_nat (length ?body) :: u32) = length ?body"
    using length_server_body [of msg] by (simp add: unat_of_nat)
  moreover have "List.take k (encode_server msg []) = u32_le (of_nat (length ?body)) @ List.take (k - 4) ?body"
    using False by (simp add: encode_server_frame frame_def)
  moreover have "\<not> length ?body \<le> k - 4" using assms False by (simp add: encode_server_frame frame_def)
  ultimately show ?thesis
    by (subst server_messages.simps) (simp add: read_one_server_message_def read_exact_def)
qed

lemma server_messages_aborted: "prefix (server_messages (writer_aborted k es)) (map Execution es)"
proof (induction es arbitrary: k)
  case (Cons e es)
  show ?case
  proof (cases "k < length (encode_server (Execution e) [])")
    case True
    then show ?thesis using read_partial_server [OF True] by (simp add: writer_aborted_def)
  next
    case False
    then have "writer_aborted k (e # es) =
      encode_server (Execution e) [] @ writer_aborted (k - length (encode_server (Execution e) [])) es"
      by (simp add: writer_aborted_def)
    then show ?thesis
      using Cons.IH [of "k - length (encode_server (Execution e) [])"]
      by (subst server_messages.simps) (simp add: read_server_frame)
  qed
qed (simp add: writer_aborted_def server_messages.simps [of "[]"] read_one_server_message_def read_exact_def)

lemma burst_stream: "burst n = client_stream (map burst_order [1..<Suc n])"
proof -
  have "fold (\<lambda>i buf. encode_client (burst_order i) buf) is buf = buf @ client_stream (map burst_order is)" for "is" buf
    by (induction "is" arbitrary: buf) (simp_all add: encode_client_frame)
  then show ?thesis by (simp add: burst_def)
qed

text \<open>In the specification: an odd sell rests, and the next buy fills it and leaves nothing.\<close>

lemma burst_pair:
  assumes "i \<noteq> j"
  shows "fold spec_step [client_command (limit i Sell 100 1), client_command (limit j Buy 100 1)] (\<lambda>_. [], n, out) =
    (\<lambda>_. [], n + 5, out @ [Accepted i 1 n, Accepted j 1 (n + 1), Trade j i (Price 100) 1 (n + 2), Done i 0 Filled (n + 3), Done j 0 Filled (n + 4)])"
  using assms
  by (simp add: limit_def spec_accept_def refuses_def listed_def enqueue_def Let_def within_def fun_eq_iff)

lemma even_of_nat_u64: "(of_nat m :: u64) mod 2 = 0 \<longleftrightarrow> even m"
  by (simp add: even_iff_mod_2_eq_zero [symmetric])

text \<open>Each pair empties the book again and gives one event that counts.\<close>

lemma burst_spec:
  "\<exists>n es. fold spec_step (map (client_command \<circ> burst_order) [1..<Suc (2 * k)]) (\<lambda>_. [], n0, []) = (\<lambda>_. [], n, es) \<and>
     length (filter counts es) = k"
proof (induction k)
  case (Suc k)
  then obtain n es where IH: "fold spec_step (map (client_command \<circ> burst_order) [1..<Suc (2 * k)]) (\<lambda>_. [], n0, []) = (\<lambda>_. [], n, es)"
    "length (filter counts es) = k" by blast
  let ?i = "of_nat (2 * k + 1) :: u64" and ?j = "of_nat (2 * k + 2) :: u64"
  have pair: "map (client_command \<circ> burst_order) [Suc (2 * k)..<Suc (2 * Suc k)] =
    [client_command (limit ?i Sell 100 1), client_command (limit ?j Buy 100 1)]"
    by (simp add: burst_order_def upt_rec)
  have split: "[1..<Suc (2 * Suc k)] = [1..<Suc (2 * k)] @ [Suc (2 * k)..<Suc (2 * Suc k)]"
    using upt_add_eq_append [of 1 "Suc (2 * k)" 2] by simp
  have "?i \<noteq> ?j" by simp
  from burst_pair [OF this, of n es] IH(1)
  have run: "fold spec_step (map (client_command \<circ> burst_order) [1..<Suc (2 * Suc k)]) (\<lambda>_. [], n0, []) =
    (\<lambda>_. [], n + 5, es @ [Accepted ?i 1 n, Accepted ?j 1 (n + 1), Trade ?j ?i (Price 100) 1 (n + 2), Done ?i 0 Filled (n + 3), Done ?j 0 Filled (n + 4)])"
    unfolding split map_append pair by simp
  have "\<not> counts (Done ?i 0 Filled (n + 3))" "counts (Done ?j 0 Filled (n + 4))"
    unfolding counts.simps even_of_nat_u64 by simp_all
  then have "length (filter counts (es @ [Accepted ?i 1 n, Accepted ?j 1 (n + 1), Trade ?j ?i (Price 100) 1 (n + 2), Done ?i 0 Filled (n + 3), Done ?j 0 Filled (n + 4)])) = Suc k"
    using IH(2) by (simp del: counts.simps(1) of_nat_add of_nat_Suc of_nat_mult)
  with run show ?case by blast
qed simp

lemma burst_events:
  assumes "st_inv (m, [])" "priority (m_book m) = (\<lambda>_. [])"
  shows "n div 2 \<le> length (filter counts (snd (run_commands (map (client_command \<circ> burst_order) [1..<Suc n]) (m, []))))"
proof -
  let ?cmds = "\<lambda>n. map (client_command \<circ> burst_order) [1..<Suc n]" and ?k = "n div 2"
  obtain sq es where spec: "fold spec_step (?cmds (2 * ?k)) (\<lambda>_. [], peek_seq m, []) = (\<lambda>_. [], sq, es)"
    and count: "length (filter counts es) = ?k"
    using burst_spec [of ?k "peek_seq m"] by blast
  have "abs_state (m, []) = (\<lambda>_. [], peek_seq m, [])" using assms(2) by (simp add: abs_state_def)
  then have "abs_state (run_commands (?cmds (2 * ?k)) (m, [])) = (\<lambda>_. [], sq, es)"
    using mt.abs_run [OF assms(1), of "?cmds (2 * ?k)"] spec by (simp add: run_commands_def)
  then have even_run: "snd (run_commands (?cmds (2 * ?k)) (m, [])) = es" by (simp add: abs_state_def)
  have "[1..<Suc n] = [1..<Suc (2 * ?k)] @ [Suc (2 * ?k)..<Suc n]"
    using upt_add_eq_append [of 1 "Suc (2 * ?k)" "n mod 2"] by simp
  then have "run_commands (?cmds n) (m, []) =
    run_commands (map (client_command \<circ> burst_order) [Suc (2 * ?k)..<Suc n]) (run_commands (?cmds (2 * ?k)) (m, []))"
    by (simp add: run_commands_def)
  moreover have "prefix es (snd (run_commands cs (m', es)))" for cs m'
    using after_run_commands [of cs es "(m', [])"] by (simp add: after_def)
  ultimately have "prefix es (snd (run_commands (?cmds n) (m, [])))"
    using even_run by (metis prod.collapse)
  then show ?thesis using count by (auto simp: prefix_def)
qed

text \<open>A round trip starts and ends with an empty book and nothing unread.\<close>

definition idle :: "conn_id \<Rightarrow> 'tx hub_loop \<Rightarrow> bool" where
  "idle c h \<longleftrightarrow> hl_order_owner h = Map.empty \<and> hl_routes h c \<noteq> None \<and>
     st_inv (hl_matcher h, []) \<and> priority (m_book (hl_matcher h)) = (\<lambda>_. [])"

lemma dispatch_owner: "snd (dispatch routes c es ow) = fold forget_done es ow"
  by (induction es arbitrary: ow) (simp_all add: split_beta Let_def)

lemma reader_one: "fst (reader_loop (encode_client msg [])) = [client_command msg]"
  using session_commands [of "[msg]"] by simp

lemma exchange_one:
  assumes "ran (hl_order_owner h) \<subseteq> {c}" "hl_routes h c \<noteq> None"
  obtains h' where "exchange c (encode_client msg []) (h, bs) =
      (h', bs @ writer_loop (snd (apply_command (client_command msg) (hl_matcher h, []))))"
    "ran (hl_order_owner h') \<subseteq> {c}" "hl_routes h' c \<noteq> None"
    "hl_matcher h' = fst (apply_command (client_command msg) (hl_matcher h, []))"
    "hl_order_owner h' = fold forget_done (snd (apply_command (client_command msg) (hl_matcher h, []))) (submits c (client_command msg) (hl_order_owner h))"
proof -
  obtain tx where tx: "hl_routes h c = Some tx" using assms(2) by blast
  obtain sends h' where run: "hub_run (map (Cmd c) [client_command msg]) ([], h) = (sends, h')" by fastforce
  have "hl_matcher h' = fst (apply_command (client_command msg) (hl_matcher h, []))"
    using hub_run_matcher [of "map (Cmd c) [client_command msg]" "([], h)"] run by simp
  moreover have "exchange c (encode_client msg []) (h, bs) =
      (h', bs @ writer_loop (snd (apply_command (client_command msg) (hl_matcher h, []))))"
    using hub_run_single [OF assms(1) tx, of "[client_command msg]" "[]"] run
    by (simp add: exchange_def reader_one comp_def)
  moreover have "hl_order_owner h' = fold forget_done (snd (apply_command (client_command msg) (hl_matcher h, []))) (submits c (client_command msg) (hl_order_owner h))"
    using run dispatch_owner [of "hl_routes h" c] by (cases "client_command msg") (auto simp: split_beta Let_def)
  ultimately show thesis
    using that [of h'] hub_run_single [OF assms(1) tx, of "[client_command msg]" "[]"] run by simp
qed

lemma rtt_pair_events:
  assumes "st_inv (m, [])" "priority (m_book m) = (\<lambda>_. [])" "i \<noteq> j"
  defines "sell \<equiv> apply_command (client_command (limit i Sell 100 1)) (m, [])"
    and "n \<equiv> peek_seq m"
  defines "buy \<equiv> apply_command (client_command (limit j Buy 100 1)) (fst sell, [])"
  shows "snd sell = [Accepted i 1 n]"
    "snd buy = [Accepted j 1 (n + 1), Trade j i (Price 100) 1 (n + 2), Done i 0 Filled (n + 3), Done j 0 Filled (n + 4)]"
    "st_inv (fst buy, [])" "priority (m_book (fst buy)) = (\<lambda>_. [])"
proof -
  let ?cs = "[client_command (limit i Sell 100 1), client_command (limit j Buy 100 1)]"
  have start: "abs_state (m, []) = (\<lambda>_. [], n, [])" using assms(2) by (simp add: abs_state_def n_def)
  have "abs_state sell = spec_step (client_command (limit i Sell 100 1)) (\<lambda>_. [], n, [])"
    using mt.abs_run [OF assms(1), of "[client_command (limit i Sell 100 1)]"] start by (simp add: sell_def)
  then show sell: "snd sell = [Accepted i 1 n]"
    by (simp add: abs_state_def split_beta limit_def spec_accept_def refuses_def listed_def Let_def prod_eq_iff)
  have run: "run_commands ?cs (m, []) = (fst buy, snd sell @ snd buy)"
    using after_run_commands [of "[client_command (limit j Buy 100 1)]" "snd sell" "(fst sell, [])"]
    by (simp add: sell_def buy_def after_def)
  have "abs_state (run_commands ?cs (m, [])) = (\<lambda>_. [], n + 5, [Accepted i 1 n, Accepted j 1 (n + 1), Trade j i (Price 100) 1 (n + 2), Done i 0 Filled (n + 3), Done j 0 Filled (n + 4)])"
    using mt.abs_run [OF assms(1), of ?cs] burst_pair [OF assms(3), of n "[]"] start by (simp add: run_commands_def)
  then show "snd buy = [Accepted j 1 (n + 1), Trade j i (Price 100) 1 (n + 2), Done i 0 Filled (n + 3), Done j 0 Filled (n + 4)]"
    "priority (m_book (fst buy)) = (\<lambda>_. [])"
    unfolding run using sell by (simp_all add: abs_state_def)
  show "st_inv (fst buy, [])"
    using mt.inv_run [OF assms(1), of ?cs] run by (simp add: run_commands_def st_inv_def)
qed

lemma rtt_one_completes:
  assumes "idle c h" "i \<noteq> j"
  obtains h' where "rtt_one c i j (h, []) = Inr (h', [])" "idle c h'"
proof -
  note idle = assms(1) [unfolded idle_def]
  let ?sell = "limit i Sell 100 1" and ?buy = "limit j Buy 100 1"
  have "ran (hl_order_owner h) \<subseteq> {c}" using idle by simp
  with idle obtain h1 where h1: "exchange c (encode_client ?sell []) (h, []) =
      (h1, [] @ writer_loop (snd (apply_command (client_command ?sell) (hl_matcher h, []))))"
    "ran (hl_order_owner h1) \<subseteq> {c}" "hl_routes h1 c \<noteq> None"
    "hl_matcher h1 = fst (apply_command (client_command ?sell) (hl_matcher h, []))"
    "hl_order_owner h1 = fold forget_done (snd (apply_command (client_command ?sell) (hl_matcher h, []))) (submits c (client_command ?sell) (hl_order_owner h))"
    using exchange_one [of h c ?sell "[]"] by metis
  from exchange_one [OF h1(2,3), of ?buy "[]"] obtain h2 where h2: "exchange c (encode_client ?buy []) (h1, []) =
      (h2, [] @ writer_loop (snd (apply_command (client_command ?buy) (hl_matcher h1, []))))"
    "ran (hl_order_owner h2) \<subseteq> {c}" "hl_routes h2 c \<noteq> None"
    "hl_matcher h2 = fst (apply_command (client_command ?buy) (hl_matcher h1, []))"
    "hl_order_owner h2 = fold forget_done (snd (apply_command (client_command ?buy) (hl_matcher h1, []))) (submits c (client_command ?buy) (hl_order_owner h1))"
    by metis
  note ev = rtt_pair_events [of "hl_matcher h" i j, folded h1(4), folded h2(4), OF _ _ assms(2)]
  have sub: "submits c (client_command ?sell) ow = ow(i \<mapsto> c)" "submits c (client_command ?buy) ow = ow(j \<mapsto> c)" for ow
    by (simp_all add: limit_def)
  have "hl_order_owner h2 = Map.empty"
    using h1(5) h2(5) ev(1,2) idle assms(2) unfolding sub by (simp add: fun_eq_iff)
  then have "idle c h2" using h2(3) ev(3,4) idle by (simp add: idle_def)
  moreover have "rtt_one c i j (h, []) = Inr (h2, [])"
    using h1(1) h2(1) ev(1,2) idle assms(2) by (simp add: rtt_one_def drain_until_events del: writer_loop.simps(2))
  ultimately show thesis using that by blast
qed

lemma rtt_loop_completes:
  "idle c h \<Longrightarrow> \<forall>(i, j)\<in>set pairs. i \<noteq> j \<Longrightarrow> \<exists>h'. rtt_loop c pairs (h, []) = Inr (h', []) \<and> idle c h'"
proof (induction pairs arbitrary: h)
  case (Cons ij pairs)
  have "fst ij \<noteq> snd ij" using Cons.prems(2) by auto
  from rtt_one_completes [OF Cons.prems(1) this]
  obtain h' where "rtt_one c (fst ij) (snd ij) (h, []) = Inr (h', [])" "idle c h'" .
  then show ?case using Cons.IH [of h'] Cons.prems(2) by (cases ij) simp
qed simp

lemma io_end_simps [simp]: "io_end (Inr x) = Inr x" "io_end (Inl e) = Inl (ClientErr e)"
  by (simp_all add: io_end_def)

lemma rtt_bench_idle:
  assumes "idle c h"
  shows "if vec_request alloc (8 * n) = Inr () then \<exists>h'. rtt_bench alloc c n (h, []) = Inr (h', []) \<and> idle c h'
    else rtt_bench alloc c n (h, []) = Inl Aborted"
proof -
  have "(of_nat i * 2 + 1 :: u64) \<noteq> of_nat i * 2 + 2" "b + of_nat i * 2 \<noteq> b + of_nat i * 2 + (1 :: u64)" for b i by simp_all
  then obtain h1 where h1: "rtt_loop c (map (\<lambda>i. (of_nat i * 2 + 1, of_nat i * 2 + 2)) [0..<min 100 n]) (h, []) = Inr (h1, [])" "idle c h1"
    using rtt_loop_completes [OF assms, of "map (\<lambda>i. (of_nat i * 2 + 1, of_nat i * 2 + 2)) [0..<min 100 n]"] by fastforce
  let ?b = "of_nat (min 100 n) * 2 + 1 :: u64"
  obtain h2 where h2: "rtt_loop c (map (\<lambda>i. (?b + of_nat i * 2, ?b + of_nat i * 2 + 1)) [0..<n]) (h1, []) = Inr (h2, [])" "idle c h2"
    using rtt_loop_completes [OF h1(2), of "map (\<lambda>i. (?b + of_nat i * 2, ?b + of_nat i * 2 + 1)) [0..<n]"] by fastforce
  have "rtt_bench alloc c n (h, []) = try_bind (vec_request alloc (8 * n)) (\<lambda>_. Inr (h2, []))"
    unfolding rtt_bench_def Let_def h1(1) by (simp only: io_end_simps try_bind_simps h2(1))
  with h2(2) show ?thesis by (auto simp: vec_request_def)
qed

section \<open>The buffer of the burst\<close>

lemma length_burst_order: "length (encode_client (burst_order i) buf) = length buf + 40"
  by (simp add: encode_client_frame frame_def burst_order_def limit_def encode_new_order_def)

lemma burst_loop_bytes: "burst_loop alloc is cap buf = Inr buf' \<Longrightarrow> buf' = fold (\<lambda>i buf. encode_client (burst_order i) buf) is buf"
  by (induction "is" arbitrary: cap buf) (auto simp: Let_def try_bind_Inr_iff)

text \<open>What the buffer needs: for a burst of \<open>n\<close> orders of 40 bytes, 32 are reserved and the double is asked for when they are full.\<close>

definition burst_fits :: "(nat \<Rightarrow> bool) \<Rightarrow> nat \<Rightarrow> bool" where
  "burst_fits alloc n \<longleftrightarrow> n = 0 \<or> n < 2 ^ 57 \<and> alloc (32 * n) \<and> alloc (64 * n)"

lemma burst_loop_aborts: "burst_loop alloc is cap buf = Inl e \<Longrightarrow> e = Aborted"
  by (induction "is" arbitrary: cap buf)
    (auto simp: Let_def try_bind_def vec_grow_def vec_request_def split: sum.splits if_splits)

lemma burst_loop_room:
  assumes "0 < n" "64 * n \<le> isize_max" "alloc (64 * n)"
  shows "cap = 32 * n \<or> cap = 64 * n \<Longrightarrow> length buf + 40 * length is \<le> 64 * n \<Longrightarrow> \<exists>buf'. burst_loop alloc is cap buf = Inr buf'"
proof (induction "is" arbitrary: cap buf)
  case (Cons i "is")
  have "\<exists>cap'. vec_grow alloc cap (length buf) 40 = Inr cap' \<and> (cap' = 32 * n \<or> cap' = 64 * n)"
  proof (cases "length buf + 40 \<le> cap")
    case False
    then have "max (max (2 * cap) (length buf + 40)) 8 = 64 * n" using Cons.prems assms(1) by (auto simp: max_def)
    with False assms(2,3) show ?thesis by (simp add: vec_grow_def Let_def vec_request_def)
  qed (use Cons.prems in \<open>simp add: vec_grow_def\<close>)
  then obtain cap' where "vec_grow alloc cap (length buf) 40 = Inr cap'" "cap' = 32 * n \<or> cap' = 64 * n" by blast
  with Cons.IH [of cap' "encode_client (burst_order i) buf"] Cons.prems(2) show ?case by (simp add: Let_def length_burst_order)
qed simp

lemma burst_loop_refused:
  assumes "\<not> (64 * n \<le> isize_max \<and> alloc (64 * n))"
  shows "length buf + 40 * length is = 40 * n \<Longrightarrow> length buf \<le> 32 * n \<Longrightarrow> 0 < n \<Longrightarrow> burst_loop alloc is (32 * n) buf = Inl Aborted"
proof (induction "is" arbitrary: buf)
  case (Cons i "is")
  show ?case
  proof (cases "length buf + 40 \<le> 32 * n")
    case True
    with Cons.IH [of "encode_client (burst_order i) buf"] Cons.prems show ?thesis
      by (simp add: Let_def length_burst_order vec_grow_def)
  next
    case False
    then have "vec_grow alloc (32 * n) (length buf) 40 = Inl Aborted"
      using Cons.prems assms by (auto simp: vec_grow_def Let_def vec_request_def max_def)
    then show ?thesis by (simp add: Let_def length_burst_order)
  qed
qed simp

lemma burst_loop_bounded:
  "burst_loop alloc is cap buf = Inr buf' \<Longrightarrow> cap \<le> isize_max \<Longrightarrow> length buf \<le> cap \<Longrightarrow> length buf + 40 * length is \<le> isize_max"
proof (induction "is" arbitrary: cap buf)
  case (Cons i "is")
  let ?buf = "encode_client (burst_order i) buf"
  from Cons.prems(1) obtain cap' where cap': "vec_grow alloc cap (length buf) 40 = Inr cap'" "burst_loop alloc is cap' ?buf = Inr buf'"
    by (auto simp: Let_def try_bind_Inr_iff length_burst_order)
  have "length ?buf \<le> cap'" "cap' \<le> isize_max"
    using cap'(1) Cons.prems(2,3)
    by (auto simp: vec_grow_def length_burst_order Let_def try_bind_Inr_iff vec_request_def split: if_splits)
  from Cons.IH [OF cap'(2) this(2,1)] show ?case by (simp add: length_burst_order)
qed simp

lemma burst_buffer:
  "try_bind (usize_mul checks n 32) (\<lambda>cap. try_bind (vec_request alloc cap) (\<lambda>_. burst_loop alloc [1..<Suc n] cap [])) =
     (if burst_fits alloc n then Inr (burst n) else Inl Aborted)"
proof (cases "n = 0 \<or> n \<ge> 2 ^ 59")
  case True
  then consider "n = 0" | "n \<ge> 2 ^ 59" by blast
  then show ?thesis
  proof cases
    case 1
    then show ?thesis by (simp add: usize_mul_def vec_request_def burst_fits_def burst_def)
  next
    case 2
    let ?cap = "n * 32 mod 2 ^ 64"
    have "burst_loop alloc [1..<Suc n] ?cap [] = Inl Aborted" if "vec_request alloc ?cap = Inr ()"
    proof (cases "burst_loop alloc [1..<Suc n] ?cap []")
      case (Inr buf)
      have "?cap \<le> isize_max" using that by (auto simp: vec_request_def split: if_splits)
      from burst_loop_bounded [OF Inr this] 2 show ?thesis by (simp add: isize_max_def)
    qed (use burst_loop_aborts in blast)
    moreover have "vec_request alloc ?cap = Inr () \<or> vec_request alloc ?cap = Inl Aborted" by (simp add: vec_request_def)
    moreover have "usize_mul checks n 32 = (if checks then Inl Aborted else Inr ?cap)" "\<not> burst_fits alloc n"
      using 2 by (simp_all add: usize_mul_def burst_fits_def)
    ultimately show ?thesis by auto
  qed
next
  case False
  then have n: "0 < n" "n * 32 < 2 ^ 64" by simp_all
  have ok: "64 * n \<le> isize_max \<longleftrightarrow> n < 2 ^ 57" by (simp add: isize_max_def) linarith
  have req: "vec_request alloc (32 * n) = (if 32 * n \<le> isize_max \<and> alloc (32 * n) then Inr () else Inl Aborted)"
    using n by (simp add: vec_request_def)
  have mul: "usize_mul checks n 32 = Inr (32 * n)" using n(2) by (simp add: usize_mul_def mult.commute)
  show ?thesis
  proof (cases "burst_fits alloc n")
    case True
    then have fits: "64 * n \<le> isize_max" "alloc (64 * n)" "alloc (32 * n)" using n ok by (auto simp: burst_fits_def)
    obtain buf where buf: "burst_loop alloc [1..<Suc n] (32 * n) [] = Inr buf"
      using burst_loop_room [of n alloc "32 * n" "[]" "[1..<Suc n]"] n(1) fits(1,2) by auto
    then have "buf = burst n" using burst_loop_bytes [OF buf] by (simp add: burst_def)
    then show ?thesis using True buf fits req mul by simp
  next
    case no: False
    then have "\<not> (64 * n \<le> isize_max \<and> alloc (64 * n)) \<or> \<not> alloc (32 * n)" using n ok by (auto simp: burst_fits_def)
    then show ?thesis
      using no mul req burst_loop_refused [of n alloc "[]" "[1..<Suc n]"] n(1) by auto
  qed
qed

lemma burst_read: "fst (reader_loop (burst n)) = map (client_command \<circ> burst_order) [1..<Suc n]"
  using reader_stream [of "map burst_order [1..<Suc n]" "[]"]
  by (simp add: burst_stream reader_loop.simps [of "[]"] read_command_def read_exact_def split: prod.splits)

lemma throughput_idle:
  assumes "idle c h"
  shows "throughput_bench checks alloc c n (h, []) = (if burst_fits alloc n then Inr (n div 2) else Inl Aborted)"
proof -
  obtain tx where tx: "hl_routes h c = Some tx" and own: "ran (hl_order_owner h) \<subseteq> {c}"
    and m: "st_inv (hl_matcher h, [])" "priority (m_book (hl_matcher h)) = (\<lambda>_. [])"
    using assms by (auto simp: idle_def)
  let ?es = "snd (run_commands (map (client_command \<circ> burst_order) [1..<Suc n]) (hl_matcher h, []))"
  have "snd (exchange c (burst n) (h, [])) = writer_loop ?es"
    using hub_run_single [OF own tx, of "map (client_command \<circ> burst_order) [1..<Suc n]" "[]"]
    by (simp add: exchange_def burst_read split_beta comp_def del: upt_Suc)
  then have count: "count_fills (n div 2) 0 (snd (exchange c (burst n) (h, []))) = Inr (n div 2)"
    using burst_events [OF m, of n] by (simp add: count_fills_events min_def)
  have eq: "throughput_bench checks alloc c n (h, []) =
      try_bind (try_bind (usize_mul checks n 32) (\<lambda>cap. try_bind (vec_request alloc cap) (\<lambda>_. burst_loop alloc [1..<Suc n] cap [])))
        (\<lambda>buf. io_end (count_fills (n div 2) 0 (snd (exchange c buf (h, [])))))"
    by (simp add: throughput_bench_def try_bind_def del: upt_Suc split: sum.split)
  show ?thesis unfolding eq burst_buffer using count by simp
qed

section \<open>Guarantees\<close>

text \<open>The burst alone, on a fresh server.\<close>

theorem burst_completes:
  "count_fills (n div 2) 0 (writer_loop (map snd (fst (hub_run (connection_open c tx (burst n)) ([], hub_loop_new))))) = Inr (n div 2)"
  using burst_events [of matcher_new n] new_state [of "[]"]
  by (simp add: connection_events burst_read count_fills_events comp_def min_def abs_state_def)

text \<open>C40. How the client ends, for all arguments, against a freshly started server that nobody else uses. Every round trip meets the
  events it waits for, and then the receiving loop of the burst stops with exactly half the number of orders counted, without
  waiting for the end of the stream. The program fails with the error of an attempt to connect that fails; and it panics, after the warm-up or
  before the burst is sent, exactly if the latencies need more than \<open>isize::MAX\<close> bytes, if the burst has \<open>2^57\<close> orders or more, or if the allocator
  refuses the buffers: the latencies, 32 bytes per order of the burst, and the double of that, which is needed as an order takes 40. It is the same with
  and without overflow checks.\<close>

theorem client_main_ends:
  "client_main overflow_checks alloc connect (c, tx) (c', tx') args hub_loop_new =
     (case client_args args of (addr, n_rtt, n_throughput) \<Rightarrow>
        case connect 1 addr of
          Inl e \<Rightarrow> Inl (ClientErr e)
        | Inr _ \<Rightarrow>
            if n_rtt = 0 \<or> 8 * n_rtt \<le> isize_max \<and> alloc (8 * n_rtt)
            then case connect 2 addr of
                Inl e \<Rightarrow> Inl (ClientErr e)
              | Inr _ \<Rightarrow>
                  if n_throughput = 0 \<or> n_throughput < 2 ^ 57 \<and> alloc (32 * n_throughput) \<and> alloc (64 * n_throughput)
                  then Inr (n_throughput div 2) else Inl Aborted
            else Inl Aborted)"
proof -
  let ?n = "fst (snd (client_args args))"
  have "idle c (snd (hub_handle (Connect c tx) hub_loop_new))"
    using new_state [of "[]"] by (simp add: idle_def hub_loop_new_def abs_state_def)
  note rtt = rtt_bench_idle [OF this, of alloc ?n]
  have "idle c' (snd (hub_run [Disconnect c, Connect c' tx'] ([], h)))" if "idle c h" for h using that by (simp add: idle_def)
  then have burst: "throughput_bench overflow_checks alloc c' n (snd (hub_run [Disconnect c, Connect c' tx'] ([], h)), []) =
      (if burst_fits alloc n then Inr (n div 2) else Inl Aborted)" if "idle c h" for h n
    using throughput_idle that by blast
  show ?thesis
  proof (cases "vec_request alloc (8 * ?n) = Inr ()")
    case True
    with rtt obtain h where "rtt_bench alloc c ?n (snd (hub_handle (Connect c tx) hub_loop_new), []) = Inr (h, [])" "idle c h" by auto
    then show ?thesis
      using True burst [of h] by (auto simp: client_main_def split_beta Let_def burst_fits_def vec_request_def
          simp del: hub_handle.simps hub_run.simps split: sum.split if_splits)
  next
    case False
    then show ?thesis
      using rtt by (auto simp: client_main_def split_beta Let_def vec_request_def
          simp del: hub_handle.simps hub_run.simps split: sum.split if_splits)
  qed
qed

end
