(* ===== verification/Error_Text.thy ===== *)
theory Error_Text
  imports Snapshot Protocol
begin

text \<open>
  How errors print: the implementations of \<open>Display\<close> for the errors of the log, the snapshots and the protocol
  (\<^verbatim>\<open>bourse-core/src/wal.rs\<close>, \<^verbatim>\<open>bourse-core/src/snapshot.rs\<close>, \<^verbatim>\<open>bourse-protocol/src/lib.rs\<close>). How an error of the
  operating system prints is the standard library's and a parameter, \<open>io\<close>.
\<close>

abbreviation u8_text :: "u8 \<Rightarrow> string" where
  "u8_text b \<equiv> dec_string (unat b)"

fun wal_error_fmt :: "(io_error \<Rightarrow> string) \<Rightarrow> wal_error \<Rightarrow> string" where
  "wal_error_fmt io (WalIo e) = ''wal io: '' @ io e"
| "wal_error_fmt io CrcMismatch = ''wal record crc32c mismatch''"
| "wal_error_fmt io WalBadMagic = ''wal segment bad magic''"
| "wal_error_fmt io (UnknownSegmentVersion v) = ''wal segment version '' @ u8_text v @ '' unknown''"
| "wal_error_fmt io (UnknownRecordVersion v) = ''wal record version '' @ u8_text v @ '' unknown''"
| "wal_error_fmt io (UnknownRecordType t) = ''wal record type '' @ u8_text t @ '' unknown''"
| "wal_error_fmt io (WalUnknownKindTag t) = ''wal order kind tag '' @ u8_text t @ '' unknown''"
| "wal_error_fmt io (WalUnknownSide s) = ''wal side byte '' @ u8_text s @ '' unknown''"
| "wal_error_fmt io RecordTooLarge = ''wal record exceeds u32::MAX bytes''"
| "wal_error_fmt io WalTruncated = ''wal record body too short for v2 framing''"

fun snapshot_error_fmt :: "(io_error \<Rightarrow> string) \<Rightarrow> snapshot_error \<Rightarrow> string" where
  "snapshot_error_fmt io (SnapIo e) = ''snapshot io: '' @ io e"
| "snapshot_error_fmt io SnapBadMagic = ''snapshot bad magic''"
| "snapshot_error_fmt io (SnapUnknownVersion v) = ''snapshot version '' @ u8_text v @ '' unknown''"
| "snapshot_error_fmt io (SnapUnknownSide s) = ''snapshot side byte '' @ u8_text s @ '' unknown''"
| "snapshot_error_fmt io SnapTruncated = ''snapshot file truncated''"
| "snapshot_error_fmt io InvalidOrder = ''snapshot contained an order the book rejected''"

fun protocol_error_fmt :: "protocol_error \<Rightarrow> string" where
  "protocol_error_fmt Truncated = ''frame body truncated''"
| "protocol_error_fmt (UnknownVersion v) = ''protocol version '' @ u8_text v @ '' unknown''"
| "protocol_error_fmt (UnknownMessage t) = ''message type '' @ u8_text t @ '' unknown''"
| "protocol_error_fmt (UnknownSide s) = ''side byte '' @ u8_text s @ '' unknown''"
| "protocol_error_fmt (UnknownKindTag t) = ''order kind tag '' @ u8_text t @ '' unknown''"
| "protocol_error_fmt (UnknownExecType t) = ''exec type '' @ u8_text t @ '' unknown''"
| "protocol_error_fmt (UnknownReason r) = ''done reason '' @ u8_text r @ '' unknown''"
| "protocol_error_fmt TrailingBytes = ''frame body had trailing bytes''"

section \<open>The cause of an error\<close>

text \<open>\<open>From<io::Error>\<close> and \<open>Error::source\<close>: the errors of the operating system, and nothing else, have a cause.\<close>

definition wal_from_io :: "io_error \<Rightarrow> wal_error" where
  "wal_from_io e = WalIo e"

fun wal_error_source :: "wal_error \<Rightarrow> io_error option" where
  "wal_error_source (WalIo e) = Some e"
| "wal_error_source _ = None"

definition snapshot_from_io :: "io_error \<Rightarrow> snapshot_error" where
  "snapshot_from_io e = SnapIo e"

fun snapshot_error_source :: "snapshot_error \<Rightarrow> io_error option" where
  "snapshot_error_source (SnapIo e) = Some e"
| "snapshot_error_source _ = None"

lemma wal_error_source_iff: "wal_error_source x = Some e \<longleftrightarrow> x = wal_from_io e"
  by (cases x) (auto simp: wal_from_io_def)

lemma snapshot_error_source_iff: "snapshot_error_source x = Some e \<longleftrightarrow> x = snapshot_from_io e"
  by (cases x) (auto simp: snapshot_from_io_def)

section \<open>A text tells the error\<close>

lemma u8_text_inj [simp]: "u8_text a = u8_text b \<longleftrightarrow> a = b"
  by (metis dec_value_dec_string word_unat_eq_iff)

lemma protocol_error_fmt_inj: "protocol_error_fmt e = protocol_error_fmt e' \<longleftrightarrow> e = e'"
  by (cases e; cases e') simp_all

lemma wal_error_fmt_inj: "inj io \<Longrightarrow> wal_error_fmt io e = wal_error_fmt io e' \<longleftrightarrow> e = e'"
  by (cases e; cases e') (simp_all add: inj_eq)

lemma snapshot_error_fmt_inj: "inj io \<Longrightarrow> snapshot_error_fmt io e = snapshot_error_fmt io e' \<longleftrightarrow> e = e'"
  by (cases e; cases e') (simp_all add: inj_eq)

end
