(* ===== verification/Basic_Match.thy ===== *)
theory Basic_Match
  imports Matcher
begin

text \<open>
  The example \<^verbatim>\<open>bourse-core/examples/basic_match.rs\<close>: seven orders, one of each situation, submitted to a matcher. Its
  output is the list of the events printed after each submission, and the summary of the final book.
\<close>

definition example_limit :: "u64 \<Rightarrow> side \<Rightarrow> i64 \<Rightarrow> u64 \<Rightarrow> new_order" where
  "example_limit i s p q = \<lparr>no_id = i, no_side = s, no_qty = q, no_kind = Limit (Price p), no_timestamp = 0\<rparr>"

definition example_post_only :: "u64 \<Rightarrow> side \<Rightarrow> i64 \<Rightarrow> u64 \<Rightarrow> new_order" where
  "example_post_only i s p q = \<lparr>no_id = i, no_side = s, no_qty = q, no_kind = PostOnly (Price p), no_timestamp = 0\<rparr>"

definition example_fok :: "u64 \<Rightarrow> side \<Rightarrow> i64 \<Rightarrow> u64 \<Rightarrow> new_order" where
  "example_fok i s p q = \<lparr>no_id = i, no_side = s, no_qty = q, no_kind = Fok (Price p), no_timestamp = 0\<rparr>"

text \<open>\<open>submit\<close> clears the vector, executes the order and prints what it emitted.\<close>

definition example_submit :: "new_order \<Rightarrow> matcher \<times> event list list \<Rightarrow> matcher \<times> event list list" where
  "example_submit order st = (case accept order (fst st, []) of (m, events) \<Rightarrow> (m, snd st @ [events]))"

definition example_orders :: "new_order list" where
  "example_orders =
     [example_limit 1 Sell 100 5, example_limit 2 Buy 100 5, example_limit 3 Buy 99 3, example_post_only 4 Sell 99 4,
      example_post_only 5 Sell 100 2, example_fok 6 Buy 100 10, example_fok 7 Buy 100 2]"

definition example_main :: "event list list \<times> price option \<times> price option \<times> nat" where
  "example_main =
     (let (m, printed) = fold example_submit example_orders (matcher_new, [])
      in (printed, best_bid (m_book m), best_ask (m_book m), book_len (m_book m)))"

text \<open>The events are those that the headings announce: rests; crosses and fills; rests; rejected; rests; rejected; fills. Only
  the third order is left.\<close>

lemma example_output:
  "example_main =
     ([[Accepted 1 5 1],
       [Accepted 2 5 2, Trade 2 1 (Price 100) 5 3, Done 1 0 Filled 4, Done 2 0 Filled 5],
       [Accepted 3 3 6],
       [Done 4 4 Rejected 7],
       [Accepted 5 2 8],
       [Done 6 10 Rejected 9],
       [Accepted 7 2 10, Trade 7 5 (Price 100) 2 11, Done 5 0 Filled 12, Done 7 0 Filled 13]],
      Some (Price 99), None, 1)"
  by code_simp

end
