(* ===== verification/Spec2Isabelle.thy ===== *)
theory Spec2Isabelle
  imports Book_Guarantees Matching_Guarantees Replay Spsc_Memory Engine_Split Hub_Stop Hub_Live Hub_Tenants Server_Tasks Client Error_Text Basic_Match
begin

text \<open>
  A verification of \<^verbatim>\<open>bourse\<close>, a limit order book exchange in Rust (\<^verbatim>\<open>src/crates\<close>).

  \<^bold>\<open>The program.\<close> Orders and cancels reach a single-threaded matcher, which keeps the book and answers
  with numbered events. Around it: two ways to feed it from other threads (the engine, over two
  lock-free rings, and the hub, over one shared inbox with a route per connection), a TCP server with a
  binary protocol in front of the hub, a client, and for recovery a write-ahead log, snapshots and a
  replay tool.

  \<^bold>\<open>Theories and sources.\<close>
  \<^item> \<open>Prelude\<close>: machine integers (\<open>u64\<close>, \<open>i64\<close>, and so on as words), saturating and checked operations,
    little-endian bytes, \<open>?\<close> on results. \<open>Machine\<close>: the locales for machines with an invariant, for
    functional simulation, for labelled step relations, and for progress under fair schedules.
  \<^item> \<open>Types\<close>: \<^verbatim>\<open>bourse-core/src/types\<close>. \<open>Btree_Map\<close>: what the book uses of \<open>BTreeMap\<close>, with the
    locale \<open>ordered_map\<close>. \<open>Order_Book\<close> and \<open>Book_Correct\<close>: \<^verbatim>\<open>order_book.rs\<close>, each method and what it does
    to the view of the book as one queue per side and price. \<open>Book_Guarantees\<close>: its guarantees.
  \<^item> \<open>Matcher\<close>: \<^verbatim>\<open>matcher.rs\<close>. \<open>Matcher_Correct\<close>: the loop of \<open>accept\<close> against a sweep of a list.
    \<open>Price_Time\<close>: the abstract market, two lists in priority order, and the refinement.
    \<open>Market_Laws\<close>: laws of that market, carried to the matcher by the interpretation of \<open>simulation\<close>.
    \<open>Matching_Guarantees\<close>: the guarantees, over the code's functions.
  \<^item> \<open>Byte_Codec\<close>, \<open>Protocol\<close>: \<^verbatim>\<open>bourse-protocol/src/lib.rs\<close>; the locale \<open>codec\<close> is the contract
    between an encoder and a decoder, interpreted for kinds, orders and events.
  \<^item> \<open>Wal\<close>, \<open>Wal_Correct\<close>: \<^verbatim>\<open>wal.rs\<close>, over directories whose files have a durable and a pending part. \<open>Volume\<close>:
    files apart from the directory entries that name them, which nothing in the repository syncs.
    \<open>Snapshot\<close>, \<open>Snapshot_Correct\<close>: \<^verbatim>\<open>snapshot.rs\<close>. The operations of log and snapshot are lists of file-system
    actions (\<open>op_actions\<close>, \<open>snapshot_actions\<close>) a crash can interrupt. \<open>Replay\<close>: \<^verbatim>\<open>bourse-replay/src/main.rs\<close>, up to the values it reports. \<open>Error_Text\<close>: the texts of the
    errors of log, snapshot and protocol.
  \<^item> \<open>Spsc\<close>, \<open>Spsc_Correct\<close>: \<^verbatim>\<open>spsc.rs\<close>, first call by call (locale \<open>bounded_queue\<close>), then with the
    atomic accesses of producer and consumer interleaved. \<open>Spsc_Memory\<close>: the same accesses under release/acquire memory,
    with the orderings as a parameter. \<open>Engine\<close>, \<open>Engine_Stop\<close>, \<open>Engine_Split\<close>: \<^verbatim>\<open>engine.rs\<close>, the last two its
    \<open>stop\<close> before and after \<open>split\<close>.
  \<^item> \<open>Hub\<close>, \<open>Hub_Correct\<close>: \<^verbatim>\<open>hub.rs\<close> (locale \<open>hub_inbox\<close>). \<open>Hub_Stop\<close>: its loops that wait. \<open>Hub_Live\<close>: progress.
    \<open>Hub_Streams\<close>: what one of many connections is sent. \<open>Hub_Tenants\<close>: the submitters, with their clones and drops.
  \<^item> \<open>Basic_Match\<close>: \<^verbatim>\<open>bourse-core/examples/basic_match.rs\<close>.
  \<^item> \<open>Server\<close>: \<^verbatim>\<open>bourse-server/src/lib.rs\<close> and \<^verbatim>\<open>main.rs\<close>. \<open>Server_Tasks\<close>: the tasks of a connection. \<open>Client\<close>:
    \<^verbatim>\<open>bourse-client/src/main.rs\<close>. This theory: the path from the client's bytes through the server, the hub and the matcher and back.

  \<^bold>\<open>How the code is rendered.\<close> A struct is a record, an enum a datatype, \<open>Result\<close> a sum with the error on the
  left. A method that changes its object takes it and returns it changed; the matcher's methods,
  which append to a vector, run on the pair of matcher and events. A loop is a total function with a
  termination proof; only the loops that wait for another thread are partial, where \<open>None\<close> is never
  returning. A thread is a step function, and concurrency a list of steps of the parties in any order: the theorems on \<open>ring_step\<close>,
  \<open>engine_step\<close>, \<open>hub_step\<close> and \<open>tenant_step\<close> hold for all of them. For liveness a schedule is endless, and fair when the
  parties it depends on keep getting turns. The tasks of a connection are an inductive step relation.

  \<^bold>\<open>What is shown.\<close>
  \<^item> Matching: the matcher computes price-time priority exactly, from every book that satisfies the
    invariant; the book is never crossed; no quantity is lost or invented; every order has one legal
    life; a taker trades all it can, at legitimate prices; each order kind keeps its promise;
    rejections and cancels do exactly what they should.
  \<^item> Book: the invariant is kept by all operations; queries agree with iteration; the scan for
    fill-or-kill agrees with the sum it short-cuts.
  \<^item> Durability: committed records survive a crash and what is read is a prefix of what was written, also
    across segments and for a crash in the middle of an operation, as far as the directory entries survive; a flipped checksum is an error;
    after a power failure a snapshot's path has the old file or the complete new one, and the new one reads back;
    the replay tool, given a snapshot and the log as a crash leaves it, reports the state of the matcher
    after what is left of the log.
  \<^item> Concurrency: the ring is a bounded queue under every interleaving, never reads an unwritten slot and is
    wait-free; its memory orderings are the only ones that exclude data races; the engine executes the
    accepted commands in order and its stop loses none and returns exactly when the events fit, or always if somebody
    keeps reading them; the hub is one matcher fed in the order of the inbox, sends every tenant exactly the events
    that name its orders, executes what it has accepted, lets some submission through as long as it runs, and stops when its
    users cease to call it.
  \<^item> Network: encodings are exact; the reader submits exactly the complete frames; a signal stops the
    server with every connection accounted for, once its handlers have ended and its hub has stopped; a client alone gets the events of its session, each of many
    clients, however their messages interleave, those of the market that name its orders; a handler that returns leaves no task
    behind; the measuring client, on a fresh server, gets all events it waits for and ends, or panics exactly when its buffers do not fit.
  \<^item> Defects: reopening a log restarts its numbering (\<open>reopening_restarts_numbering\<close>); a torn segment header makes a
    directory unreadable (\<open>torn_header_stops_directory\<close>); reusing a resting id takes its owner away
    (\<open>duplicate_id_disowns\<close>); stopping the hub can lose a command it has taken and never returns while a submitter goes on (\<open>hub_stop_exact\<close>,
    \<open>hub_stop_loses_commands\<close>); a submission to a full inbox never returns once the hub has stopped (\<open>submissions_exact\<close>); a
    snapshot may be undone by a power failure after it was written (\<open>snapshot_write_atomic\<close>), and a segment lost with what was committed
    to it (\<open>rotating_log_survives_crash\<close>), as no directory is synced; a
    disconnection that finds the inbox full leaks its route (\<open>lost_disconnect_leaks_route\<close>); an aborted handler
    leaves its reader running (\<open>connection_tasks\<close>); stopping the engine does not return while the event ring is full and
    nobody reads it (\<open>engine_stop_exact\<close>).

  \<^bold>\<open>Bounds.\<close> Words keep their width. Capacities of rings are at most \<open>2^63\<close>, beyond which
  \<open>next_power_of_two\<close> overflows; indices of rings wrap and need no bound. Event and log numbers wrap
  after \<open>2^64\<close>; where a theorem needs that they have not, it says so. No definition uses fuel.

  \<^bold>\<open>Parameters.\<close> \<open>crc32c\<close>, the hasher of the state hash, and the inbox of the hub
  (\<open>crossbeam_queue::ArrayQueue\<close>, with the laws of \<open>bounded_queue\<close>) are arguments, and so are the client's histogram and
  whether a socket can be bound or connected, what the client's allocator grants and whether its build checks overflow. A channel of \<open>tokio\<close>
  is the list of the values sent.

  \<^bold>\<open>Crashes.\<close> A crash keeps of every file what was synced and a prefix of what was written since: the notion of a torn
  write of \<^verbatim>\<open>wal.rs\<close>. A file system that persists later bytes of a file before earlier ones, or blocks of zeros, is outside it. Directory entries
  are never synced by the code; \<open>committed_records_survive_crash\<close> and \<open>replay_tool_recovers\<close> take it that those of the files they read
  survive, \<open>rotating_log_survives_crash\<close> and \<open>snapshot_write_atomic\<close> let any of them be lost.

  \<^bold>\<open>Not modelled.\<close> Of the memory model only what the ring uses: loads that read any store not older than one
  already read, and synchronisation of acquire loads with release stores; the stop flags of engine and hub and the
  sequence generator are sequentially consistent. Failures of the disk or the network other than an end of file, an
  existing or a missing file; the state of a log writer after an error. Socket options, logging, clocks
  and the layout of printed text. The runtime that
  runs the tasks, and what it does with detached tasks when \<open>serve_until\<close> has returned. Memory that runs out, other than for
  the two buffers of the client whose size its arguments give. \<open>Engine::split\<close> only moves fields: after it the
  same steps are taken by other owners. The library of \<^verbatim>\<open>bourse-bench\<close> is empty; benches and tests exercise the modelled
  operations. No component checks that a cancel comes from the connection that
  owns the order, and no theorem says so.
\<close>

section \<open>From the client's bytes to the market and back\<close>

text \<open>The market's answer to any commands, by price-time priority.\<close>

lemma market_answer: "snd (run_commands cs (matcher_new, [])) = snd (snd (fold spec_step cs (\<lambda>_. [], 1, [])))"
  using arg_cong [OF mt.abs_run [of "(matcher_new, [])" cs], of "snd \<circ> snd"]
  unfolding new_state(2) by (simp add: run_commands_def abs_state_def)

text \<open>C2. A session, from bytes to bytes: a client alone on a server sends any messages as frames. What it
  reads back while it keeps the connection open is, decoded, exactly the events that price-time
  priority gives for its messages in their order; what it reads back if it closes, at whatever byte the
  writer is aborted, is a prefix of them.\<close>

theorem session_end_to_end:
  fixes msgs :: "client_message list" and tx :: 'tx
  defines "es \<equiv> snd (snd (fold spec_step (map requested msgs) (\<lambda>_. [], 1, [])))"
  shows "server_messages (writer_loop (map snd (fst (hub_run (connection_open c tx (client_stream msgs)) ([], hub_loop_new))))) = map Execution es \<and>
    prefix (server_messages (writer_aborted k (map snd (fst (hub_run (handle_connection c tx (client_stream msgs)) ([], hub_loop_new)))))) (map Execution es)"
proof -
  have "snd (run_commands (map client_command msgs) (matcher_new, [])) = es"
    by (simp add: market_answer es_def client_command_requested)
  then show ?thesis
    by (simp add: connection_events session_commands comp_def server_messages_writer server_messages_aborted)
qed

section \<open>Many clients\<close>

text \<open>A connection of the server: its id, its channel, the bytes its client sends, and whether it has been closed. In any
  order of events, the messages of each connection reach the inbox in the order its task submits them.\<close>

type_synonym 'tx client_conn = "conn_id \<times> 'tx \<times> bytes \<times> bool"

fun conn_messages :: "'tx client_conn \<Rightarrow> 'tx msg list" where
  "conn_messages (c, tx, bs, closed) = (if closed then handle_connection c tx bs else connection_open c tx bs)"

definition interleaves :: "'tx msg list \<Rightarrow> 'tx client_conn list \<Rightarrow> bool" where
  "interleaves ms conns \<longleftrightarrow>
     list_all (\<lambda>m. msg_conn m \<in> set (map fst conns)) ms \<and>
     list_all (\<lambda>x. filter (\<lambda>m. msg_conn m = fst x) ms = conn_messages x) conns"

definition separate :: "'tx client_conn list \<Rightarrow> bool" where
  "separate conns \<longleftrightarrow> distinct (map fst conns) \<and> distinct (map (fst \<circ> snd) conns)"

lemma conn_messages_connect: "Connect c' tx' \<in> set (conn_messages (c, tx, bs, closed)) \<Longrightarrow> tx' = tx"
  by (auto simp: handle_connection_def connection_open_def split: if_splits)

lemma separate_channels:
  assumes "separate conns" "(c, tx, y) \<in> set conns" "(c', tx, y') \<in> set conns"
  shows "c = c'"
proof -
  have "inj_on (fst \<circ> snd) (set conns)" using assms(1) by (simp add: separate_def distinct_map)
  from inj_onD [OF this _ assms(2,3)] show ?thesis by simp
qed

lemma interleaves_conn:
  "interleaves ms conns \<Longrightarrow> (c, tx, bs, closed) \<in> set conns \<Longrightarrow>
     filter (\<lambda>m. msg_conn m = c) ms = conn_messages (c, tx, bs, closed)"
  unfolding interleaves_def list_all_iff by (metis fst_conv)

lemma interleaved_history:
  assumes "interleaves ms conns" "separate conns" "(c, tx, bs, closed) \<in> set conns"
  shows "conn_history c tx (of_conn c ms)" "channel_of c tx ms"
proof -
  show "conn_history c tx (of_conn c ms)"
    unfolding interleaves_conn [OF assms(1,3)] by (simp add: handle_connection_def connection_open_def conn_history_parts)
  have "c' = c" if m: "Connect c' tx \<in> set ms" for c'
  proof -
    have "c' \<in> set (map fst conns)" using m assms(1) unfolding interleaves_def list_all_iff by (metis msg_conn.simps(1))
    then obtain tx' bs' closed' where conn: "(c', tx', bs', closed') \<in> set conns" by auto
    have "Connect c' tx \<in> set (of_conn c' ms)" using m by simp
    then have "tx = tx'" unfolding interleaves_conn [OF assms(1) conn] by (rule conn_messages_connect)
    then show ?thesis using separate_channels [OF assms(2) conn] assms(3) by blast
  qed
  then show "channel_of c tx ms" by (simp add: channel_of_def)
qed

text \<open>C9. Sessions side by side. Any number of clients send bytes to one server, and their commands reach the market
  in any interleaving; some of them close. What the server writes to each connection decodes to exactly the events of the whole market,
  up to the connection's end if it has closed, that name one of its orders, in the order of the market and each once; what the
  client has read when the writer is aborted at any byte is a prefix of them. The market is price-time priority on the
  commands of all connections in the order of the inbox. (No order id is submitted twice.)\<close>

theorem multi_tenant_session:
  fixes ms :: "'tx msg list"
  assumes "interleaves ms conns" "separate conns" "(c, tx, bs, closed) \<in> set conns" "distinct (new_ids ms)"
  defines "attended \<equiv> takeWhile (\<lambda>m. m \<noteq> Disconnect c) ms"
  shows "server_messages (writer_loop (received tx (fst (hub_run ms ([], hub_loop_new))))) =
      map Execution (filter (concerns (submitters attended) c) (snd (snd (fold spec_step (commands_of attended) (\<lambda>_. [], 1, []))))) \<and>
    prefix (server_messages (writer_aborted k (received tx (fst (hub_run ms ([], hub_loop_new))))))
      (map Execution (filter (concerns (submitters attended) c) (snd (snd (fold spec_step (commands_of attended) (\<lambda>_. [], 1, []))))))"
  using stream_until [OF interleaved_history [OF assms(1-3)] assms(4)]
  by (simp add: attended_def server_messages_writer server_messages_aborted market_answer)

text \<open>The first client's order rests and is taken by the second, whose rest is resting when it closes.\<close>

definition tenants :: "string client_conn list" where
  "tenants = [(1, ''tx1'', client_stream [limit 7 Buy 100 5], False), (2, ''tx2'', client_stream [limit 8 Sell 99 6], True)]"

definition tenant_msgs :: "string msg list" where
  "tenant_msgs = [Connect 2 ''tx2'', Connect 1 ''tx1'', Cmd 1 (client_command (limit 7 Buy 100 5)), Cmd 2 (client_command (limit 8 Sell 99 6)), Disconnect 2]"

theorem multi_tenant_session_witness:
  "server_messages (writer_loop (received ''tx2'' (fst (hub_run tenant_msgs ([], hub_loop_new))))) =
     [Execution (Accepted 8 6 2), Execution (Trade 8 7 (Price 100) 5 3)]"
proof -
  let ?live = "takeWhile (\<lambda>m. m \<noteq> Disconnect 2) tenant_msgs"
  have "interleaves tenant_msgs tenants"
    by (simp add: interleaves_def tenants_def tenant_msgs_def handle_connection_def connection_open_def session_commands del: client_stream_simps)
  moreover have "separate tenants" by (simp add: separate_def tenants_def)
  moreover have "(2, ''tx2'', client_stream [limit 8 Sell 99 6], True) \<in> set tenants" by (simp add: tenants_def)
  moreover have "distinct (new_ids tenant_msgs)" by code_simp
  moreover have "map Execution (filter (concerns (submitters ?live) 2) (snd (run_commands (commands_of ?live) (matcher_new, [])))) =
     [Execution (Accepted 8 6 2), Execution (Trade 8 7 (Price 100) 5 3)]" by code_simp
  ultimately show ?thesis using multi_tenant_session [of tenant_msgs tenants 2 "''tx2''"] by (simp only: market_answer)
qed

end
